(* ===== verification/KPrelude.thy ===== *)
theory KPrelude
  imports Main "HOL-Library.Word"
begin

text \<open>
  Shared vocabulary of the development: the error numbers of the kernel, the outcome of a
  system call, C's fixed-width integers as \<open>int\<close> with the wrap-around written out, the part of
  \<open>struct task_struct\<close> the modelled system calls read, checked access to arrays, and the
  generic lemmas on these that the component theories use.

  Integers. A C object of a given width is an \<open>int\<close> kept in its range by \<open>u16\<close>, \<open>s16\<close>, \<open>u32\<close> or
  \<open>s32\<close> at every store the source makes, or a \<open>32 word\<close> where the code works on bits. Signed
  overflow wraps, as the compiler of that time and the i386 make it.

  Memory. A read or write outside the object a pointer points into has no value in C. It is
  \<open>None\<close> (or the outcome \<open>Fault\<close>) here, never an arbitrary value.
\<close>

unbundle bit_operations_syntax

named_theorems wrap_simps \<open>rules that drop a wrap-around on values in range\<close>
named_theorems outcome_simps \<open>rules that compute with outcomes\<close>

section \<open>Error numbers\<close>

text \<open>The error numbers the modelled calls return, with the names of include/linux/errno.h.\<close>

datatype errno =
    EPERM | ENOENT | EINTR | E2BIG | EBADF | EAGAIN | ENOMEM | EACCES | EFAULT | EBUSY | EEXIST
  | ENOTDIR | EINVAL | ENFILE | EMFILE | EFBIG | ENOSPC | ESPIPE | EPIPE | ERANGE | ENOLCK
  | ENOSYS | ENOMSG | EIDRM | ERESTARTSYS | ENXIO | ESRCH

text \<open>
  What one run of kernel code between two points where it may sleep ends with: it returns a
  value, it returns an error, it goes to sleep on a wait queue, or it touches memory outside
  the objects it may touch.
\<close>

datatype ('q, 'a) outcome = Ret 'a | Err errno | Sleep 'q | Fault

section \<open>Fixed-width integers\<close>

definition u16 :: "int \<Rightarrow> int" where "u16 x = x mod 65536"
definition s16 :: "int \<Rightarrow> int" where "s16 x = (x + 32768) mod 65536 - 32768"
definition u32 :: "int \<Rightarrow> int" where "u32 x = x mod 4294967296"
definition s32 :: "int \<Rightarrow> int" where "s32 x = (x + 2147483648) mod 4294967296 - 2147483648"

section \<open>The calling process\<close>

text \<open>
  The fields of \<open>struct task_struct\<close> that permission and signal checks read. \<open>groups\<close> is the
  array of supplementary groups, as long as \<open>NGROUPS\<close>, ended early by \<open>NOGROUP\<close>.
\<close>

record task =
  pid :: int
  euid :: int
  egid :: int
  groups :: "int list"
  signal :: "32 word"
  blocked :: "32 word"

definition NOGROUP :: int where "NOGROUP = -1"

definition suser :: "task \<Rightarrow> bool" where
  "suser cur \<longleftrightarrow> euid cur = 0"

fun groups_scan :: "int list \<Rightarrow> int \<Rightarrow> bool" where
  "groups_scan [] grp = False"
| "groups_scan (g # gs) grp =
     (if g = NOGROUP then False else if g = grp then True else groups_scan gs grp)"

definition in_group_p :: "task \<Rightarrow> int \<Rightarrow> bool" where
  "in_group_p cur grp = (if grp = egid cur then True else groups_scan (groups cur) grp)"

text \<open>The test \<open>current->signal & ~current->blocked\<close> made before every interruptible sleep.\<close>

definition signal_pending :: "task \<Rightarrow> bool" where
  "signal_pending cur \<longleftrightarrow> signal cur AND NOT (blocked cur) \<noteq> 0"

section \<open>Arrays with checked access\<close>

definition aget :: "'a list \<Rightarrow> int \<Rightarrow> 'a option" where
  "aget xs i = (if 0 \<le> i \<and> i < int (length xs) then Some (xs ! nat i) else None)"

definition aset :: "'a list \<Rightarrow> int \<Rightarrow> 'a \<Rightarrow> 'a list option" where
  "aset xs i v = (if 0 \<le> i \<and> i < int (length xs) then Some (xs[nat i := v]) else None)"

section \<open>Lemmas\<close>

subsection \<open>Wrap-around\<close>

lemma u16_id [wrap_simps]: "0 \<le> x \<Longrightarrow> x < 65536 \<Longrightarrow> u16 x = x"
  by (simp add: u16_def)

lemma s16_id [wrap_simps]: "-32768 \<le> x \<Longrightarrow> x < 32768 \<Longrightarrow> s16 x = x"
  by (simp add: s16_def)

lemma u32_id [wrap_simps]: "0 \<le> x \<Longrightarrow> x < 4294967296 \<Longrightarrow> u32 x = x"
  by (simp add: u32_def)

lemma s32_id [wrap_simps]: "-2147483648 \<le> x \<Longrightarrow> x < 2147483648 \<Longrightarrow> s32 x = x"
  by (simp add: s32_def)

lemma u16_range [simp]: "0 \<le> u16 x" "u16 x < 65536"
  by (simp_all add: u16_def)

lemma u32_range [simp]: "0 \<le> u32 x" "u32 x < 4294967296"
  by (simp_all add: u32_def)

lemma s16_range [simp]: "-32768 \<le> s16 x" "s16 x < 32768"
proof -
  have "0 \<le> (x + 32768) mod 65536" "(x + 32768) mod 65536 < 65536" by simp_all
  then show "-32768 \<le> s16 x" "s16 x < 32768" by (simp_all add: s16_def)
qed

lemma s32_range [simp]: "-2147483648 \<le> s32 x" "s32 x < 2147483648"
proof -
  have "0 \<le> (x + 2147483648) mod 4294967296" "(x + 2147483648) mod 4294967296 < 4294967296"
    by simp_all
  then show "-2147483648 \<le> s32 x" "s32 x < 2147483648" by (simp_all add: s32_def)
qed

lemma u32_add:
  assumes "0 \<le> a" "a < 4294967296" "0 \<le> b" "b < 4294967296"
  shows "u32 (a + b) = (if a + b < 4294967296 then a + b else a + b - 4294967296)"
proof (cases "a + b < 4294967296")
  case True
  with assms show ?thesis by (simp add: u32_id)
next
  case False
  have "u32 (a + b) = (a + b - 4294967296) mod 4294967296" by (simp add: u32_def)
  also have "\<dots> = a + b - 4294967296" using False assms by (intro mod_pos_pos_trivial) auto
  finally show ?thesis using False by simp
qed

subsection \<open>Arrays\<close>

lemma aget_Some_iff: "aget xs i = Some v \<longleftrightarrow> 0 \<le> i \<and> i < int (length xs) \<and> v = xs ! nat i"
  by (auto simp: aget_def)

lemma aget_nat [simp]: "k < length xs \<Longrightarrow> aget xs (int k) = Some (xs ! k)"
  by (simp add: aget_def)

lemma aset_nat [simp]: "k < length xs \<Longrightarrow> aset xs (int k) v = Some (xs[k := v])"
  by (simp add: aset_def)

lemma aset_length: "aset xs i v = Some ys \<Longrightarrow> length ys = length xs"
  by (auto simp: aset_def split: if_splits)

lemma aset_None_iff: "aset xs i v = None \<longleftrightarrow> i < 0 \<or> int (length xs) \<le> i"
  by (auto simp: aset_def)

lemma groups_scan_iff:
  "groups_scan gs grp \<longleftrightarrow> grp \<noteq> NOGROUP \<and> grp \<in> set (takeWhile (\<lambda>g. g \<noteq> NOGROUP) gs)"
  by (induction gs) auto

section \<open>Pools of objects\<close>

text \<open>
  What the kernel expects of a function that hands out objects from a table or a free list: the
  object was not in use, is in use afterwards, and nothing changes for the other objects. \<open>alloc_n\<close>
  asks for several in a row, as calls that need two do.
\<close>

fun alloc_n :: "('s \<Rightarrow> ('a \<times> 's) option) \<Rightarrow> nat \<Rightarrow> 's \<Rightarrow> ('a list \<times> 's) option" where
  "alloc_n alloc 0 s = Some ([], s)"
| "alloc_n alloc (Suc n) s =
     (case alloc s of
        None \<Rightarrow> None
      | Some (a, s') \<Rightarrow> map_option (\<lambda>(as, s''). (a # as, s'')) (alloc_n alloc n s'))"

locale pool =
  fixes inv :: "'s \<Rightarrow> bool" and used :: "'s \<Rightarrow> 'a \<Rightarrow> bool" and alloc :: "'s \<Rightarrow> ('a \<times> 's) option"
  assumes alloc_ok: "inv s \<Longrightarrow> alloc s = Some (a, s') \<Longrightarrow> inv s' \<and> \<not> used s a \<and> used s' a"
    and alloc_keeps: "inv s \<Longrightarrow> alloc s = Some (a, s') \<Longrightarrow> b \<noteq> a \<Longrightarrow> used s' b \<longleftrightarrow> used s b"
begin

lemma alloc_n_distinct:
  assumes "inv s" and "alloc_n alloc n s = Some (as, s')"
  shows "inv s' \<and> length as = n \<and> distinct as \<and> (\<forall>a \<in> set as. \<not> used s a \<and> used s' a) \<and>
    (\<forall>b. b \<notin> set as \<longrightarrow> used s' b = used s b)"
  using assms
proof (induction n arbitrary: s as)
  case (Suc n)
  then obtain a s1 as1 where a: "alloc s = Some (a, s1)" "alloc_n alloc n s1 = Some (as1, s')" "as = a # as1"
    by (auto split: option.splits)
  note now = alloc_ok [OF Suc.prems(1) a(1)] and later = Suc.IH [OF _ a(2)]
  have k: "used s1 b = used s b" if "b \<noteq> a" for b using alloc_keeps [OF Suc.prems(1) a(1) that] .
  from now later have l: "inv s' \<and> length as1 = n \<and> distinct as1" "\<forall>b \<in> set as1. \<not> used s1 b \<and> used s' b"
      "\<forall>b. b \<notin> set as1 \<longrightarrow> used s' b = used s1 b" by blast+
  moreover have na: "a \<notin> set as1" using l(2) now by blast
  moreover have "\<forall>b \<in> set as1. \<not> used s b" using l(2) k na by metis
  ultimately show ?case using now k a(3) by auto
qed simp

end

section \<open>Bounded queues\<close>

text \<open>
  The contract of a buffer that keeps the order of what is put into it: \<open>put\<close> stores as much as
  fits and returns the rest, \<open>get\<close> takes up to \<open>n\<close> elements from the front. \<open>run_queue\<close> performs a
  sequence of such operations and collects what was accepted and what was delivered.
\<close>

datatype 'a qop = Put "'a list" | Get nat

fun run_queue ::
  "('s \<Rightarrow> 'a list \<Rightarrow> ('s \<times> 'a list) option) \<Rightarrow> ('s \<Rightarrow> nat \<Rightarrow> ('s \<times> 'a list) option) \<Rightarrow>
   's \<Rightarrow> 'a qop list \<Rightarrow> ('s \<times> 'a list \<times> 'a list) option" where
  "run_queue put get s [] = Some (s, [], [])"
| "run_queue put get s (Put xs # ops) =
     (case put s xs of
        None \<Rightarrow> None
      | Some (s, rest) \<Rightarrow>
          map_option (\<lambda>(s', acc, del). (s', take (length xs - length rest) xs @ acc, del)) (run_queue put get s ops))"
| "run_queue put get s (Get n # ops) =
     (case get s n of
        None \<Rightarrow> None
      | Some (s, ys) \<Rightarrow> map_option (\<lambda>(s', acc, del). (s', acc, ys @ del)) (run_queue put get s ops))"

locale bounded_fifo =
  fixes inv :: "'s \<Rightarrow> bool" and contents :: "'s \<Rightarrow> 'a list" and cap :: nat
    and put :: "'s \<Rightarrow> 'a list \<Rightarrow> ('s \<times> 'a list) option"
    and get :: "'s \<Rightarrow> nat \<Rightarrow> ('s \<times> 'a list) option"
  assumes bound: "inv s \<Longrightarrow> length (contents s) \<le> cap"
    and put_ok: "inv s \<Longrightarrow> \<exists>s'. put s xs = Some (s', drop (cap - length (contents s)) xs) \<and> inv s' \<and>
      contents s' = contents s @ take (cap - length (contents s)) xs"
    and get_ok: "inv s \<Longrightarrow> \<exists>s'. get s n = Some (s', take n (contents s)) \<and> inv s' \<and>
      contents s' = drop n (contents s)"
begin

lemma stream:
  assumes "inv s"
  shows "\<exists>s' acc del. run_queue put get s ops = Some (s', acc, del) \<and> inv s' \<and>
    contents s @ acc = del @ contents s'"
  using assms
proof (induction ops arbitrary: s)
  case (Cons op ops)
  show ?case
  proof (cases op)
    case (Put xs)
    obtain s1 where s1: "put s xs = Some (s1, drop (cap - length (contents s)) xs)" "inv s1"
        "contents s1 = contents s @ take (cap - length (contents s)) xs"
      using put_ok [OF Cons.prems] by blast
    have "take (length xs - length (drop (cap - length (contents s)) xs)) xs = take (cap - length (contents s)) xs"
      by (cases "length xs \<le> cap - length (contents s)") simp_all
    with Cons.IH [OF s1(2)] s1 Put show ?thesis by fastforce
  next
    case (Get n)
    obtain s1 where s1: "get s n = Some (s1, take n (contents s))" "inv s1" "contents s1 = drop n (contents s)"
      using get_ok [OF Cons.prems] by blast
    obtain s2 acc del where "run_queue put get s1 ops = Some (s2, acc, del)" "inv s2" "contents s1 @ acc = del @ contents s2"
      using Cons.IH [OF s1(2)] by blast
    moreover from this have "contents s @ acc = (take n (contents s) @ del) @ contents s2"
      using s1(3) by (metis append_assoc append_take_drop_id)
    ultimately show ?thesis using s1 Get by auto
  qed
qed simp

end

end
