(* ===== verification/Ioport.thy ===== *)
theory Ioport
  imports KPrelude
begin

text \<open>
  kernel/ioport.c: the I/O permission bitmap of a task and the registrar of I/O port regions.
  A bitmap is the list of its 32-bit words; bit \<open>j\<close> of the bitmap is bit \<open>j mod 32\<close> of word
  \<open>j div 32\<close>. The walking pointer \<open>bitmap_base\<close> is an index, and an access outside the array or
  a negative shift count is \<open>None\<close>.
\<close>

section \<open>Model\<close>

definition IO_BITMAP_SIZE :: nat where "IO_BITMAP_SIZE = 32"

text \<open>\<open>~0 << n\<close> on a 32-bit \<open>int\<close>, for the shift counts C defines.\<close>

definition ones_from :: "int \<Rightarrow> 32 word option" where
  "ones_from n = (if 0 \<le> n \<and> n < 32 then Some (push_bit (nat n) (- 1)) else None)"

text \<open>\<open>*bitmap_base |= msk\<close> or \<open>*bitmap_base &= ~msk\<close>.\<close>

definition put_mask :: "32 word list \<Rightarrow> int \<Rightarrow> 32 word \<Rightarrow> bool \<Rightarrow> 32 word list option" where
  "put_mask bm i msk new_value =
     (case aget bm i of
        None \<Rightarrow> None
      | Some w \<Rightarrow> aset bm i (if new_value then w OR msk else w AND NOT msk))"

text \<open>The head of both routines: the mask of the first, partial word.\<close>

definition first_mask :: "int \<Rightarrow> int \<Rightarrow> 32 word option" where
  "first_mask low_index len =
     (case ones_from low_index of
        None \<Rightarrow> None
      | Some msk \<Rightarrow>
          if len < 32 then map_option (\<lambda>hi. msk AND NOT hi) (ones_from len) else Some msk)"

function set_words :: "32 word list \<Rightarrow> int \<Rightarrow> int \<Rightarrow> 32 word \<Rightarrow> (32 word list \<times> int \<times> int) option" where
  "set_words bm i len msk =
     (if 32 \<le> len
      then (case aset bm i msk of
              None \<Rightarrow> None
            | Some bm' \<Rightarrow> set_words bm' (i + 1) (len - 32) msk)
      else Some (bm, i, len))"
  by pat_completeness auto
termination by (relation "measure (\<lambda>(bm, i, len, msk). nat len)") auto

text \<open>The whole words and the last, partial one.\<close>

definition set_tail :: "32 word list \<Rightarrow> int \<Rightarrow> int \<Rightarrow> bool \<Rightarrow> 32 word list option" where
  "set_tail bm i len new_value =
     (case set_words bm i len (if new_value then - 1 else 0) of
        None \<Rightarrow> None
      | Some (bm', i', len') \<Rightarrow>
          if 0 < len'
          then (case ones_from len' of
                  None \<Rightarrow> None
                | Some hi \<Rightarrow> put_mask bm' i' (NOT hi) new_value)
          else Some bm')"

definition set_bitmap :: "32 word list \<Rightarrow> int \<Rightarrow> int \<Rightarrow> bool \<Rightarrow> 32 word list option" where
  "set_bitmap bitmap base extent new_value =
     (let bitmap_base = base div 32;
          low_index = base mod 32;
          len = low_index + extent
      in if low_index \<noteq> 0
         then (case first_mask low_index len of
                 None \<Rightarrow> None
               | Some msk \<Rightarrow>
                   (case put_mask bitmap bitmap_base msk new_value of
                      None \<Rightarrow> None
                    | Some bm \<Rightarrow> set_tail bm (bitmap_base + 1) (len - 32) new_value))
         else set_tail bitmap bitmap_base len new_value)"

function check_words :: "32 word list \<Rightarrow> int \<Rightarrow> int \<Rightarrow> (bool \<times> int \<times> int) option" where
  "check_words bm i len =
     (if 32 \<le> len
      then (case aget bm i of
              None \<Rightarrow> None
            | Some w \<Rightarrow> if w \<noteq> 0 then Some (True, i, len) else check_words bm (i + 1) (len - 32))
      else Some (False, i, len))"
  by pat_completeness auto
termination by (relation "measure (\<lambda>(bm, i, len). nat len)") auto

definition check_tail :: "32 word list \<Rightarrow> int \<Rightarrow> int \<Rightarrow> bool option" where
  "check_tail bm i len =
     (case check_words bm i len of
        None \<Rightarrow> None
      | Some (found, i', len') \<Rightarrow>
          if found then Some True
          else if 0 < len'
          then (case ones_from len' of
                  None \<Rightarrow> None
                | Some hi \<Rightarrow> map_option (\<lambda>w. w AND NOT hi \<noteq> 0) (aget bm i'))
          else Some False)"

definition check_bitmap :: "32 word list \<Rightarrow> int \<Rightarrow> int \<Rightarrow> bool option" where
  "check_bitmap bitmap base extent =
     (let bitmap_base = base div 32;
          low_index = base mod 32;
          len = low_index + extent
      in if low_index \<noteq> 0
         then (case first_mask low_index len of
                 None \<Rightarrow> None
               | Some msk \<Rightarrow>
                   (case aget bitmap bitmap_base of
                      None \<Rightarrow> None
                    | Some w \<Rightarrow>
                        if w AND msk \<noteq> 0 then Some True
                        else check_tail bitmap (bitmap_base + 1) (len - 32)))
         else check_tail bitmap bitmap_base len)"

text \<open>
  \<open>sys_ioperm\<close> on the task's own bitmap: \<open>from\<close> and \<open>num\<close> are \<open>unsigned long\<close>, whose sum wraps;
  \<open>set_bitmap\<close> takes them as \<open>short\<close>.
\<close>

definition sys_ioperm ::
  "task \<Rightarrow> 32 word list \<Rightarrow> int \<Rightarrow> int \<Rightarrow> bool \<Rightarrow> (unit, 32 word list) outcome" where
  "sys_ioperm cur io_bitmap from num turn_on =
     (if u32 (from + num) \<le> from then Err EINVAL
      else if u32 (from + num) > int IO_BITMAP_SIZE * 32 then Err EINVAL
      else if \<not> suser cur then Err EPERM
      else (case set_bitmap io_bitmap (s16 from) (s16 num) (\<not> turn_on) of
              None \<Rightarrow> Fault
            | Some bm \<Rightarrow> Ret bm))"

text \<open>\<open>sys_iopl\<close>: the new \<open>eflags\<close> on the caller's stack.\<close>

definition sys_iopl :: "task \<Rightarrow> 32 word \<Rightarrow> 32 word \<Rightarrow> (unit, 32 word) outcome" where
  "sys_iopl cur level eflags =
     (if level > 3 then Err EINVAL
      else if \<not> suser cur then Err EPERM
      else Ret ((eflags AND 0xffffcfff) OR push_bit 12 level))"

definition snarf_region :: "32 word list \<Rightarrow> int \<Rightarrow> int \<Rightarrow> 32 word list option" where
  "snarf_region registrar from num =
     (if from > int IO_BITMAP_SIZE * 32 then Some registrar
      else let num' = (if u32 (from + num) > int IO_BITMAP_SIZE * 32
                       then int IO_BITMAP_SIZE * 32 - from else num)
           in set_bitmap registrar (s16 from) (s16 num') True)"

definition check_region :: "32 word list \<Rightarrow> int \<Rightarrow> int \<Rightarrow> bool option" where
  "check_region registrar from num =
     (if from > int IO_BITMAP_SIZE * 32 then Some False
      else let num' = (if u32 (from + num) > int IO_BITMAP_SIZE * 32
                       then int IO_BITMAP_SIZE * 32 - from else num)
           in check_bitmap registrar (s16 from) (s16 num'))"

text \<open>\<open>reserve_setup\<close>: \<open>ints[0]\<close> is the number of integers that follow; pairs from \<open>ints[1]\<close> on.\<close>

function reserve_pairs :: "32 word list \<Rightarrow> int list \<Rightarrow> nat \<Rightarrow> 32 word list option" where
  "reserve_pairs registrar ints i =
     (if i + 1 < length ints \<and> int i < ints ! 0
      then (case snarf_region registrar (u32 (ints ! i)) (u32 (ints ! (i + 1))) of
              None \<Rightarrow> None
            | Some r \<Rightarrow> reserve_pairs r ints (i + 2))
      else if i < length ints \<and> int i < ints ! 0 then None
      else Some registrar)"
  by pat_completeness auto
termination by (relation "measure (\<lambda>(r, ints, i). length ints - i)") auto

definition reserve_setup :: "32 word list \<Rightarrow> int list \<Rightarrow> 32 word list option" where
  "reserve_setup registrar ints = reserve_pairs registrar ints 1"

section \<open>What a bitmap operation promises\<close>

text \<open>
  The reference reading of a bitmap: bit \<open>j\<close>, the effect of writing one value to the bits of
  \<open>lo..<hi\<close> and nothing else, and whether any bit of \<open>lo..<hi\<close> is set.
\<close>

definition getbit :: "32 word list \<Rightarrow> nat \<Rightarrow> bool" where
  "getbit bm j \<longleftrightarrow> bit (bm ! (j div 32)) (j mod 32)"

definition range_set :: "32 word list \<Rightarrow> nat \<Rightarrow> nat \<Rightarrow> bool \<Rightarrow> 32 word list \<Rightarrow> bool" where
  "range_set bm lo hi v bm' \<longleftrightarrow>
     length bm' = length bm \<and>
     (\<forall>j < 32 * length bm. getbit bm' j = (if lo \<le> j \<and> j < hi then v else getbit bm j))"

definition range_any :: "32 word list \<Rightarrow> nat \<Rightarrow> nat \<Rightarrow> bool" where
  "range_any bm lo hi \<longleftrightarrow> (\<exists>j. lo \<le> j \<and> j < hi \<and> getbit bm j)"

text \<open>
  The contract of a map from positions to bits with a range write and a range test. Its clients
  only need that a test after a write sees what was set before and what the write added.
\<close>

locale range_map =
  fixes mark :: "'m \<Rightarrow> nat \<Rightarrow> nat \<Rightarrow> bool \<Rightarrow> 'm option"
    and test :: "'m \<Rightarrow> nat \<Rightarrow> nat \<Rightarrow> bool option"
    and get :: "'m \<Rightarrow> nat \<Rightarrow> bool"
    and size :: "'m \<Rightarrow> nat"
  assumes mark_ok: "base + extent \<le> size m \<Longrightarrow>
      \<exists>m'. mark m base extent v = Some m' \<and> size m' = size m \<and>
        (\<forall>j < size m. get m' j = (if base \<le> j \<and> j < base + extent then v else get m j))"
    and test_ok: "base + extent \<le> size m \<Longrightarrow>
      test m base extent = Some (\<exists>j. base \<le> j \<and> j < base + extent \<and> get m j)"
begin

lemma mark_then_test:
  assumes "b + e \<le> size m" and "b' + e' \<le> size m"
  shows "\<exists>m' busy. mark m b e True = Some m' \<and> size m' = size m \<and> test m b' e' = Some busy \<and>
     test m' b' e' = Some (busy \<or> (\<exists>j. b \<le> j \<and> j < b + e \<and> b' \<le> j \<and> j < b' + e'))"
proof -
  obtain m' where m': "mark m b e True = Some m'" "size m' = size m"
    "\<forall>j < size m. get m' j = (if b \<le> j \<and> j < b + e then True else get m j)"
    using mark_ok [OF assms(1)] by blast
  have "(\<exists>j. b' \<le> j \<and> j < b' + e' \<and> get m' j) \<longleftrightarrow>
      (\<exists>j. b' \<le> j \<and> j < b' + e' \<and> get m j) \<or> (\<exists>j. b \<le> j \<and> j < b + e \<and> b' \<le> j \<and> j < b' + e')"
    using m'(3) assms(2) by (metis less_le_trans)
  then show ?thesis using m'(1,2) assms(2) test_ok [of b' e'] by simp
qed

lemma unmark_then_test:
  assumes "b + e \<le> size m"
  shows "\<exists>m'. mark m b e False = Some m' \<and> size m' = size m \<and> test m' b e = Some False"
proof -
  obtain m' where m': "mark m b e False = Some m'" "size m' = size m"
    "\<forall>j < size m. get m' j = (if b \<le> j \<and> j < b + e then False else get m j)"
    using mark_ok [OF assms] by blast
  then show ?thesis using assms test_ok [of b e m'] by auto
qed

end

section \<open>The bitmap routines meet the contract\<close>

lemma range_set_refl: "hi \<le> lo \<Longrightarrow> range_set bm lo hi v bm"
  by (auto simp: range_set_def)

lemma range_set_trans:
  "range_set bm lo mid v bm1 \<Longrightarrow> range_set bm1 mid hi v bm2 \<Longrightarrow> lo \<le> mid \<Longrightarrow> mid \<le> hi \<Longrightarrow>
   range_set bm lo hi v bm2"
  by (auto simp: range_set_def)

lemma word_index: "j < 32 * n \<Longrightarrow> j div 32 < (n::nat)"
  by (simp add: less_mult_imp_div_less mult.commute)

lemma getbit_update:
  "i < length bm \<Longrightarrow> getbit (bm[i := w]) j = (if j div 32 = i then bit w (j mod 32) else getbit bm j)"
  by (simp add: getbit_def)

lemma update_range_set:
  assumes "i < length bm" and "b \<le> 32"
    and "\<And>k. k < 32 \<Longrightarrow> bit w k = (if a \<le> k \<and> k < b then v else bit (bm ! i) k)"
  shows "range_set bm (32 * i + a) (32 * i + b) v (bm[i := w])"
proof -
  have "getbit (bm[i := w]) j = (if 32 * i + a \<le> j \<and> j < 32 * i + b then v else getbit bm j)" for j
  proof (cases "j div 32 = i")
    case True
    then have j: "j = 32 * i + j mod 32" by auto
    have "bit w (j mod 32) = (if a \<le> j mod 32 \<and> j mod 32 < b then v else bit (bm ! i) (j mod 32))"
      by (rule assms(3)) simp
    moreover have "32 * i + a \<le> j \<and> j < 32 * i + b \<longleftrightarrow> a \<le> j mod 32 \<and> j mod 32 < b"
      using j by linarith
    ultimately show ?thesis using assms(1) True by (simp add: getbit_update) (simp add: getbit_def)
  next
    case False
    then have "\<not> (32 * i + a \<le> j \<and> j < 32 * i + b)" using assms(2) by auto
    then show ?thesis using False assms(1) by (simp only: getbit_update if_False)
  qed
  then show ?thesis by (simp add: range_set_def)
qed

lemma put_mask_range:
  assumes "i < length bm" and "b \<le> 32"
    and "\<And>k. k < 32 \<Longrightarrow> bit m k \<longleftrightarrow> a \<le> k \<and> k < b"
  shows "\<exists>bm'. put_mask bm (int i) m v = Some bm' \<and> range_set bm (32 * i + a) (32 * i + b) v bm'"
proof -
  let ?w = "if v then bm ! i OR m else bm ! i AND NOT m"
  have "range_set bm (32 * i + a) (32 * i + b) v (bm[i := ?w])"
    using assms by (intro update_range_set) (auto simp: bit_or_iff bit_and_iff bit_not_iff)
  then show ?thesis using assms(1) by (simp add: put_mask_def)
qed

lemma bit_full: "k < 32 \<Longrightarrow> bit (if v then - 1 else 0 :: 32 word) k = v"
  by simp

declare set_words.simps [simp del]  check_words.simps [simp del]

lemma set_words_range:
  "32 * i + n \<le> 32 * length bm \<Longrightarrow>
   \<exists>bm'. set_words bm (int i) (int n) (if v then - 1 else 0) = Some (bm', int (i + n div 32), int (n mod 32))
     \<and> range_set bm (32 * i) (32 * (i + n div 32)) v bm'"
proof (induction n arbitrary: i bm rule: less_induct)
  case (less n)
  show ?case
  proof (cases "32 \<le> n")
    case False
    then show ?thesis by (simp add: set_words.simps [of bm "int i" "int n"] range_set_refl)
  next
    case True
    let ?bm = "bm[i := if v then - 1 else 0 :: 32 word]"
    from True less.prems have i: "i < length bm" by simp
    have r1: "range_set bm (32 * i + 0) (32 * i + 32) v ?bm"
      using i by (intro update_range_set) auto
    have "32 * (i + 1) + (n - 32) \<le> 32 * length ?bm" using True less.prems by simp
    then obtain bm' where
      s: "set_words ?bm (int (i + 1)) (int (n - 32)) (if v then - 1 else 0)
            = Some (bm', int (i + 1 + (n - 32) div 32), int ((n - 32) mod 32))"
      and r2: "range_set ?bm (32 * (i + 1)) (32 * (i + 1 + (n - 32) div 32)) v bm'"
      using less.IH [of "n - 32" "i + 1" ?bm] True by auto
    have d: "i + 1 + (n - 32) div 32 = i + n div 32" "(n - 32) mod 32 = n mod 32"
      using True by (simp_all add: le_div_geq le_mod_geq)
    have "range_set bm (32 * i) (32 * (i + 1)) v ?bm" using r1 by (simp add: algebra_simps)
    from range_set_trans [OF this r2] have "range_set bm (32 * i) (32 * (i + n div 32)) v bm'"
      unfolding d(1) [symmetric] by simp
    moreover have "set_words bm (int i) (int n) (if v then - 1 else 0)
        = Some (bm', int (i + n div 32), int (n mod 32))"
    proof -
      have c: "int (i + 1) = int i + 1" "int (n - 32) = int n - 32" using True by auto
      have "set_words bm (int i) (int n) m = set_words (bm[i := m]) (int i + 1) (int n - 32) m" for m
        using True i by (simp add: set_words.simps [of bm "int i" "int n"])
      then show ?thesis using s unfolding c d by simp
    qed
    ultimately show ?thesis by blast
  qed
qed

lemma ones_from_nat: "n < 32 \<Longrightarrow> ones_from (int n) = Some (NOT (mask n))"
  by (simp add: ones_from_def)

lemma bit_ones: "k < 32 \<Longrightarrow> bit (NOT (mask n) :: 32 word) k \<longleftrightarrow> n \<le> k"
  by (auto simp: bit_not_iff bit_mask_iff)

lemma first_mask_spec:
  assumes "low < 32"
  shows "\<exists>m. first_mask (int low) (int low + int extent) = Some m \<and>
     (\<forall>k < 32. bit m k \<longleftrightarrow> low \<le> k \<and> k < min 32 (low + extent))"
proof (cases "low + extent < 32")
  case True
  then have "ones_from (int low + int extent) = Some (NOT (mask (low + extent)))"
    using ones_from_nat [of "low + extent"] by simp
  with assms True show ?thesis
    by (auto simp: first_mask_def ones_from_nat bit_and_iff bit_mask_iff bit_not_iff)
next
  case False
  with assms show ?thesis by (auto simp: first_mask_def ones_from_nat bit_not_iff bit_mask_iff)
qed

lemma set_tail_spec:
  assumes "32 * i + n \<le> 32 * length bm"
  shows "\<exists>bm'. set_tail bm (int i) (int n) v = Some bm' \<and> range_set bm (32 * i) (32 * i + n) v bm'"
proof -
  obtain bm1 where s: "set_words bm (int i) (int n) (if v then - 1 else 0)
      = Some (bm1, int (i + n div 32), int (n mod 32))"
    and r1: "range_set bm (32 * i) (32 * (i + n div 32)) v bm1"
    using set_words_range [OF assms] by blast
  have len1: "length bm1 = length bm" using r1 by (simp add: range_set_def)
  show ?thesis
  proof (cases "n mod 32 = 0")
    case True
    then have "32 * (i + n div 32) = 32 * i + n" by auto
    with s r1 True show ?thesis by (simp add: set_tail_def)
  next
    case False
    have i': "i + n div 32 < length bm1" 
      using assms False len1 mult_div_mod_eq [of 32 n] by linarith
    obtain bm2 where p: "put_mask bm1 (int (i + n div 32)) (mask (n mod 32)) v = Some bm2"
      and r2: "range_set bm1 (32 * (i + n div 32) + 0) (32 * (i + n div 32) + n mod 32) v bm2"
      using put_mask_range [OF i', of "n mod 32" "mask (n mod 32)" 0 v]
      by (auto simp: bit_mask_iff)
    have e: "32 * (i + n div 32) + n mod 32 = 32 * i + n" by simp
    have "range_set bm (32 * i) (32 * i + n) v bm2"
      using range_set_trans [OF r1 r2 [unfolded e add_0_right]] by simp
    with s p False show ?thesis by (simp add: set_tail_def ones_from_nat)
  qed
qed

lemma int_div_mod32: "int n div 32 = int (n div 32)" "int n mod 32 = int (n mod 32)"
  by (simp_all add: of_nat_div of_nat_mod)

lemma set_bitmap_spec:
  assumes "base + extent \<le> 32 * length bm"
  shows "\<exists>bm'. set_bitmap bm (int base) (int extent) v = Some bm'
     \<and> range_set bm base (base + extent) v bm'"
proof (cases "base mod 32 = 0")
  case True
  then have b: "32 * (base div 32) = base" by auto
  show ?thesis
    using set_tail_spec [of "base div 32" extent bm v] assms True
    unfolding set_bitmap_def Let_def b int_div_mod32 by simp
next
  case False
  define q r where q: "q = base div 32" and r: "r = base mod 32"
  have qr: "32 * q + r = base" "r < 32" by (simp_all add: q r)
  note dm = int_div_mod32 [of base, folded q r]
  from False have nz: "r \<noteq> 0" by (simp add: r)
  obtain m where m: "first_mask (int r) (int r + int extent) = Some m"
    and bm: "\<forall>k < 32. bit m k \<longleftrightarrow> r \<le> k \<and> k < min 32 (r + extent)"
    using first_mask_spec [of r extent] qr(2) by auto
  show ?thesis
  proof (cases "q < length bm")
    case False
    then show ?thesis using assms qr \<open>base mod 32 \<noteq> 0\<close> r by linarith
  next
    case True
    obtain bm1 where p: "put_mask bm (int q) m v = Some bm1"
      and r1: "range_set bm (32 * q + r) (32 * q + min 32 (r + extent)) v bm1"
      using put_mask_range [OF True, of "min 32 (r + extent)" m r v] bm by auto
    have len1: "length bm1 = length bm" using r1 by (simp add: range_set_def)
    show ?thesis
    proof (cases "r + extent < 32")
      case small: True
      have "set_tail bm1 (int q + 1) (int r + int extent - 32) v = Some bm1"
        using small unfolding set_tail_def by (subst set_words.simps) auto
      then have "set_bitmap bm (int base) (int extent) v = Some bm1"
        using nz small m p unfolding set_bitmap_def Let_def dm by simp
      moreover have "range_set bm base (base + extent) v bm1" using r1 small qr by (simp add: min_def add.assoc [symmetric])
      ultimately show ?thesis by blast
    next
      case big: False
      then obtain n where n: "r + extent = 32 + n" by (metis le_Suc_ex not_less)
      have "32 * (q + 1) + n \<le> 32 * length bm1" using assms n len1 qr by (simp add: algebra_simps)
      from set_tail_spec [OF this, of v] obtain bm2 where
        t: "set_tail bm1 (int (q + 1)) (int n) v = Some bm2"
        and r2: "range_set bm1 (32 * (q + 1)) (32 * (q + 1) + n) v bm2" by blast
      have e: "32 * q + min 32 (r + extent) = 32 * (q + 1)" "32 * (q + 1) + n = base + extent"
        "32 * q + r = base" using n qr by (simp_all add: algebra_simps)
      have c: "int (q + 1) = int q + 1" "int n = int r + int extent - 32"
        using n by linarith+
      have "set_bitmap bm (int base) (int extent) v = Some bm2"
        using nz m p t unfolding set_bitmap_def Let_def dm c by simp
      moreover have "range_set bm base (base + extent) v bm2"
        using range_set_trans [OF r1 [unfolded e(1,3)] r2 [unfolded e(2)]] n qr by simp
      ultimately show ?thesis by blast
    qed
  qed
qed

lemma range_any_split:
  "lo \<le> mid \<Longrightarrow> mid \<le> hi \<Longrightarrow> range_any bm lo hi \<longleftrightarrow> range_any bm lo mid \<or> range_any bm mid hi"
  unfolding range_any_def by (meson le_less_trans less_le_trans not_le order_trans)

lemma range_any_empty: "hi \<le> lo \<Longrightarrow> \<not> range_any bm lo hi"
  by (auto simp: range_any_def)

lemma getbit_in_word: "k < 32 \<Longrightarrow> getbit bm (32 * i + k) = bit (bm ! i) k"
  by (simp add: getbit_def)

lemma and_mask_nonzero:
  assumes "\<And>k. k < 32 \<Longrightarrow> bit m k \<longleftrightarrow> a \<le> k \<and> k < b" and "b \<le> 32"
  shows "bm ! i AND m \<noteq> 0 \<longleftrightarrow> range_any bm (32 * i + a) (32 * i + b)"
proof -
  have "bm ! i AND m \<noteq> 0 \<longleftrightarrow> (\<exists>k. k < 32 \<and> bit (bm ! i) k \<and> bit m k)"
    by (auto simp: bit_eq_iff bit_and_iff dest: bit_imp_le_length)
  also have "\<dots> \<longleftrightarrow> (\<exists>k. a \<le> k \<and> k < b \<and> bit (bm ! i) k)" using assms by (meson less_le_trans)
  also have "\<dots> \<longleftrightarrow> range_any bm (32 * i + a) (32 * i + b)"
  proof
    assume "\<exists>k. a \<le> k \<and> k < b \<and> bit (bm ! i) k"
    then obtain k where "a \<le> k" "k < b" "bit (bm ! i) k" by blast
    then have "getbit bm (32 * i + k)" using assms(2) by (simp add: getbit_in_word)
    then show "range_any bm (32 * i + a) (32 * i + b)"
      using \<open>a \<le> k\<close> \<open>k < b\<close> unfolding range_any_def by (intro exI [of _ "32 * i + k"]) simp
  next
    assume "range_any bm (32 * i + a) (32 * i + b)"
    then obtain j where j: "32 * i + a \<le> j" "j < 32 * i + b" "getbit bm j"
      by (auto simp: range_any_def)
    then have "getbit bm (32 * i + (j - 32 * i))" "a \<le> j - 32 * i" "j - 32 * i < b" by auto
    then show "\<exists>k. a \<le> k \<and> k < b \<and> bit (bm ! i) k"
      using assms(2) getbit_in_word [of "j - 32 * i" bm i] by auto
  qed
  finally show ?thesis .
qed

lemma word_nonzero: "bm ! i \<noteq> 0 \<longleftrightarrow> range_any bm (32 * i) (32 * (i + 1))"
  using and_mask_nonzero [of "- 1" 0 32 bm i] by (simp add: algebra_simps)

lemma check_words_spec:
  "32 * i + n \<le> 32 * length bm \<Longrightarrow>
   if range_any bm (32 * i) (32 * (i + n div 32))
   then \<exists>i' len'. check_words bm (int i) (int n) = Some (True, i', len')
   else check_words bm (int i) (int n) = Some (False, int (i + n div 32), int (n mod 32))"
proof (induction n arbitrary: i rule: less_induct)
  case (less n)
  show ?case
  proof (cases "32 \<le> n")
    case False
    then show ?thesis by (simp add: check_words.simps [of bm "int i" "int n"] range_any_empty)
  next
    case True
    then obtain m where m: "n = 32 + m" using le_Suc_ex by blast
    from True less.prems have i: "i < length bm" by simp
    have step: "check_words bm (int i) (int n) =
        (if bm ! i \<noteq> 0 then Some (True, int i, int n) else check_words bm (int (i + 1)) (int m))"
      using i unfolding m by (subst check_words.simps) (simp add: add.commute)
    have IH: "if range_any bm (32 * (i + 1)) (32 * (i + 1 + m div 32))
       then \<exists>i' len'. check_words bm (int (i + 1)) (int m) = Some (True, i', len')
       else check_words bm (int (i + 1)) (int m) = Some (False, int (i + 1 + m div 32), int (m mod 32))"
      using less.IH [of m "i + 1"] less.prems m by simp
    have d: "i + n div 32 = i + 1 + m div 32" "n mod 32 = m mod 32" using m by simp_all
    have "range_any bm (32 * i) (32 * (i + n div 32)) \<longleftrightarrow>
        bm ! i \<noteq> 0 \<or> range_any bm (32 * (i + 1)) (32 * (i + 1 + m div 32))"
      unfolding d word_nonzero by (rule range_any_split) simp_all
    with IH show ?thesis unfolding step d by auto
  qed
qed

lemma check_tail_spec:
  assumes "32 * i + n \<le> 32 * length bm"
  shows "check_tail bm (int i) (int n) = Some (range_any bm (32 * i) (32 * i + n))"
proof -
  let ?mid = "32 * (i + n div 32)"
  have e: "?mid + n mod 32 = 32 * i + n" by simp
  have sp: "range_any bm (32 * i) (32 * i + n) \<longleftrightarrow>
      range_any bm (32 * i) ?mid \<or> range_any bm ?mid (?mid + n mod 32)"
    unfolding e by (rule range_any_split) simp_all
  show ?thesis
  proof (cases "range_any bm (32 * i) ?mid")
    case True
    with check_words_spec [OF assms] show ?thesis unfolding check_tail_def sp by auto
  next
    case False
    then have c: "check_words bm (int i) (int n) = Some (False, int (i + n div 32), int (n mod 32))"
      using check_words_spec [OF assms] by simp
    show ?thesis
    proof (cases "n mod 32 = 0")
      case True
      with False c show ?thesis unfolding check_tail_def sp by (simp add: range_any_empty)
    next
      case nz: False
      have i': "i + n div 32 < length bm"
        using assms nz mult_div_mod_eq [of 32 n] by linarith
      have "bm ! (i + n div 32) AND mask (n mod 32) \<noteq> 0 \<longleftrightarrow> range_any bm (?mid + 0) (?mid + n mod 32)"
        by (rule and_mask_nonzero) (auto simp: bit_mask_iff)
      with c nz i' False show ?thesis
        unfolding check_tail_def sp by (simp add: ones_from_nat aget_def nat_add_distrib)
    qed
  qed
qed

lemma check_bitmap_spec:
  assumes "base + extent \<le> 32 * length bm"
  shows "check_bitmap bm (int base) (int extent) = Some (range_any bm base (base + extent))"
proof (cases "base mod 32 = 0")
  case True
  then have b: "32 * (base div 32) = base" by auto
  show ?thesis
    using check_tail_spec [of "base div 32" extent bm] assms True
    unfolding check_bitmap_def Let_def b int_div_mod32 by simp
next
  case False
  define q r where q: "q = base div 32" and r: "r = base mod 32"
  have qr: "32 * q + r = base" "r < 32" by (simp_all add: q r)
  note dm = int_div_mod32 [of base, folded q r]
  from False have nz: "r \<noteq> 0" by (simp add: r)
  obtain m where m: "first_mask (int r) (int r + int extent) = Some m"
    and mb: "\<forall>k < 32. bit m k \<longleftrightarrow> r \<le> k \<and> k < min 32 (r + extent)"
    using first_mask_spec [of r extent] qr(2) by auto
  have ql: "q < length bm" using assms qr nz by linarith
  have w: "bm ! q AND m \<noteq> 0 \<longleftrightarrow> range_any bm base (32 * q + min 32 (r + extent))"
    using and_mask_nonzero [of m r "min 32 (r + extent)" bm q] mb qr(1) by simp
  show ?thesis
  proof (cases "r + extent < 32")
    case small: True
    have "check_tail bm (int q + 1) (int r + int extent - 32) = Some False"
      using small unfolding check_tail_def by (subst check_words.simps) auto
    moreover have "32 * q + min 32 (r + extent) = base + extent" using small qr by simp
    ultimately show ?thesis using w nz m ql unfolding check_bitmap_def Let_def dm by simp
  next
    case big: False
    then obtain n where n: "r + extent = 32 + n" by (metis le_Suc_ex not_less)
    have e: "32 * q + min 32 (r + extent) = 32 * (q + 1)" "32 * (q + 1) + n = base + extent"
      using n qr by (simp_all add: algebra_simps)
    have c: "int r + int extent - 32 = int n" "int q + 1 = int (q + 1)" using n by linarith+
    have "check_tail bm (int (q + 1)) (int n) = Some (range_any bm (32 * (q + 1)) (base + extent))"
      using check_tail_spec [of "q + 1" n bm] assms unfolding e by simp
    moreover have "range_any bm base (base + extent) \<longleftrightarrow>
        range_any bm base (32 * (q + 1)) \<or> range_any bm (32 * (q + 1)) (base + extent)"
      by (rule range_any_split) (use qr n in auto)
    ultimately show ?thesis
      using w nz m ql unfolding check_bitmap_def Let_def dm c e by simp
  qed
qed

lemma set_bitmap_shorts:
  assumes "0 \<le> f" "0 \<le> n" "f + n \<le> 1024" "32 \<le> length bm"
  shows "\<exists>bm'. set_bitmap bm (s16 f) (s16 n) v = Some bm' \<and> range_set bm (nat f) (nat (f + n)) v bm'"
proof -
  have "nat f + nat n \<le> 32 * length bm" using assms by linarith
  from set_bitmap_spec [OF this, of v] assms show ?thesis
    by (simp add: s16_id nat_add_distrib)
qed

interpretation iomap: range_map
  "\<lambda>bm b e v. set_bitmap bm (int b) (int e) v" "\<lambda>bm b e. check_bitmap bm (int b) (int e)"
  getbit "\<lambda>bm. 32 * length bm"
proof unfold_locales
  fix base extent :: nat and m :: "32 word list" and v
  assume h: "base + extent \<le> 32 * length m"
  from set_bitmap_spec [OF h, of v]
  show "\<exists>m'. set_bitmap m (int base) (int extent) v = Some m' \<and> 32 * length m' = 32 * length m \<and>
      (\<forall>j < 32 * length m. getbit m' j = (if base \<le> j \<and> j < base + extent then v else getbit m j))"
    by (auto simp: range_set_def)
  from check_bitmap_spec [OF h]
  show "check_bitmap m (int base) (int extent)
      = Some (\<exists>j. base \<le> j \<and> j < base + extent \<and> getbit m j)"
    by (simp add: range_any_def)
qed

subsection \<open>The registrar of port regions\<close>

text \<open>The ports below 1024 that a request for \<open>num\<close> ports from \<open>from\<close> on is cut down to.\<close>

definition ports :: "int \<Rightarrow> int \<Rightarrow> nat \<times> nat" where
  "ports f n = (if f > 1024 then (0, 0) else (nat f, nat (min n (1024 - f))))"

lemma bitmap_empty: "set_bitmap bm 0 0 v = Some bm" "check_bitmap bm 0 0 = Some False"
  by (simp_all add: set_bitmap_def set_tail_def set_words.simps
      check_bitmap_def check_tail_def check_words.simps)

lemma ports_shorts:
  assumes "0 \<le> f" "0 \<le> n" "f + n < 4294967296" "ports f n = (b, e)" "\<not> f > 1024"
  shows "s16 f = int b" "s16 (if u32 (f + n) > 1024 then 1024 - f else n) = int e"
  using assms by (auto simp: ports_def s16_id u32_id min_def split: if_splits)

lemma region_as_range:
  assumes "0 \<le> f" "0 \<le> n" "f + n < 4294967296" "ports f n = (b, e)"
  shows "snarf_region r f n = set_bitmap r (int b) (int e) True"
    and "check_region r f n = check_bitmap r (int b) (int e)"
proof -
  show "snarf_region r f n = set_bitmap r (int b) (int e) True"
  proof (cases "f > 1024")
    case True
    with assms(4) show ?thesis by (simp add: ports_def snarf_region_def IO_BITMAP_SIZE_def bitmap_empty)
  next
    case False
    with ports_shorts [OF assms] show ?thesis
      by (auto simp: snarf_region_def IO_BITMAP_SIZE_def split: if_splits)
  qed
  show "check_region r f n = check_bitmap r (int b) (int e)"
  proof (cases "f > 1024")
    case True
    with assms(4) show ?thesis by (simp add: ports_def check_region_def IO_BITMAP_SIZE_def bitmap_empty)
  next
    case False
    with ports_shorts [OF assms] show ?thesis
      by (auto simp: check_region_def IO_BITMAP_SIZE_def split: if_splits)
  qed
qed

lemma ports_bounds: "0 \<le> f \<Longrightarrow> 0 \<le> n \<Longrightarrow> ports f n = (b, e) \<Longrightarrow> b + e \<le> 1024"
  by (auto simp: ports_def split: if_splits)

lemma ports_mem:
  "0 \<le> f \<Longrightarrow> 0 \<le> n \<Longrightarrow> ports f n = (b, e) \<Longrightarrow>
   b \<le> j \<and> j < b + e \<longleftrightarrow> f \<le> int j \<and> int j < f + n \<and> j < 1024"
  by (auto simp: ports_def split: if_splits)

section \<open>Properties\<close>

text \<open>
  \<open>set_bitmap\<close> writes exactly the \<open>extent\<close> bits from \<open>base\<close> on. For every range inside the
  bitmap the word-wise routine (partial first word, whole words, partial last word) returns
  without leaving the array, sets every bit of the range to the new value and keeps every
  other bit.
\<close>

theorem set_bitmap_writes_exact_range:
  assumes "base + extent \<le> 32 * length bm"
  shows "\<exists>bm'. set_bitmap bm (int base) (int extent) v = Some bm'
     \<and> range_set bm base (base + extent) v bm'"
  by (rule set_bitmap_spec [OF assms])

theorem set_bitmap_writes_exact_range_witness:
  "30 + 5 \<le> 32 * length [0, 0 :: 32 word] \<and>
   (\<exists>bm'. set_bitmap [0, 0] (int 30) (int 5) True = Some bm' \<and> range_set [0, 0] 30 (30 + 5) True bm')"
  using set_bitmap_writes_exact_range [of 30 5 "[0, 0]" True] by simp

text \<open>
  C13: \<open>sys_ioperm\<close> changes the permission of exactly the requested ports and only for the
  super-user. It refuses an empty range, a range whose end wraps around and a range beyond
  port 1023 with \<open>EINVAL\<close>, everyone but the super-user with \<open>EPERM\<close>, and never leaves the bitmap.
\<close>

theorem sys_ioperm_grants_exact_range:
  assumes "0 \<le> from" "from < 4294967296" "0 \<le> num" "num < 4294967296"
    and "32 \<le> length bm"
  shows "case sys_ioperm cur bm from num turn_on of
     Ret bm' \<Rightarrow> suser cur \<and> 0 < num \<and> from + num \<le> 1024
        \<and> range_set bm (nat from) (nat (from + num)) (\<not> turn_on) bm'
   | Err e \<Rightarrow> (e = EINVAL \<and> (num = 0 \<or> from + num > 1024)) \<or> (e = EPERM \<and> \<not> suser cur)
   | Sleep q \<Rightarrow> False
   | Fault \<Rightarrow> False"
proof -
  have wrap: "u32 (from + num) = (if from + num < 4294967296 then from + num else from + num - 4294967296)"
    using assms by (intro u32_add) auto
  show ?thesis
  proof (cases "u32 (from + num) \<le> from \<or> u32 (from + num) > 1024")
    case True
    then show ?thesis using assms wrap by (auto simp: sys_ioperm_def IO_BITMAP_SIZE_def split: if_splits)
  next
    case False
    then have "from + num \<le> 1024" "0 < num" using wrap assms by (auto split: if_splits)
    then show ?thesis
      using False set_bitmap_shorts [of "from" num bm "\<not> turn_on"] assms
      by (auto simp: sys_ioperm_def IO_BITMAP_SIZE_def)
  qed
qed

theorem sys_ioperm_grants_exact_range_witness:
  "case sys_ioperm \<lparr>pid = 1, euid = 0, egid = 0, groups = [], signal = 0, blocked = 0\<rparr>
       (replicate 33 0) 0x378 3 False of
     Ret bm' \<Rightarrow> range_set (replicate 33 0) 0x378 0x37b True bm'
   | Err e \<Rightarrow> False | Sleep q \<Rightarrow> False | Fault \<Rightarrow> False"
  using sys_ioperm_grants_exact_range
    [of "0x378" 3 "replicate 33 0" "\<lparr>pid = 1, euid = 0, egid = 0, groups = [], signal = 0, blocked = 0\<rparr>" False]
  by (auto simp: suser_def split: outcome.splits)



end
