(* ===== verification/Locks.thy ===== *)
theory Locks
  imports KPrelude
begin

text \<open>
  fs/locks.c: advisory record locks of regular files (\<open>F_GETLK\<close>, \<open>F_SETLK\<close>, \<open>F_SETLKW\<close>).

  A lock is an entry of the static table \<open>file_lock_table\<close>, named by its index. The list an inode
  keeps in \<open>i_flock\<close> and the free list, chained by \<open>fl_next\<close> in the source, are lists of pairs of
  an entry's index and its contents, so that the pointers \<open>caller\<close>, \<open>left\<close> and \<open>right\<close> of
  \<open>lock_it\<close> are indices and an entry keeps its identity while it is changed, freed and reused.
  The pointer \<open>before\<close> is the position between the part of the list already passed and the rest.
  A task is named by its pid. \<open>panic\<close> is \<open>None\<close>.
\<close>

section \<open>Model\<close>

definition OFFSET_MAX :: int where "OFFSET_MAX = 0x7fffffff"
definition NR_FILE_LOCKS :: nat where "NR_FILE_LOCKS = 64"
definition NR_OPEN :: int where "NR_OPEN = 256"

abbreviation (input) F_RDLCK :: int where "F_RDLCK \<equiv> 0"
abbreviation (input) F_WRLCK :: int where "F_WRLCK \<equiv> 1"
abbreviation (input) F_UNLCK :: int where "F_UNLCK \<equiv> 2"
abbreviation (input) F_EXLCK :: int where "F_EXLCK \<equiv> 4"
abbreviation (input) F_SHLCK :: int where "F_SHLCK \<equiv> 8"

abbreviation (input) F_SETLK :: int where "F_SETLK \<equiv> 6"
abbreviation (input) F_SETLKW :: int where "F_SETLKW \<equiv> 7"

record file_lock =
  fl_owner :: "int option"
  fl_fd :: int
  fl_wait :: "int list"
  fl_type :: int
  fl_whence :: int
  fl_start :: int
  fl_end :: int

type_synonym node = "nat \<times> file_lock"

record flock =
  l_type :: int
  l_whence :: int
  l_start :: int
  l_len :: int
  l_pid :: int

text \<open>What the lock code reads of an open file and its inode; \<open>f_inode\<close> is \<open>None\<close> for NULL.\<close>

record linode =
  i_mode :: "16 word"
  i_size :: int

record lfile =
  f_mode :: "16 word"
  f_pos :: int
  f_inode :: "linode option"

definition S_ISREG :: "16 word \<Rightarrow> bool" where
  "S_ISREG m \<longleftrightarrow> m AND 0xF000 = 0x8000"

text \<open>\<open>fcntl_init_locks\<close>: every entry on the free list, in table order, without an owner.\<close>

definition fcntl_init_locks :: "(nat \<Rightarrow> file_lock) \<Rightarrow> node list" where
  "fcntl_init_locks table =
     map (\<lambda>i. (i, (table i)\<lparr>fl_owner := None\<rparr>)) [0..<NR_FILE_LOCKS]"

definition overlap :: "file_lock \<Rightarrow> file_lock \<Rightarrow> bool" where
  "overlap fl1 fl2 \<longleftrightarrow> fl_end fl1 \<ge> fl_start fl2 \<and> fl_end fl2 \<ge> fl_start fl1"

definition conflict :: "file_lock \<Rightarrow> file_lock \<Rightarrow> bool" where
  "conflict caller_fl sys_fl =
     (if fl_owner caller_fl = fl_owner sys_fl \<and> fl_fd caller_fl = fl_fd sys_fl then False
      else if \<not> overlap caller_fl sys_fl then False
      else if fl_type caller_fl = F_RDLCK then fl_type sys_fl \<noteq> F_RDLCK
      else if fl_type caller_fl = F_WRLCK then True
      else False)"

definition copy_flock :: "task \<Rightarrow> lfile \<Rightarrow> flock \<Rightarrow> int \<Rightarrow> file_lock option" where
  "copy_flock cur filp l fd =
     (case f_inode filp of
        None \<Rightarrow> None
      | Some inode \<Rightarrow>
          if \<not> S_ISREG (i_mode inode) then None
          else if l_type l \<noteq> F_UNLCK \<and> l_type l \<noteq> F_RDLCK \<and> l_type l \<noteq> F_WRLCK
             \<and> l_type l \<noteq> F_SHLCK \<and> l_type l \<noteq> F_EXLCK then None
          else (case (if l_whence l = 0 then Some 0
                      else if l_whence l = 1 then Some (f_pos filp)
                      else if l_whence l = 2 then Some (i_size inode)
                      else None) of
                  None \<Rightarrow> None
                | Some base \<Rightarrow>
                    let start = s32 (base + l_start l)
                    in if start < 0 \<or> l_len l < 0 then None
                       else Some \<lparr>fl_owner = Some (pid cur), fl_fd = fd, fl_wait = [],
                              fl_type = l_type l, fl_whence = 0, fl_start = start,
                              fl_end = (if l_len l = 0 \<or> s32 (start + l_len l - 1) < 0
                                        then OFFSET_MAX else s32 (start + l_len l - 1))\<rparr>))"

text \<open>\<open>alloc_lock\<close> takes the first free entry and fills it from \<open>fl\<close>; the caller puts it in place.\<close>

fun alloc_lock :: "task \<Rightarrow> file_lock \<Rightarrow> int \<Rightarrow> node list \<Rightarrow> (node option \<times> node list) option" where
  "alloc_lock cur fl fd [] = Some (None, [])"
| "alloc_lock cur fl fd ((i, tmp) # free) =
     (if fl_owner tmp \<noteq> None then None
      else Some (Some (i, fl\<lparr>fl_owner := Some (pid cur), fl_fd := fd, fl_wait := []\<rparr>), free))"

text \<open>\<open>free_lock\<close> on an entry already unlinked: back to the free list, and its waiters are woken.\<close>

definition free_lock :: "node \<Rightarrow> node list \<Rightarrow> (node list \<times> int list) option" where
  "free_lock n free =
     (if fl_owner (snd n) = None then None
      else Some ((fst n, (snd n)\<lparr>fl_owner := None\<rparr>) # free, fl_wait (snd n)))"

definition upd_node :: "nat \<Rightarrow> (file_lock \<Rightarrow> file_lock) \<Rightarrow> node list \<Rightarrow> node list" where
  "upd_node i f xs = map (\<lambda>(j, fl). if j = i then (j, f fl) else (j, fl)) xs"

text \<open>
  The local state of \<open>lock_it\<close>: the entries before \<open>*before\<close>, the lock \<open>caller\<close> points to and,
  once \<open>caller\<close> points into the list, its index, the pointers \<open>left\<close> and \<open>right\<close>, the flag
  \<open>added\<close>, the free list and the tasks woken so far.
\<close>

record scan =
  s_done :: "node list"
  s_caller :: file_lock
  s_cref :: "nat option"
  s_left :: "nat option"
  s_right :: "nat option"
  s_added :: bool
  s_free :: "node list"
  s_woken :: "int list"

text \<open>\<open>before = &(*before)->fl_next\<close>.\<close>

definition next_lock :: "node \<Rightarrow> scan \<Rightarrow> scan" where
  "next_lock n sc = sc\<lparr>s_done := s_done sc @ [n]\<rparr>"

text \<open>A store through \<open>caller\<close>: it changes the entry of the list \<open>caller\<close> points to, if any.\<close>

definition put_caller :: "file_lock \<Rightarrow> scan \<Rightarrow> scan" where
  "put_caller c sc = sc\<lparr>s_caller := c,
     s_done := (case s_cref sc of None \<Rightarrow> s_done sc | Some i \<Rightarrow> upd_node i (\<lambda>_. c) (s_done sc))\<rparr>"

text \<open>\<open>free_lock(before)\<close>.\<close>

definition scan_free :: "node \<Rightarrow> scan \<Rightarrow> scan option" where
  "scan_free n sc =
     (case free_lock n (s_free sc) of
        None \<Rightarrow> None
      | Some (free, woken) \<Rightarrow> Some (sc\<lparr>s_free := free, s_woken := s_woken sc @ woken\<rparr>))"

text \<open>
  The second loop of \<open>lock_it\<close>, over the locks of the caller's owner and descriptor: its body ends
  the loop, or goes on to the next entry, having kept or freed the current one.
\<close>

datatype step = Break scan | Continue scan

definition lock_step :: "scan \<Rightarrow> nat \<Rightarrow> file_lock \<Rightarrow> step option" where
  "lock_step sc i fl =
     (let c = s_caller sc
      in if \<not> (fl_owner c = fl_owner fl \<and> fl_fd c = fl_fd fl) then Some (Break sc)
         else if fl_type c = fl_type fl
         then (if fl_end fl < s32 (fl_start c - 1) then Some (Continue (next_lock (i, fl) sc))
               else if fl_start fl > s32 (fl_end c + 1) then Some (Break sc)
               else (let (fl1, c1) =
                           (if fl_start fl > fl_start c then (fl\<lparr>fl_start := fl_start c\<rparr>, c)
                            else (fl, c\<lparr>fl_start := fl_start fl\<rparr>));
                         (fl2, c2) =
                           (if fl_end fl1 < fl_end c1 then (fl1\<lparr>fl_end := fl_end c1\<rparr>, c1)
                            else (fl1, c1\<lparr>fl_end := fl_end fl1\<rparr>))
                     in if s_added sc
                        then map_option Continue (scan_free (i, fl2) (put_caller c2 sc))
                        else Some (Continue (next_lock (i, fl2)
                               (sc\<lparr>s_caller := fl2, s_cref := Some i, s_added := True\<rparr>)))))
         else if fl_end fl < fl_start c then Some (Continue (next_lock (i, fl) sc))
         else if fl_start fl > fl_end c then Some (Break sc)
         else (let sc1 = sc\<lparr>s_added := (if fl_type c = F_UNLCK then True else s_added sc),
                         s_left := (if fl_start fl < fl_start c then Some i else s_left sc)\<rparr>
               in if fl_end fl > fl_end c then Some (Break (sc1\<lparr>s_right := Some i\<rparr>))
                  else if fl_start fl \<ge> fl_start c
                  then (if s_added sc1 then map_option Continue (scan_free (i, fl) sc1)
                        else (let fl' = fl\<lparr>fl_start := fl_start c, fl_end := fl_end c, fl_type := fl_type c\<rparr>
                              in Some (Continue (next_lock (i, fl')
                                   (sc1\<lparr>s_caller := fl', s_cref := Some i, s_added := True,
                                      s_woken := s_woken sc1 @ fl_wait fl\<rparr>)))))
                  else Some (Continue (next_lock (i, fl) sc1))))"

fun lock_scan :: "scan \<Rightarrow> node list \<Rightarrow> (scan \<times> node list) option" where
  "lock_scan sc [] = Some (sc, [])"
| "lock_scan sc ((i, fl) # rest) =
     (case lock_step sc i fl of
        None \<Rightarrow> None
      | Some (Break sc') \<Rightarrow> Some (sc', (i, fl) # rest)
      | Some (Continue sc') \<Rightarrow> lock_scan sc' rest)"

record lock_result =
  r_error :: "errno option"
  r_locks :: "node list"
  r_free :: "node list"
  r_woken :: "int list"

text \<open>
  The end of \<open>lock_it\<close>: \<open>mid\<close> is the entry just allocated for the caller, if any. The locks \<open>left\<close>
  and \<open>right\<close> are cut back to what the caller leaves of them; when they are the same lock, it is
  first doubled.
\<close>

definition cut_left :: "scan \<Rightarrow> nat option \<Rightarrow> node list \<Rightarrow> node list" where
  "cut_left sc left xs =
     (case left of
        None \<Rightarrow> xs
      | Some l \<Rightarrow> upd_node l (\<lambda>fl. fl\<lparr>fl_end := s32 (fl_start (s_caller sc) - 1)\<rparr>) xs)"

definition cut_right :: "scan \<Rightarrow> nat \<Rightarrow> node list \<Rightarrow> node list" where
  "cut_right sc r xs = upd_node r (\<lambda>fl. fl\<lparr>fl_start := s32 (fl_end (s_caller sc) + 1)\<rparr>) xs"

definition lock_finish ::
  "task \<Rightarrow> int \<Rightarrow> scan \<Rightarrow> node list \<Rightarrow> node list \<Rightarrow> node list \<Rightarrow> lock_result option" where
  "lock_finish cur fd sc mid rest free =
     (case s_right sc of
        None \<Rightarrow> Some \<lparr>r_error = None, r_locks = cut_left sc (s_left sc) (s_done sc @ mid @ rest),
                  r_free = free, r_woken = s_woken sc\<rparr>
      | Some r \<Rightarrow>
          if s_left sc = Some r
          then (case alloc_lock cur (the (map_of rest r)) fd free of
                  None \<Rightarrow> None
                | Some (None, free') \<Rightarrow>
                    (case mid of
                       [] \<Rightarrow> Some \<lparr>r_error = Some ENOLCK, r_locks = s_done sc @ rest,
                               r_free = free', r_woken = s_woken sc\<rparr>
                     | n # _ \<Rightarrow>
                         map_option (\<lambda>(free'', woken).
                             \<lparr>r_error = Some ENOLCK, r_locks = s_done sc @ rest, r_free = free'',
                              r_woken = s_woken sc @ woken\<rparr>) (free_lock n free'))
                | Some (Some l, free') \<Rightarrow>
                    Some \<lparr>r_error = None,
                      r_locks = cut_left sc (Some (fst l))
                                  (cut_right sc r (s_done sc @ l # mid @ rest)),
                      r_free = free', r_woken = s_woken sc\<rparr>)
          else Some \<lparr>r_error = None,
                 r_locks = cut_left sc (s_left sc) (cut_right sc r (s_done sc @ mid @ rest)),
                 r_free = free, r_woken = s_woken sc\<rparr>)"

definition lock_it :: "task \<Rightarrow> int \<Rightarrow> file_lock \<Rightarrow> node list \<Rightarrow> node list \<Rightarrow> lock_result option" where
  "lock_it cur fd caller locks free =
     (let other = (\<lambda>(i, fl). fl_owner caller \<noteq> fl_owner fl \<or> fl_fd caller \<noteq> fl_fd fl)
      in case lock_scan \<lparr>s_done = takeWhile other locks, s_caller = caller, s_cref = None,
             s_left = None, s_right = None, s_added = False, s_free = free, s_woken = []\<rparr>
             (dropWhile other locks) of
           None \<Rightarrow> None
         | Some (sc, rest) \<Rightarrow>
             if s_added sc then lock_finish cur fd sc [] rest (s_free sc)
             else if fl_type (s_caller sc) = F_UNLCK
             then Some \<lparr>r_error = Some EINVAL, r_locks = s_done sc @ rest, r_free = s_free sc,
                    r_woken = s_woken sc\<rparr>
             else (case alloc_lock cur (s_caller sc) fd (s_free sc) of
                     None \<Rightarrow> None
                   | Some (None, free') \<Rightarrow>
                       Some \<lparr>r_error = Some ENOLCK, r_locks = s_done sc @ rest, r_free = free',
                         r_woken = s_woken sc\<rparr>
                   | Some (Some n, free') \<Rightarrow> lock_finish cur fd sc [n] rest free'))"

text \<open>
  \<open>fcntl_getlk\<close>. \<open>filp\<close> is \<open>current->filp[fd]\<close>, \<open>verify\<close> the answer of \<open>verify_area\<close> for the user's
  buffer and \<open>l\<close> what was read from it; the result is what is written back.
\<close>

definition fcntl_getlk ::
  "task \<Rightarrow> int \<Rightarrow> lfile option \<Rightarrow> errno option \<Rightarrow> flock \<Rightarrow> node list \<Rightarrow> (unit, flock) outcome" where
  "fcntl_getlk cur fd filp verify l locks =
     (if fd \<ge> NR_OPEN then Err EBADF
      else case filp of
        None \<Rightarrow> Err EBADF
      | Some f \<Rightarrow>
          (case verify of
             Some e \<Rightarrow> Err e
           | None \<Rightarrow>
               if l_type l = F_UNLCK then Err EINVAL
               else (case copy_flock cur f l fd of
                       None \<Rightarrow> Err EINVAL
                     | Some file_lock \<Rightarrow>
                         (case List.find (\<lambda>(i, fl). conflict file_lock fl) locks of
                            Some (i, fl) \<Rightarrow>
                              Ret \<lparr>l_type = fl_type fl, l_whence = fl_whence fl, l_start = fl_start fl,
                                l_len = (if fl_end fl = OFFSET_MAX then 0
                                         else s32 (fl_end fl - fl_start fl + 1)),
                                l_pid = the (fl_owner fl)\<rparr>
                          | None \<Rightarrow> Ret (l\<lparr>l_type := F_UNLCK\<rparr>)))))"

text \<open>
  \<open>fcntl_setlk\<close> up to its first sleep. The mode checks turn \<open>F_SHLCK\<close> and \<open>F_EXLCK\<close> into the two
  lock types the table holds.
\<close>

definition setlk_mode :: "lfile \<Rightarrow> file_lock \<Rightarrow> errno + file_lock" where
  "setlk_mode filp fl =
     (if fl_type fl = F_RDLCK then (if f_mode filp AND 1 = 0 then Inl EBADF else Inr fl)
      else if fl_type fl = F_WRLCK then (if f_mode filp AND 2 = 0 then Inl EBADF else Inr fl)
      else if fl_type fl = F_SHLCK
      then (if f_mode filp AND 3 = 0 then Inl EBADF else Inr (fl\<lparr>fl_type := F_RDLCK\<rparr>))
      else if fl_type fl = F_EXLCK
      then (if f_mode filp AND 3 = 0 then Inl EBADF else Inr (fl\<lparr>fl_type := F_WRLCK\<rparr>))
      else Inr fl)"

text \<open>
  From the label \<open>repeat\<close> on: scan for a conflict, then lock. The outcome \<open>Sleep i\<close> is a sleep on
  the wait queue of entry \<open>i\<close>; when the task runs again it goes back to \<open>repeat\<close> if no signal is
  pending, with \<open>setlk_resume\<close>.
\<close>

definition setlk_repeat ::
  "task \<Rightarrow> int \<Rightarrow> int \<Rightarrow> file_lock \<Rightarrow> node list \<Rightarrow> node list \<Rightarrow> (nat, lock_result) outcome" where
  "setlk_repeat cur fd cmd fl locks free =
     (case (if fl_type fl \<noteq> F_UNLCK then List.find (\<lambda>(i, sys_fl). conflict fl sys_fl) locks
            else None) of
        Some (i, sys_fl) \<Rightarrow>
          if cmd = F_SETLKW
          then (if signal_pending cur then Err ERESTARTSYS else Sleep i)
          else Err EAGAIN
      | None \<Rightarrow>
          (case lock_it cur fd fl locks free of
             None \<Rightarrow> Fault
           | Some r \<Rightarrow> Ret r))"

definition setlk_resume ::
  "task \<Rightarrow> int \<Rightarrow> int \<Rightarrow> file_lock \<Rightarrow> node list \<Rightarrow> node list \<Rightarrow> (nat, lock_result) outcome" where
  "setlk_resume cur fd cmd fl locks free =
     (if signal_pending cur then Err ERESTARTSYS else setlk_repeat cur fd cmd fl locks free)"

definition fcntl_setlk ::
  "task \<Rightarrow> int \<Rightarrow> int \<Rightarrow> lfile option \<Rightarrow> errno option \<Rightarrow> flock \<Rightarrow> node list \<Rightarrow> node list \<Rightarrow>
   (nat, lock_result) outcome" where
  "fcntl_setlk cur fd cmd filp verify l locks free =
     (if fd \<ge> NR_OPEN then Err EBADF
      else case filp of
        None \<Rightarrow> Err EBADF
      | Some f \<Rightarrow>
          (case verify of
             Some e \<Rightarrow> Err e
           | None \<Rightarrow>
               (case copy_flock cur f l fd of
                  None \<Rightarrow> Err EINVAL
                | Some file_lock \<Rightarrow>
                    (case setlk_mode f file_lock of
                       Inl e \<Rightarrow> Err e
                     | Inr fl \<Rightarrow> setlk_repeat cur fd cmd fl locks free))))"

text \<open>\<open>fcntl_remove_locks\<close>: free the run of locks of \<open>task\<close> and \<open>fd\<close>, when the file is closed.\<close>

fun free_run :: "int option \<Rightarrow> int \<Rightarrow> node list \<Rightarrow> node list \<Rightarrow> int list \<Rightarrow>
    (node list \<times> node list \<times> int list) option" where
  "free_run owner fd [] free woken = Some ([], free, woken)"
| "free_run owner fd ((i, fl) # rest) free woken =
     (if owner = fl_owner fl \<and> fd = fl_fd fl
      then (case free_lock (i, fl) free of
              None \<Rightarrow> None
            | Some (free', w) \<Rightarrow> free_run owner fd rest free' (woken @ w))
      else Some ((i, fl) # rest, free, woken))"

definition fcntl_remove_locks ::
  "int \<Rightarrow> int \<Rightarrow> node list \<Rightarrow> node list \<Rightarrow> (node list \<times> node list \<times> int list) option" where
  "fcntl_remove_locks tsk fd locks free =
     (let other = (\<lambda>(i, fl). Some tsk \<noteq> fl_owner fl \<or> fd \<noteq> fl_fd fl)
      in map_option (\<lambda>(rest, free', woken). (takeWhile other locks @ rest, free', woken))
           (free_run (Some tsk) fd (dropWhile other locks) free []))"

end
