(* ===== verification/Locks_Scan.thy ===== *)
theory Locks_Scan
  imports Locks "HOL-Library.Multiset"
begin

text \<open>
  The scan of \<open>lock_it\<close>: what a list of locks covers, the invariant of the loop over the caller's
  own locks, and the end of the call, where the locks at both edges of the range are cut back. Each
  branch of the loop body has one lemma for its equation and one for the invariant.
\<close>

section \<open>Coverage of offsets by a list of locks\<close>

definition in_lock :: "file_lock \<Rightarrow> int \<Rightarrow> bool" where
  "in_lock fl x \<longleftrightarrow> fl_start fl \<le> x \<and> x \<le> fl_end fl"

definition ok_lock :: "file_lock \<Rightarrow> bool" where
  "ok_lock fl \<longleftrightarrow> 0 \<le> fl_start fl \<and> fl_start fl \<le> fl_end fl \<and> fl_end fl \<le> OFFSET_MAX"

definition sep :: "file_lock list \<Rightarrow> bool" where
  "sep fs \<longleftrightarrow> sorted_wrt (\<lambda>a b. fl_end a < fl_start b) fs \<and> (\<forall>f \<in> set fs. ok_lock f)"

fun cov :: "file_lock list \<Rightarrow> int \<Rightarrow> int option" where
  "cov [] x = None"
| "cov (f # fs) x = (if in_lock f x then Some (fl_type f) else cov fs x)"

definition granted :: "int \<Rightarrow> int option" where
  "granted t = (if t = F_UNLCK then None else Some t)"

lemma cov_append: "cov (fs @ gs) x = (case cov fs x of None \<Rightarrow> cov gs x | Some t \<Rightarrow> Some t)"
  by (induction fs) auto

lemma cov_None: "cov fs x = None \<longleftrightarrow> (\<forall>f \<in> set fs. \<not> in_lock f x)"
  by (induction fs) auto

lemma cov_NoneI: "(\<And>f. f \<in> set fs \<Longrightarrow> \<not> in_lock f x) \<Longrightarrow> cov fs x = None"
  by (simp add: cov_None)

lemma cov_drop: "\<not> in_lock f x \<Longrightarrow> cov (fs @ f # gs) x = cov (fs @ gs) x"
  by (simp add: cov_append split: option.split)

lemma sep_append:
  "sep (fs @ gs) \<longleftrightarrow> sep fs \<and> sep gs \<and> (\<forall>f \<in> set fs. \<forall>g \<in> set gs. fl_end f < fl_start g)"
  by (auto simp: sep_def sorted_wrt_append)

lemma sep_Cons: "sep (f # gs) \<longleftrightarrow> ok_lock f \<and> sep gs \<and> (\<forall>g \<in> set gs. fl_end f < fl_start g)"
  by (auto simp: sep_def)

lemma sep_Nil [simp]: "sep []" by (simp add: sep_def)

lemma sep_ok: "sep fs \<Longrightarrow> f \<in> set fs \<Longrightarrow> ok_lock f" by (simp add: sep_def)

text \<open>A lock is the only one of its list at the offsets it covers.\<close>

lemma cov_mem:
  assumes "sep (fs @ f # gs)" and "in_lock f x"
  shows "cov (fs @ f # gs) x = Some (fl_type f)"
proof -
  have "cov fs x = None"
    using assms by (intro cov_NoneI) (auto simp: sep_append in_lock_def)
  with assms(2) show ?thesis by (simp add: cov_append)
qed

text \<open>
  The shape every successful call leaves: locks below the caller's range, the caller, locks above.
\<close>

lemma cov_between:
  assumes "\<forall>f \<in> set Dl. fl_end f < fl_start c" and "\<forall>f \<in> set Rl. fl_end c < fl_start f"
    and "mid = (if t = F_UNLCK then [] else [c'])"
    and "fl_start c' = fl_start c" "fl_end c' = fl_end c" "fl_type c' = t"
  shows "cov (Dl @ mid @ Rl) x = (if in_lock c x then granted t else cov (Dl @ Rl) x)"
proof (cases "in_lock c x")
  case True
  have "cov Dl x = None" "cov Rl x = None"
    using True assms(1,2) by (auto intro!: cov_NoneI simp: in_lock_def)
  with True assms(3-6) show ?thesis by (simp add: cov_append granted_def in_lock_def)
next
  case False
  with assms(3-5) show ?thesis by (auto simp: cov_append in_lock_def split: option.split)
qed

lemma sep_between:
  assumes "\<forall>f \<in> set Dl. fl_end f < fl_start c" and "\<forall>f \<in> set Rl. fl_end c < fl_start f"
    and "mid = (if t = F_UNLCK then [] else [c'])"
    and "fl_start c' = fl_start c" "fl_end c' = fl_end c" and "ok_lock c" "sep Dl" "sep Rl"
  shows "sep (Dl @ mid @ Rl)"
  using assms by (force simp: sep_append sep_Cons ok_lock_def)

section \<open>Changing an entry of a list\<close>

lemma upd_node_append [simp]: "upd_node i f (xs @ ys) = upd_node i f xs @ upd_node i f ys"
  by (simp add: upd_node_def)

lemma upd_node_Nil [simp]: "upd_node i f [] = []"
  by (simp add: upd_node_def)

lemma upd_node_Cons [simp]:
  "upd_node i f ((j, g) # xs) = (if j = i then (j, f g) else (j, g)) # upd_node i f xs"
  by (simp add: upd_node_def)

lemma upd_node_notin [simp]: "i \<notin> fst ` set xs \<Longrightarrow> upd_node i f xs = xs"
  by (induction xs) auto

lemma fst_upd_node [simp]: "map fst (upd_node i f xs) = map fst xs"
  by (induction xs) auto

section \<open>The scan of the owner's locks\<close>

definition cnode :: "scan \<Rightarrow> node list" where
  "cnode sc = (case s_cref sc of None \<Rightarrow> [] | Some i \<Rightarrow> [(i, s_caller sc)])"

definition key :: "node \<Rightarrow> int option \<times> int" where
  "key n = (fl_owner (snd n), fl_fd (snd n))"

text \<open>
  \<open>D\<close> are the owner's locks passed so far, \<open>R\<close> those to come, \<open>want\<close> the coverage the call must
  end with: that of the caller's range, which grows while locks are merged into it, over \<open>D @ R\<close>.
\<close>

definition scan_base :: "node list \<Rightarrow> int option \<times> int \<Rightarrow> int \<Rightarrow> scan \<Rightarrow> node list \<Rightarrow> node list \<Rightarrow> bool" where
  "scan_base pre k t sc D R \<longleftrightarrow>
     s_done sc = pre @ D @ cnode sc \<and>
     (fl_owner (s_caller sc), fl_fd (s_caller sc)) = k \<and> fl_type (s_caller sc) = t \<and> ok_lock (s_caller sc) \<and>
     (\<forall>n \<in> set D \<union> set R. key n = k \<and> fl_type (snd n) \<in> {F_RDLCK, F_WRLCK}) \<and>
     (s_cref sc = None \<longleftrightarrow> \<not> s_added sc \<or> t = F_UNLCK) \<and>
     (s_added sc \<and> t \<noteq> F_UNLCK \<longrightarrow> (\<forall>n \<in> set R. fl_start (s_caller sc) < fl_start (snd n))) \<and>
     (t \<noteq> F_UNLCK \<longrightarrow> fl_end (s_caller sc) < OFFSET_MAX \<or> R = [])"

definition scan_inv ::
  "node list \<Rightarrow> node list \<Rightarrow> int option \<times> int \<Rightarrow> int \<Rightarrow> (int \<Rightarrow> int option) \<Rightarrow> scan \<Rightarrow> node list \<Rightarrow> node list \<Rightarrow> bool"
where
  "scan_inv pre P k t want sc D R \<longleftrightarrow>
     scan_base pre k t sc D R \<and> sep (map snd (D @ R)) \<and>
     distinct (map fst (pre @ D @ cnode sc @ R @ P @ s_free sc)) \<and>
     (\<forall>x. want x = (if in_lock (s_caller sc) x then granted t else cov (map snd (D @ R)) x))"

definition left_inv :: "scan \<Rightarrow> node list \<Rightarrow> bool" where
  "left_inv sc D \<longleftrightarrow>
     (case s_left sc of
        None \<Rightarrow> \<forall>n \<in> set D. fl_end (snd n) < fl_start (s_caller sc)
      | Some l \<Rightarrow> \<exists>D' f. D = D' @ [(l, f)] \<and> (\<forall>n \<in> set D'. fl_end (snd n) < fl_start (s_caller sc))
          \<and> fl_start f < fl_start (s_caller sc) \<and> fl_start (s_caller sc) \<le> fl_end f
          \<and> fl_end f \<le> fl_end (s_caller sc))"

lemma cnode_cong: "s_cref a = s_cref b \<Longrightarrow> s_caller a = s_caller b \<Longrightarrow> cnode a = cnode b"
  by (simp add: cnode_def split: option.split)

lemma left_inv_cong:
  "left_inv a D \<Longrightarrow> s_left b = s_left a \<Longrightarrow> fl_start (s_caller b) = fl_start (s_caller a) \<Longrightarrow>
   fl_end (s_caller b) = fl_end (s_caller a) \<Longrightarrow> left_inv b D"
  by (simp add: left_inv_def split: option.splits)

lemmas scan_defs = next_lock_def put_caller_def scan_free_def free_lock_def cnode_def key_def

lemma left_excludes:
  assumes "left_inv sc D" "s_left sc = Some l" "sep (map snd (D @ R))" "n \<in> set R"
  shows "fl_start (s_caller sc) < fl_start (snd n)"
  using assms by (force simp: left_inv_def sep_append)

lemma inv_base: "scan_inv pre P k t want sc D R \<Longrightarrow> scan_base pre k t sc D R"
  by (simp add: scan_inv_def)

lemma scan_invI:
  "scan_base pre k t sc D R \<Longrightarrow> sep (map snd (D @ R)) \<Longrightarrow>
   distinct (map fst (pre @ D @ cnode sc @ R @ P @ s_free sc)) \<Longrightarrow>
   (\<And>x. want x = (if in_lock (s_caller sc) x then granted t else cov (map snd (D @ R)) x)) \<Longrightarrow>
   scan_inv pre P k t want sc D R"
  by (simp add: scan_inv_def)

lemma inv_sep: "scan_inv pre P k t want sc D R \<Longrightarrow> sep (map snd (D @ R))"
  by (simp add: scan_inv_def)

lemma inv_want:
  "scan_inv pre P k t want sc D R \<Longrightarrow>
   want x = (if in_lock (s_caller sc) x then granted t else cov (map snd (D @ R)) x)"
  by (simp add: scan_inv_def)

lemma inv_distinct:
  "scan_inv pre P k t want sc D R \<Longrightarrow> distinct (map fst (pre @ D @ cnode sc @ R @ P @ s_free sc))"
  by (simp add: scan_inv_def)

lemma inv_head_ok: "scan_inv pre P k t want sc D ((i, fl) # R) \<Longrightarrow> ok_lock fl"
  by (auto dest: inv_sep simp: sep_append sep_Cons)

lemma inv_cref_None:
  assumes "scan_inv pre P k t want sc D ((i, fl) # R)" "fl_start fl \<le> fl_start (s_caller sc)"
  shows "s_cref sc = None"
  using inv_base [OF assms(1)] assms(2) by (auto simp: scan_base_def)

lemma inv_left_None:
  assumes "scan_inv pre P k t want sc D ((i, fl) # R)" "left_inv sc D"
    and "fl_start fl \<le> fl_start (s_caller sc)"
  shows "s_left sc = None"
proof (rule ccontr)
  assume "s_left sc \<noteq> None"
  then obtain l where "s_left sc = Some l" by blast
  from left_excludes [OF assms(2) this inv_sep [OF assms(1)], of "(i, fl)"] assms(3)
  show False by simp
qed

lemma inv_advance:
  assumes inv: "scan_inv pre P k t want sc D ((i, fl) # R)" and lt: "fl_end fl < fl_start (s_caller sc)"
    and left: "left_inv sc D"
  shows "scan_inv pre P k t want (next_lock (i, fl) sc) (D @ [(i, fl)]) R"
    and "left_inv (next_lock (i, fl) sc) (D @ [(i, fl)])"
proof -
  have le: "fl_start fl \<le> fl_start (s_caller sc)"
    using inv_head_ok [OF inv] lt by (simp add: ok_lock_def)
  have "scan_base pre k t (next_lock (i, fl) sc) (D @ [(i, fl)]) R"
    using inv_base [OF inv] inv_cref_None [OF inv le] by (auto simp: scan_base_def scan_defs)
  then show "scan_inv pre P k t want (next_lock (i, fl) sc) (D @ [(i, fl)]) R"
    using inv inv_cref_None [OF inv le] by (simp add: scan_inv_def cnode_def next_lock_def)
  from inv_left_None [OF inv left le] show "left_inv (next_lock (i, fl) sc) (D @ [(i, fl)])"
    using left lt by (auto simp: left_inv_def scan_defs)
qed

text \<open>Passing the lock that reaches into the caller's range from below.\<close>

lemma inv_left:
  assumes inv: "scan_inv pre P k t want sc D ((i, fl) # R)" and left: "left_inv sc D"
    and s: "fl_start fl < fl_start (s_caller sc)" and e: "fl_start (s_caller sc) \<le> fl_end fl"
      "fl_end fl \<le> fl_end (s_caller sc)"
    and sc': "sc' = sc\<lparr>s_added := (if t = F_UNLCK then True else s_added sc), s_left := Some i\<rparr>"
  shows "scan_inv pre P k t want (next_lock (i, fl) sc') (D @ [(i, fl)]) R"
    and "left_inv (next_lock (i, fl) sc') (D @ [(i, fl)])"
proof -
  from s have le: "fl_start fl \<le> fl_start (s_caller sc)" by simp
  have "scan_base pre k t (next_lock (i, fl) sc') (D @ [(i, fl)]) R"
    using inv_base [OF inv] inv_cref_None [OF inv le] unfolding sc'
    by (auto simp: scan_base_def scan_defs)
  then show "scan_inv pre P k t want (next_lock (i, fl) sc') (D @ [(i, fl)]) R"
    using inv inv_cref_None [OF inv le] by (simp add: scan_inv_def cnode_def next_lock_def sc')
  from inv_left_None [OF inv left le] show "left_inv (next_lock (i, fl) sc') (D @ [(i, fl)])"
    using left s e unfolding sc' by (auto simp: left_inv_def scan_defs)
qed

text \<open>Freeing a lock the caller's range covers.\<close>

lemma inv_absorb:
  assumes inv: "scan_inv pre P k t want sc D ((i, fl) # R)" and left: "left_inv sc D"
    and s: "fl_start (s_caller sc) \<le> fl_start fl" "fl_end fl \<le> fl_end (s_caller sc)"
    and sc': "sc' = sc\<lparr>s_added := (if t = F_UNLCK then True else s_added sc)\<rparr>"
    and fr: "scan_free (i, fl) sc' = Some sc''"
  shows "scan_inv pre P k t want sc'' D R" and "left_inv sc'' D"
proof -
  from fr obtain w' where f: "sc'' = sc\<lparr>s_added := (if t = F_UNLCK then True else s_added sc),
      s_free := (i, fl\<lparr>fl_owner := None\<rparr>) # s_free sc, s_woken := w'\<rparr>"
    by (auto simp: scan_free_def free_lock_def sc' split: if_splits)
  have c: "in_lock fl x \<Longrightarrow> in_lock (s_caller sc) x" for x using s by (auto simp: in_lock_def)
  have w: "want x = (if in_lock (s_caller sc) x then granted t else cov (map snd (D @ R)) x)" for x
    using inv_want [OF inv, of x] c [of x] cov_drop [of fl x "map snd D" "map snd R"] by auto
  have d: "distinct (map fst (pre @ D @ cnode sc @ R @ P @ s_free sc''))"
    using inv_distinct [OF inv] by (auto simp: f)
  have sp: "sep (map snd (D @ R))" using inv_sep [OF inv] by (auto simp: sep_append sep_Cons)
  have cn: "cnode sc'' = cnode sc" by (rule cnode_cong) (simp_all add: f)
  have b: "scan_base pre k t sc'' D R"
    using inv_base [OF inv] unfolding scan_base_def cn by (auto simp: f)
  have cl: "s_caller sc'' = s_caller sc" by (simp add: f)
  show "scan_inv pre P k t want sc'' D R"
    by (rule scan_invI [OF b sp]) (use d w in \<open>simp_all only: cn cl\<close>)
  show "left_inv sc'' D" using left by (rule left_inv_cong) (simp_all add: f)
qed

text \<open>Replacing a lock of another type by the caller, which then points to that entry.\<close>

lemma inv_replace:
  assumes inv: "scan_inv pre P k t want sc D ((i, fl) # R)" and left: "left_inv sc D"
    and s: "fl_start (s_caller sc) \<le> fl_start fl" "fl_end fl \<le> fl_end (s_caller sc)"
    and t: "t \<noteq> F_UNLCK" and na: "\<not> s_added sc"
    and fl': "fl' = fl\<lparr>fl_start := fl_start (s_caller sc), fl_end := fl_end (s_caller sc), fl_type := t\<rparr>"
    and sc': "sc' = sc\<lparr>s_caller := fl', s_cref := Some i, s_added := True, s_woken := w\<rparr>"
  shows "scan_inv pre P k t want (next_lock (i, fl') sc') D R"
    and "left_inv (next_lock (i, fl') sc') D"
proof -
  have cn: "s_cref sc = None" using inv_base [OF inv] na by (auto simp: scan_base_def)
  have il: "in_lock fl' x = in_lock (s_caller sc) x" for x by (simp add: fl' in_lock_def)
  have c: "in_lock fl x \<Longrightarrow> in_lock (s_caller sc) x" for x using s by (auto simp: in_lock_def)
  have w: "want x = (if in_lock fl' x then granted t else cov (map snd (D @ R)) x)" for x
    using inv_want [OF inv, of x] c [of x] cov_drop [of fl x "map snd D" "map snd R"] by (auto simp: il)
  have sp: "sep (map snd (D @ R))" "\<forall>n \<in> set R. fl_start (s_caller sc) < fl_start (snd n)"
    using inv_sep [OF inv] inv_head_ok [OF inv] s by (auto simp: sep_append sep_Cons ok_lock_def)
  have k: "(fl_owner fl, fl_fd fl) = k" using inv_base [OF inv] by (auto simp: scan_base_def key_def)
  have d: "distinct (map fst (pre @ D @ [(i, fl')] @ R @ P @ s_free sc))"
    using inv_distinct [OF inv] cn by (auto simp: cnode_def)
  have cn': "cnode (next_lock (i, fl') sc') = [(i, fl')]" by (simp add: cnode_def next_lock_def sc')
  have "scan_base pre k t (next_lock (i, fl') sc') D R"
    using inv_base [OF inv] sp(2) k t cn unfolding scan_base_def cn'
    by (auto simp: sc' fl' next_lock_def cnode_def ok_lock_def)
  then show "scan_inv pre P k t want (next_lock (i, fl') sc') D R"
    by (rule scan_invI) (use sp(1) d w in \<open>simp_all only: cn', simp_all add: next_lock_def sc'\<close>)
  show "left_inv (next_lock (i, fl') sc') D"
    using left by (simp add: left_inv_def sc' fl' next_lock_def split: option.splits)
qed

text \<open>
  Merging: the caller's range and a lock of the same type that touches it become one range. The
  hull of the two is the caller's new range.
\<close>

definition hull :: "file_lock \<Rightarrow> file_lock \<Rightarrow> file_lock \<Rightarrow> bool" where
  "hull c fl h \<longleftrightarrow> fl_start h = min (fl_start c) (fl_start fl) \<and> fl_end h = max (fl_end c) (fl_end fl)"

lemma hull_want:
  assumes inv: "scan_inv pre P k t want sc D ((i, fl) # R)" and h: "hull (s_caller sc) fl h"
    and ty: "fl_type fl = t" and t: "t \<noteq> F_UNLCK"
    and adj: "fl_start (s_caller sc) - 1 \<le> fl_end fl" "fl_start fl \<le> fl_end (s_caller sc) + 1"
  shows "want x = (if in_lock h x then granted t else cov (map snd (D @ R)) x)"
proof -
  have h_iff: "in_lock h x \<longleftrightarrow> in_lock (s_caller sc) x \<or> in_lock fl x"
    using h adj inv_head_ok [OF inv] inv_base [OF inv]
    unfolding hull_def in_lock_def scan_base_def ok_lock_def by linarith
  show ?thesis
  proof (cases "in_lock (s_caller sc) x")
    case True
    with inv_want [OF inv, of x] h_iff show ?thesis by simp
  next
    case nc: False
    show ?thesis
    proof (cases "in_lock fl x")
      case True
      with cov_mem [of "map snd D" fl "map snd R" x] inv_sep [OF inv]
      have "cov (map snd (D @ (i, fl) # R)) x = Some t" by (simp add: ty)
      with inv_want [OF inv, of x] nc True h_iff t show ?thesis by (simp add: granted_def)
    next
      case False
      with inv_want [OF inv, of x] nc h_iff show ?thesis by (simp add: cov_drop)
    qed
  qed
qed

lemma hull_props:
  assumes inv: "scan_inv pre P k t want sc D ((i, fl) # R)" and left: "left_inv sc D"
    and h: "hull (s_caller sc) fl h"
  shows "ok_lock h" and "fl_end h < OFFSET_MAX \<or> R = [] \<or> t = F_UNLCK"
    and "\<forall>n \<in> set R. fl_start h < fl_start (snd n)" and "sep (map snd (D @ R))"
    and "s_left sc' = s_left sc \<Longrightarrow> s_caller sc' = h \<Longrightarrow> left_inv sc' D"
proof -
  have okf: "ok_lock fl" by (rule inv_head_ok [OF inv])
  have okc: "ok_lock (s_caller sc)" using inv_base [OF inv] by (simp add: scan_base_def)
  from okf okc h show "ok_lock h" by (auto simp: hull_def ok_lock_def)
  have sp: "sep (map snd D)" "sep (map snd R)" "\<forall>n \<in> set R. fl_end fl < fl_start (snd n)"
    "\<forall>m \<in> set D. fl_end (snd m) < fl_start fl" "\<forall>m \<in> set D. \<forall>n \<in> set R. fl_end (snd m) < fl_start (snd n)"
    using inv_sep [OF inv] by (auto simp: sep_append sep_Cons)
  from sp(3) okf h show "\<forall>n \<in> set R. fl_start h < fl_start (snd n)"
    by (auto simp: hull_def ok_lock_def)
  from sp show "sep (map snd (D @ R))" by (auto simp: sep_append)
  have "fl_end fl < OFFSET_MAX \<or> R = []"
  proof (cases R)
    case (Cons n R')
    with sp have "fl_end fl < fl_start (snd n)" "ok_lock (snd n)" by (auto simp: sep_Cons)
    then show ?thesis by (simp add: ok_lock_def)
  qed simp
  then show "fl_end h < OFFSET_MAX \<or> R = [] \<or> t = F_UNLCK"
    using inv_base [OF inv] h by (auto simp: scan_base_def hull_def)
  show "left_inv sc' D" if a: "s_left sc' = s_left sc" "s_caller sc' = h"
  proof (cases "s_left sc")
    case None
    with left sp(4) h a show ?thesis by (auto simp: left_inv_def hull_def)
  next
    case (Some l)
    have "fl_start (s_caller sc) < fl_start fl"
      using left_excludes [OF left Some inv_sep [OF inv], of "(i, fl)"] by simp
    with Some left h a show ?thesis by (auto simp: left_inv_def hull_def)
  qed
qed

lemma inv_merge_first:
  assumes inv: "scan_inv pre P k t want sc D ((i, fl) # R)" and left: "left_inv sc D"
    and ty: "fl_type fl = t" and t: "t \<noteq> F_UNLCK" and na: "\<not> s_added sc"
    and adj: "fl_start (s_caller sc) - 1 \<le> fl_end fl" "fl_start fl \<le> fl_end (s_caller sc) + 1"
    and h: "hull (s_caller sc) fl h" "fl_owner h = fl_owner fl" "fl_fd h = fl_fd fl" "fl_type h = fl_type fl"
    and sc': "sc' = sc\<lparr>s_caller := h, s_cref := Some i, s_added := True\<rparr>"
  shows "scan_inv pre P k t want (next_lock (i, h) sc') D R"
    and "left_inv (next_lock (i, h) sc') D"
proof -
  have cn: "s_cref sc = None" using inv_base [OF inv] na by (auto simp: scan_base_def)
  have k: "(fl_owner fl, fl_fd fl) = k" using inv_base [OF inv] by (auto simp: scan_base_def key_def)
  have d: "distinct (map fst (pre @ D @ [(i, h)] @ R @ P @ s_free sc))"
    using inv_distinct [OF inv] cn by (auto simp: cnode_def)
  note hp = hull_props [OF inv left h(1)]
  have cn': "cnode (next_lock (i, h) sc') = [(i, h)]" by (simp add: cnode_def next_lock_def sc')
  have "scan_base pre k t (next_lock (i, h) sc') D R"
    using inv_base [OF inv] hp(1-3) k t cn h(2-4) ty unfolding scan_base_def cn'
    by (auto simp: sc' next_lock_def cnode_def)
  then show "scan_inv pre P k t want (next_lock (i, h) sc') D R"
    by (rule scan_invI)
      (use hp(4) d hull_want [OF inv h(1) ty t adj] in \<open>simp_all only: cn', simp_all add: next_lock_def sc'\<close>)
  show "left_inv (next_lock (i, h) sc') D"
    by (rule hp(5)) (simp_all add: sc' next_lock_def)
qed

lemma inv_merge_more:
  assumes inv: "scan_inv pre P k t want sc D ((i, fl) # R)" and left: "left_inv sc D"
    and ty: "fl_type fl = t" and t: "t \<noteq> F_UNLCK" and ad: "s_added sc"
    and adj: "fl_start (s_caller sc) - 1 \<le> fl_end fl" "fl_start fl \<le> fl_end (s_caller sc) + 1"
    and h: "hull (s_caller sc) fl h" "fl_owner h = fl_owner fl" "fl_fd h = fl_fd fl" "fl_type h = fl_type fl"
    and fr: "scan_free (i, fl') (put_caller h sc) = Some sc''"
  shows "scan_inv pre P k t want sc'' D R" and "left_inv sc'' D"
proof -
  obtain j where cr: "s_cref sc = Some j" using inv_base [OF inv] ad t by (auto simp: scan_base_def)
  have dn: "s_done sc = pre @ D @ [(j, s_caller sc)]"
    using inv_base [OF inv] cr by (simp add: scan_base_def cnode_def)
  have dd: "distinct (map fst (pre @ D @ [(j, s_caller sc)] @ ((i, fl) # R) @ P @ s_free sc))"
    using inv_distinct [OF inv] cr by (simp add: cnode_def)
  have f: "s_done sc'' = pre @ D @ [(j, h)]" "s_caller sc'' = h" "s_cref sc'' = Some j"
    "s_left sc'' = s_left sc" "s_free sc'' = (i, fl'\<lparr>fl_owner := None\<rparr>) # s_free sc" "s_added sc''"
    using fr dd cr dn ad by (auto simp: scan_free_def free_lock_def put_caller_def split: if_splits)
  have k: "(fl_owner fl, fl_fd fl) = k" using inv_base [OF inv] by (auto simp: scan_base_def key_def)
  have d: "distinct (map fst (pre @ D @ [(j, h)] @ R @ P @ s_free sc''))"
    using dd by (auto simp: f)
  note hp = hull_props [OF inv left h(1)]
  have cn: "cnode sc'' = [(j, h)]" by (simp add: cnode_def f)
  have "scan_base pre k t sc'' D R"
    using inv_base [OF inv] hp(1-3) k t h(2-4) ty unfolding scan_base_def cn by (auto simp: f)
  then show "scan_inv pre P k t want sc'' D R"
    by (rule scan_invI) (use hp(4) d hull_want [OF inv h(1) ty t adj] in \<open>simp_all only: cn f\<close>)
  show "left_inv sc'' D" by (rule hp(5)) (simp_all add: f)
qed

definition exit_ok :: "scan \<Rightarrow> node list \<Rightarrow> node list \<Rightarrow> bool" where
  "exit_ok sc D R \<longleftrightarrow>
     (s_right sc = None \<and> left_inv sc D \<and> (\<forall>n \<in> set R. fl_end (s_caller sc) < fl_start (snd n))) \<or>
     (\<exists>i f R'. R = (i, f) # R' \<and> s_right sc = Some i \<and> fl_start f \<le> fl_end (s_caller sc) \<and>
        fl_end (s_caller sc) < fl_end f \<and>
        (if fl_start f < fl_start (s_caller sc)
         then s_left sc = Some i \<and> s_cref sc = None \<and> (\<forall>n \<in> set D. fl_end (snd n) < fl_start (s_caller sc))
         else left_inv sc D))"

lemma exit_before:
  assumes "scan_inv pre P k t want sc D ((i, fl) # R)" "left_inv sc D" "s_right sc = None"
    and "fl_end (s_caller sc) < fl_start fl"
  shows "exit_ok sc D ((i, fl) # R)"
proof -
  have "\<forall>n \<in> set R. fl_end fl < fl_start (snd n)" "fl_start fl \<le> fl_end fl"
    using inv_sep [OF assms(1)] inv_head_ok [OF assms(1)] by (auto simp: sep_append sep_Cons ok_lock_def)
  with assms show ?thesis by (force simp: exit_ok_def)
qed

lemma exit_right:
  assumes inv: "scan_inv pre P k t want sc D ((i, fl) # R)" and left: "left_inv sc D"
    and e: "fl_start fl \<le> fl_end (s_caller sc)" "fl_end (s_caller sc) < fl_end fl"
    and sc': "sc' = sc\<lparr>s_added := (if t = F_UNLCK then True else s_added sc),
        s_left := (if fl_start fl < fl_start (s_caller sc) then Some i else s_left sc), s_right := Some i\<rparr>"
  shows "scan_inv pre P k t want sc' D ((i, fl) # R)" and "exit_ok sc' D ((i, fl) # R)"
proof -
  have cn: "cnode sc' = cnode sc" by (rule cnode_cong) (simp_all add: sc')
  have cl: "s_caller sc' = s_caller sc" "s_free sc' = s_free sc" by (simp_all add: sc')
  have b: "scan_base pre k t sc' D ((i, fl) # R)"
    using inv_base [OF inv] unfolding scan_base_def cn by (auto simp: sc')
  show "scan_inv pre P k t want sc' D ((i, fl) # R)"
    using inv b unfolding scan_inv_def cn cl by blast
  show "exit_ok sc' D ((i, fl) # R)"
  proof (cases "fl_start fl < fl_start (s_caller sc)")
    case True
    then have "s_cref sc = None" "s_left sc = None"
      using inv_cref_None [OF inv] inv_left_None [OF inv left] by simp_all
    with left True e show ?thesis by (simp add: exit_ok_def sc' left_inv_def)
  next
    case False
    have "left_inv sc' D" by (rule left_inv_cong [OF left]) (use False in \<open>simp_all add: sc'\<close>)
    with False e show ?thesis by (simp add: exit_ok_def sc')
  qed
qed

lemma scan_free_Some:
  "fl_owner fl \<noteq> None \<Longrightarrow> \<exists>sc'. scan_free (i, fl) sc = Some sc'"
  by (auto simp: scan_free_def free_lock_def)

lemma scan_free_right: "scan_free n sc = Some sc' \<Longrightarrow> s_right sc' = s_right sc"
  by (auto simp: scan_free_def split: option.splits)

text \<open>One step of the scan, branch by branch.\<close>

abbreviation (input) mine :: "scan \<Rightarrow> file_lock \<Rightarrow> bool" where
  "mine sc fl \<equiv> fl_owner (s_caller sc) = fl_owner fl \<and> fl_fd (s_caller sc) = fl_fd fl"

definition stretch :: "file_lock \<Rightarrow> file_lock \<Rightarrow> file_lock \<Rightarrow> file_lock" where
  "stretch c fl x = x\<lparr>fl_start := min (fl_start c) (fl_start fl), fl_end := max (fl_end c) (fl_end fl)\<rparr>"

lemma hull_stretch: "hull c fl (stretch c fl x)"
  by (simp add: hull_def stretch_def)

lemma step_other: "\<not> mine sc fl \<Longrightarrow> lock_scan sc ((i, fl) # r) = Some (sc, (i, fl) # r)"
  by (auto simp: lock_step_def Let_def)

lemma step_below_same:
  "mine sc fl \<Longrightarrow> fl_type (s_caller sc) = fl_type fl \<Longrightarrow> fl_end fl < s32 (fl_start (s_caller sc) - 1) \<Longrightarrow>
   lock_scan sc ((i, fl) # r) = lock_scan (next_lock (i, fl) sc) r"
  by (simp add: lock_step_def Let_def)

lemma step_above_same:
  "mine sc fl \<Longrightarrow> fl_type (s_caller sc) = fl_type fl \<Longrightarrow> \<not> fl_end fl < s32 (fl_start (s_caller sc) - 1) \<Longrightarrow>
   fl_start fl > s32 (fl_end (s_caller sc) + 1) \<Longrightarrow>
   lock_scan sc ((i, fl) # r) = Some (sc, (i, fl) # r)"
  by (simp add: lock_step_def Let_def)

lemma step_merge_first:
  "mine sc fl \<Longrightarrow> fl_type (s_caller sc) = fl_type fl \<Longrightarrow> \<not> fl_end fl < s32 (fl_start (s_caller sc) - 1) \<Longrightarrow>
   \<not> fl_start fl > s32 (fl_end (s_caller sc) + 1) \<Longrightarrow> \<not> s_added sc \<Longrightarrow> h = stretch (s_caller sc) fl fl \<Longrightarrow>
   lock_scan sc ((i, fl) # r) =
     lock_scan (next_lock (i, h) (sc\<lparr>s_caller := h, s_cref := Some i, s_added := True\<rparr>)) r"
  by (auto simp: lock_step_def Let_def stretch_def min_def max_def)

lemma start_upd_same: "fl_start c = x \<Longrightarrow> c\<lparr>fl_start := x\<rparr> = c"
  by (cases c) simp

lemma step_merge_more:
  "mine sc fl \<Longrightarrow> fl_type (s_caller sc) = fl_type fl \<Longrightarrow> \<not> fl_end fl < s32 (fl_start (s_caller sc) - 1) \<Longrightarrow>
   \<not> fl_start fl > s32 (fl_end (s_caller sc) + 1) \<Longrightarrow> s_added sc \<Longrightarrow>
   scan_free (i, stretch (s_caller sc) fl fl) (put_caller (stretch (s_caller sc) fl (s_caller sc)) sc) = Some sc' \<Longrightarrow>
   lock_scan sc ((i, fl) # r) = lock_scan sc' r"
  by (auto simp: lock_step_def Let_def stretch_def min_def max_def start_upd_same split: if_splits)

lemma step_below:
  "mine sc fl \<Longrightarrow> fl_type (s_caller sc) \<noteq> fl_type fl \<Longrightarrow> fl_end fl < fl_start (s_caller sc) \<Longrightarrow>
   lock_scan sc ((i, fl) # r) = lock_scan (next_lock (i, fl) sc) r"
  by (simp add: lock_step_def Let_def)

lemma step_above:
  "mine sc fl \<Longrightarrow> fl_type (s_caller sc) \<noteq> fl_type fl \<Longrightarrow> \<not> fl_end fl < fl_start (s_caller sc) \<Longrightarrow>
   fl_start fl > fl_end (s_caller sc) \<Longrightarrow> lock_scan sc ((i, fl) # r) = Some (sc, (i, fl) # r)"
  by (simp add: lock_step_def Let_def)

lemma step_right:
  "mine sc fl \<Longrightarrow> fl_type (s_caller sc) \<noteq> fl_type fl \<Longrightarrow> \<not> fl_end fl < fl_start (s_caller sc) \<Longrightarrow>
   \<not> fl_start fl > fl_end (s_caller sc) \<Longrightarrow> fl_end fl > fl_end (s_caller sc) \<Longrightarrow>
   lock_scan sc ((i, fl) # r) =
     Some (sc\<lparr>s_added := (if fl_type (s_caller sc) = F_UNLCK then True else s_added sc),
        s_left := (if fl_start fl < fl_start (s_caller sc) then Some i else s_left sc),
        s_right := Some i\<rparr>, (i, fl) # r)"
  by (simp add: lock_step_def Let_def)

lemma step_absorb:
  "mine sc fl \<Longrightarrow> fl_type (s_caller sc) \<noteq> fl_type fl \<Longrightarrow> \<not> fl_end fl < fl_start (s_caller sc) \<Longrightarrow>
   \<not> fl_start fl > fl_end (s_caller sc) \<Longrightarrow> \<not> fl_end fl > fl_end (s_caller sc) \<Longrightarrow>
   fl_start fl \<ge> fl_start (s_caller sc) \<Longrightarrow> s_added sc \<or> fl_type (s_caller sc) = F_UNLCK \<Longrightarrow>
   scan_free (i, fl)
     (sc\<lparr>s_added := (if fl_type (s_caller sc) = F_UNLCK then True else s_added sc)\<rparr>) = Some sc' \<Longrightarrow>
   lock_scan sc ((i, fl) # r) = lock_scan sc' r"
  by (auto simp: lock_step_def Let_def split: if_splits)

lemma step_replace:
  "mine sc fl \<Longrightarrow> fl_type (s_caller sc) \<noteq> fl_type fl \<Longrightarrow> \<not> fl_end fl < fl_start (s_caller sc) \<Longrightarrow>
   \<not> fl_start fl > fl_end (s_caller sc) \<Longrightarrow> \<not> fl_end fl > fl_end (s_caller sc) \<Longrightarrow>
   fl_start fl \<ge> fl_start (s_caller sc) \<Longrightarrow> \<not> s_added sc \<Longrightarrow> fl_type (s_caller sc) \<noteq> F_UNLCK \<Longrightarrow>
   fl' = fl\<lparr>fl_start := fl_start (s_caller sc), fl_end := fl_end (s_caller sc), fl_type := fl_type (s_caller sc)\<rparr> \<Longrightarrow>
   lock_scan sc ((i, fl) # r) =
     lock_scan (next_lock (i, fl')
       (sc\<lparr>s_caller := fl', s_cref := Some i, s_added := True, s_woken := s_woken sc @ fl_wait fl\<rparr>)) r"
  by (simp add: lock_step_def Let_def)

lemma step_left:
  "mine sc fl \<Longrightarrow> fl_type (s_caller sc) \<noteq> fl_type fl \<Longrightarrow> \<not> fl_end fl < fl_start (s_caller sc) \<Longrightarrow>
   \<not> fl_start fl > fl_end (s_caller sc) \<Longrightarrow> \<not> fl_end fl > fl_end (s_caller sc) \<Longrightarrow>
   fl_start fl < fl_start (s_caller sc) \<Longrightarrow>
   lock_scan sc ((i, fl) # r) =
     lock_scan (next_lock (i, fl)
       (sc\<lparr>s_added := (if fl_type (s_caller sc) = F_UNLCK then True else s_added sc), s_left := Some i\<rparr>)) r"
  by (simp add: lock_step_def Let_def)

declare lock_scan.simps(2) [simp del]

text \<open>The two halves of one step: a lock of the caller's type, and one of another type.\<close>

lemma scan_step_same:
  assumes inv: "scan_inv pre P k t want sc D ((i, fl) # R)" and left: "left_inv sc D" and right: "s_right sc = None"
    and k: "fst k \<noteq> None" and same: "fl_type fl = t"
  shows "(lock_scan sc ((i, fl) # R @ P) = Some (sc, (i, fl) # R @ P) \<and> exit_ok sc D ((i, fl) # R)) \<or>
    (\<exists>sc' D'. lock_scan sc ((i, fl) # R @ P) = lock_scan sc' (R @ P) \<and>
       scan_inv pre P k t want sc' D' R \<and> left_inv sc' D' \<and> s_right sc' = None)"
proof -
  let ?c = "s_caller sc"
  have base: "mine sc fl" "fl_type ?c = t" "ok_lock ?c" "fl_type fl \<in> {F_RDLCK, F_WRLCK}"
    "t \<noteq> F_UNLCK \<longrightarrow> fl_end ?c < OFFSET_MAX" "fl_owner fl \<noteq> None"
    using inv_base [OF inv] k by (auto simp: scan_base_def key_def)
  have t: "t \<noteq> F_UNLCK" using same base(4) by auto
  have st: "fl_type ?c = fl_type fl" using base(2) same by simp
  have w: "s32 (fl_start ?c - 1) = fl_start ?c - 1" "s32 (fl_end ?c + 1) = fl_end ?c + 1"
    using base(3,5) t by (auto simp: ok_lock_def OFFSET_MAX_def intro!: s32_id)
  consider (below) "fl_end fl < fl_start ?c - 1"
    | (above) "\<not> fl_end fl < fl_start ?c - 1" "fl_start fl > fl_end ?c + 1"
    | (first) "fl_start ?c - 1 \<le> fl_end fl" "fl_start fl \<le> fl_end ?c + 1" "\<not> s_added sc"
    | (more) "fl_start ?c - 1 \<le> fl_end fl" "fl_start fl \<le> fl_end ?c + 1" "s_added sc"
    by linarith
  then show ?thesis
  proof cases
    case below
    with step_below_same [OF base(1) st] inv_advance [OF inv _ left] right show ?thesis
      by (intro disjI2 exI [of _ "next_lock (i, fl) sc"] exI [of _ "D @ [(i, fl)]"])
        (simp add: w next_lock_def)
  next
    case above
    with step_above_same [OF base(1) st] exit_before [OF inv left right] show ?thesis by (simp add: w)
  next
    case first
    let ?h = "stretch ?c fl fl"
    let ?sc = "next_lock (i, ?h) (sc\<lparr>s_caller := ?h, s_cref := Some i, s_added := True\<rparr>)"
    have "lock_scan sc ((i, fl) # R @ P) = lock_scan ?sc (R @ P)"
      using step_merge_first [OF base(1) st _ _ first(3) refl] first w by simp
    moreover have "scan_inv pre P k t want ?sc D R" "left_inv ?sc D"
      using inv_merge_first [OF inv left same t first(3) first(1,2) hull_stretch _ _ _ refl]
      by (simp_all add: stretch_def)
    ultimately show ?thesis using right by (intro disjI2 exI [of _ ?sc] exI [of _ D]) (simp add: next_lock_def)
  next
    case more
    let ?h = "stretch ?c fl ?c"
    obtain sc' where fr: "scan_free (i, stretch ?c fl fl) (put_caller ?h sc) = Some sc'"
      using scan_free_Some [of "stretch ?c fl fl"] base(6) by (auto simp: stretch_def)
    have "lock_scan sc ((i, fl) # R @ P) = lock_scan sc' (R @ P)"
      using step_merge_more [OF base(1) st _ _ more(3) fr] more w by simp
    moreover have "scan_inv pre P k t want sc' D R" "left_inv sc' D"
      using inv_merge_more [OF inv left same t more(3) more(1,2) hull_stretch _ _ _ fr] base(1) st
      by (simp_all add: stretch_def)
    moreover have "s_right sc' = None" using scan_free_right [OF fr] right by (simp add: put_caller_def)
    ultimately show ?thesis by blast
  qed
qed

lemma scan_step_other:
  assumes inv: "scan_inv pre P k t want sc D ((i, fl) # R)" and left: "left_inv sc D" and right: "s_right sc = None"
    and k: "fst k \<noteq> None" and diff: "fl_type fl \<noteq> t"
  shows "(\<exists>sc'. lock_scan sc ((i, fl) # R @ P) = Some (sc', (i, fl) # R @ P) \<and>
       scan_inv pre P k t want sc' D ((i, fl) # R) \<and> exit_ok sc' D ((i, fl) # R)) \<or>
    (\<exists>sc' D'. lock_scan sc ((i, fl) # R @ P) = lock_scan sc' (R @ P) \<and>
       scan_inv pre P k t want sc' D' R \<and> left_inv sc' D' \<and> s_right sc' = None)"
proof -
  let ?c = "s_caller sc"
  have base: "mine sc fl" "fl_type ?c = t" "fl_owner fl \<noteq> None"
    using inv_base [OF inv] k by (auto simp: scan_base_def key_def)
  have st: "fl_type ?c \<noteq> fl_type fl" using base(2) diff by simp
  consider (below) "fl_end fl < fl_start ?c"
    | (above) "\<not> fl_end fl < fl_start ?c" "fl_start fl > fl_end ?c"
    | (right) "\<not> fl_end fl < fl_start ?c" "\<not> fl_start fl > fl_end ?c" "fl_end fl > fl_end ?c"
    | (leftl) "\<not> fl_end fl < fl_start ?c" "\<not> fl_start fl > fl_end ?c" "\<not> fl_end fl > fl_end ?c"
        "fl_start fl < fl_start ?c"
    | (absorb) "\<not> fl_end fl < fl_start ?c" "\<not> fl_start fl > fl_end ?c" "\<not> fl_end fl > fl_end ?c"
        "fl_start fl \<ge> fl_start ?c" "s_added sc \<or> t = F_UNLCK"
    | (repl) "\<not> fl_end fl < fl_start ?c" "\<not> fl_start fl > fl_end ?c" "\<not> fl_end fl > fl_end ?c"
        "fl_start fl \<ge> fl_start ?c" "\<not> s_added sc" "t \<noteq> F_UNLCK"
    by linarith
  then show ?thesis
  proof cases
    case below
    with step_below [OF base(1) st] inv_advance [OF inv _ left] right show ?thesis
      by (intro disjI2 exI [of _ "next_lock (i, fl) sc"] exI [of _ "D @ [(i, fl)]"])
        (simp add: next_lock_def)
  next
    case above
    with step_above [OF base(1) st] exit_before [OF inv left assms(3)] inv show ?thesis by blast
  next
    case right
    then have "fl_start fl \<le> fl_end ?c" by simp
    with step_right [OF base(1) st right] exit_right [OF inv left _ right(3) refl] base(2)
    show ?thesis by blast
  next
    case leftl
    let ?sc = "next_lock (i, fl) (sc\<lparr>s_added := (if t = F_UNLCK then True else s_added sc), s_left := Some i\<rparr>)"
    have "lock_scan sc ((i, fl) # R @ P) = lock_scan ?sc (R @ P)"
      using step_left [OF base(1) st leftl] base(2) by simp
    moreover have "scan_inv pre P k t want ?sc (D @ [(i, fl)]) R" "left_inv ?sc (D @ [(i, fl)])"
      using inv_left [OF inv left leftl(4) _ _ refl] leftl by simp_all
    ultimately show ?thesis using right by (intro disjI2 exI [of _ ?sc] exI [of _ "D @ [(i, fl)]"]) (simp add: next_lock_def)
  next
    case absorb
    obtain sc' where fr: "scan_free (i, fl) (sc\<lparr>s_added := (if t = F_UNLCK then True else s_added sc)\<rparr>) = Some sc'"
      using scan_free_Some [OF base(3)] by blast
    have "lock_scan sc ((i, fl) # R @ P) = lock_scan sc' (R @ P)"
      using step_absorb [OF base(1) st absorb(1-4), of i sc'] absorb(5) base(2) fr by simp
    moreover have "scan_inv pre P k t want sc' D R" "left_inv sc' D"
      using inv_absorb [OF inv left absorb(4) _ refl fr] absorb(3) by simp_all
    moreover have "s_right sc' = None" using scan_free_right [OF fr] right by simp
    ultimately show ?thesis by blast
  next
    case repl
    let ?fl = "fl\<lparr>fl_start := fl_start ?c, fl_end := fl_end ?c, fl_type := t\<rparr>"
    let ?sc = "next_lock (i, ?fl)
       (sc\<lparr>s_caller := ?fl, s_cref := Some i, s_added := True, s_woken := s_woken sc @ fl_wait fl\<rparr>)"
    have "lock_scan sc ((i, fl) # R @ P) = lock_scan ?sc (R @ P)"
      using step_replace [OF base(1) st repl(1-5) _ refl] repl(6) base(2) by simp
    moreover have "scan_inv pre P k t want ?sc D R" "left_inv ?sc D"
      using inv_replace [OF inv left repl(4) _ repl(6,5) refl refl] repl(3) by simp_all
    ultimately show ?thesis using right by (intro disjI2 exI [of _ ?sc] exI [of _ D]) (simp add: next_lock_def)
  qed
qed

lemma lock_scan_spec:
  assumes "scan_inv pre P k t want sc D R" "left_inv sc D" "s_right sc = None"
    and "P = [] \<or> key (hd P) \<noteq> k" "fst k \<noteq> None"
  shows "\<exists>sc' D' R'. lock_scan sc (R @ P) = Some (sc', R' @ P) \<and> scan_inv pre P k t want sc' D' R' \<and>
     exit_ok sc' D' R'"
  using assms(1-3)
proof (induction R arbitrary: sc D)
  case Nil
  have k: "(fl_owner (s_caller sc), fl_fd (s_caller sc)) = k"
    using inv_base [OF Nil.prems(1)] by (simp add: scan_base_def)
  have "lock_scan sc P = Some (sc, P)"
  proof (cases P)
    case (Cons p Q)
    obtain j g where p: "p = (j, g)" by (cases p)
    have "\<not> mine sc g" using assms(4) k by (auto simp: Cons p key_def)
    then show ?thesis using step_other [of sc g j Q] by (simp add: Cons p)
  qed simp
  moreover have "exit_ok sc D []" using Nil.prems by (simp add: exit_ok_def)
  ultimately show ?case using Nil.prems(1) by auto
next
  case (Cons n R)
  obtain i fl where n: "n = (i, fl)" by (cases n)
  note prems = Cons.prems(1) [unfolded n] Cons.prems(2,3) assms(5)
  consider (stop) sc' where "lock_scan sc ((i, fl) # R @ P) = Some (sc', (i, fl) # R @ P)"
      "scan_inv pre P k t want sc' D ((i, fl) # R)" "exit_ok sc' D ((i, fl) # R)"
    | (go) sc' D' where "lock_scan sc ((i, fl) # R @ P) = lock_scan sc' (R @ P)"
      "scan_inv pre P k t want sc' D' R" "left_inv sc' D'" "s_right sc' = None"
    using scan_step_same [OF prems] scan_step_other [OF prems] prems(1) by blast
  then show ?case
  proof cases
    case stop
    then show ?thesis by (intro exI [of _ sc'] exI [of _ D] exI [of _ "n # R"]) (simp add: n)
  next
    case go
    with Cons.IH [OF go(2-4)] show ?thesis by (simp add: n)
  qed
qed

section \<open>What the scan leaves alone\<close>

lemma ids_put_caller [simp]: "map fst (s_done (put_caller c sc)) = map fst (s_done sc)"
  "s_free (put_caller c sc) = s_free sc"
  by (simp_all add: put_caller_def split: option.split)

lemma scan_free_fields:
  "scan_free n sc = Some sc' \<Longrightarrow>
   s_done sc' = s_done sc \<and> s_free sc' = (fst n, (snd n)\<lparr>fl_owner := None\<rparr>) # s_free sc"
  by (auto simp: scan_free_def free_lock_def split: option.splits if_splits)

lemma lock_step_frame:
  "lock_step sc i fl = Some (Break sc') \<Longrightarrow> s_done sc' = s_done sc \<and> s_free sc' = s_free sc"
  "lock_step sc i fl = Some (Continue sc') \<Longrightarrow>
   mset (map fst (s_done sc' @ s_free sc')) = add_mset i (mset (map fst (s_done sc @ s_free sc))) \<and>
   (\<forall>n \<in> set (s_free sc'). n \<in> set (s_free sc) \<or> fl_owner (snd n) = None)"
  by (auto simp: lock_step_def Let_def next_lock_def dest!: scan_free_fields
      simp flip: mset_map split: if_splits)

lemma lock_step_untouched:
  "lock_step sc i fl = Some (Break sc') \<Longrightarrow> \<not> s_added sc' \<Longrightarrow>
   \<not> s_added sc \<and> s_caller sc' = s_caller sc \<and> s_woken sc' = s_woken sc"
  "lock_step sc i fl = Some (Continue sc') \<Longrightarrow> \<not> s_added sc' \<Longrightarrow>
   \<not> s_added sc \<and> s_caller sc' = s_caller sc \<and> s_woken sc' = s_woken sc \<and>
   s_done sc' = s_done sc @ [(i, fl)] \<and> s_free sc' = s_free sc"
  by (auto simp: lock_step_def Let_def next_lock_def scan_free_def put_caller_def free_lock_def
      split: if_splits)

lemma lock_scan_frame:
  "lock_scan sc xs = Some (sc', ys) \<Longrightarrow>
   mset (map fst (s_done sc' @ ys @ s_free sc')) = mset (map fst (s_done sc @ xs @ s_free sc)) \<and>
   (\<forall>n \<in> set (s_free sc'). n \<in> set (s_free sc) \<or> fl_owner (snd n) = None)"
proof (induction sc xs rule: lock_scan.induct)
  case (2 sc i fl rest)
  show ?case
  proof (cases "lock_step sc i fl")
    case (Some st)
    show ?thesis
    proof (cases st)
      case (Break sc1)
      then show ?thesis using "2.prems" Some lock_step_frame(1) [of sc i fl sc1]
        by (auto simp: lock_scan.simps(2))
    next
      case (Continue sc1)
      then have "lock_scan sc1 rest = Some (sc', ys)" using "2.prems" Some by (simp add: lock_scan.simps(2))
      with "2.IH" [OF Some Continue] lock_step_frame(2) [of sc i fl sc1] Some Continue
      have a: "mset (map fst (s_done sc' @ ys @ s_free sc')) = mset (map fst (s_done sc1 @ rest @ s_free sc1))"
        "\<forall>n \<in> set (s_free sc'). n \<in> set (s_free sc1) \<or> fl_owner (snd n) = None"
        "mset (map fst (s_done sc1 @ s_free sc1)) = add_mset i (mset (map fst (s_done sc @ s_free sc)))"
        "\<forall>n \<in> set (s_free sc1). n \<in> set (s_free sc) \<or> fl_owner (snd n) = None"
        by simp_all
      from a(1,3) have "mset (map fst (s_done sc' @ ys @ s_free sc')) = mset (map fst (s_done sc @ ((i, fl) # rest) @ s_free sc))"
        by (simp add: union_commute)
      moreover have "\<forall>n \<in> set (s_free sc'). n \<in> set (s_free sc) \<or> fl_owner (snd n) = None"
        using a(2,4) by metis
      ultimately show ?thesis by (rule conjI)
    qed
  qed (use "2.prems" in \<open>simp add: lock_scan.simps(2)\<close>)
qed simp

lemma lock_scan_untouched:
  "lock_scan sc xs = Some (sc', ys) \<Longrightarrow> \<not> s_added sc' \<Longrightarrow>
   \<not> s_added sc \<and> s_caller sc' = s_caller sc \<and> s_woken sc' = s_woken sc \<and>
   s_done sc' @ ys = s_done sc @ xs \<and> s_free sc' = s_free sc"
proof (induction sc xs rule: lock_scan.induct)
  case (2 sc i fl rest)
  show ?case
  proof (cases "lock_step sc i fl")
    case (Some st)
    show ?thesis
    proof (cases st)
      case (Break sc1)
      then show ?thesis
        using "2.prems" Some lock_step_frame(1) [of sc i fl sc1] lock_step_untouched(1) [of sc i fl sc1]
        by (auto simp: lock_scan.simps(2))
    next
      case (Continue sc1)
      then have "lock_scan sc1 rest = Some (sc', ys)" using "2.prems" Some by (simp add: lock_scan.simps(2))
      with "2.IH" [OF Some Continue] "2.prems"(2) lock_step_untouched(2) [of sc i fl sc1] Some Continue
      show ?thesis by simp
    qed
  qed (use "2.prems" in \<open>simp add: lock_scan.simps(2)\<close>)
qed simp

section \<open>The end of \<open>lock_it\<close>\<close>

lemma cut_left_props:
  assumes left: "left_inv sc D" and sp: "sep (map snd D)" and d: "distinct (map fst D)"
    and ok: "ok_lock (s_caller sc)"
    and D2: "D2 = cut_left sc (s_left sc) D"
  shows "sep (map snd D2)" and "\<forall>n \<in> set D2. fl_end (snd n) < fl_start (s_caller sc)"
    and "map fst D2 = map fst D" and "map key D2 = map key D"
    and "map (fl_type \<circ> snd) D2 = map (fl_type \<circ> snd) D"
    and "\<And>x. \<not> in_lock (s_caller sc) x \<Longrightarrow> cov (map snd D2) x = cov (map snd D) x"
proof -
  have w: "s32 (fl_start (s_caller sc) - 1) = fl_start (s_caller sc) - 1"
    using ok by (intro s32_id) (auto simp: ok_lock_def OFFSET_MAX_def)
  have "sep (map snd D2) \<and> (\<forall>n \<in> set D2. fl_end (snd n) < fl_start (s_caller sc)) \<and>
     map fst D2 = map fst D \<and> map key D2 = map key D \<and> map (fl_type \<circ> snd) D2 = map (fl_type \<circ> snd) D \<and>
     (\<forall>x. \<not> in_lock (s_caller sc) x \<longrightarrow> cov (map snd D2) x = cov (map snd D) x)"
  proof (cases "s_left sc")
    case None
    with left sp show ?thesis by (simp add: D2 cut_left_def left_inv_def)
  next
    case (Some l)
    then obtain D' f where D: "D = D' @ [(l, f)]" and lf: "\<forall>n \<in> set D'. fl_end (snd n) < fl_start (s_caller sc)"
      "fl_start f < fl_start (s_caller sc)" "fl_start (s_caller sc) \<le> fl_end f" "fl_end f \<le> fl_end (s_caller sc)"
      using left by (auto simp: left_inv_def)
    have "l \<notin> fst ` set D'" using d by (auto simp: D)
    then have D2': "D2 = D' @ [(l, f\<lparr>fl_end := fl_start (s_caller sc) - 1\<rparr>)]"
      by (simp add: D2 D cut_left_def Some w)
    have "cov (map snd D2) x = cov (map snd D) x" if "\<not> in_lock (s_caller sc) x" for x
      using that lf by (auto simp: D2' D cov_append in_lock_def split: option.split)
    with sp lf ok show ?thesis
      by (auto simp: D2' D sep_append sep_Cons ok_lock_def key_def)
  qed
  then show "sep (map snd D2)" and "\<forall>n \<in> set D2. fl_end (snd n) < fl_start (s_caller sc)"
    and "map fst D2 = map fst D" and "map key D2 = map key D"
    and "map (fl_type \<circ> snd) D2 = map (fl_type \<circ> snd) D"
    and "\<And>x. \<not> in_lock (s_caller sc) x \<Longrightarrow> cov (map snd D2) x = cov (map snd D) x" by blast+
qed

lemma cut_right_props:
  assumes sp: "sep (map snd ((i, f) # R))" and e: "fl_end c < fl_end f" "fl_start f \<le> fl_end c" and ok: "ok_lock c"
    and f': "f' = f\<lparr>fl_start := fl_end c + 1\<rparr>"
  shows "sep (map snd ((i, f') # R))" and "\<forall>n \<in> set ((i, f') # R). fl_end c < fl_start (snd n)"
    and "fl_start c \<le> fl_start f \<Longrightarrow> \<not> in_lock c x \<Longrightarrow> cov (map snd ((i, f') # R)) x = cov (map snd ((i, f) # R)) x"
  using assms by (auto simp: sep_Cons ok_lock_def in_lock_def)

text \<open>The list of the owner's locks after a successful call, in the three cases.\<close>

definition good_end :: "node list \<Rightarrow> (int option \<times> int) \<Rightarrow> (int \<Rightarrow> int option) \<Rightarrow> bool" where
  "good_end F k want \<longleftrightarrow> sep (map snd F) \<and> (\<forall>n \<in> set F. key n = k \<and> fl_type (snd n) \<in> {F_RDLCK, F_WRLCK}) \<and>
     (\<forall>x. cov (map snd F) x = want x)"

definition caller_node :: "int \<Rightarrow> (int option \<times> int) \<Rightarrow> file_lock \<Rightarrow> node list \<Rightarrow> bool" where
  "caller_node t k c M \<longleftrightarrow>
     (if t = F_UNLCK then M = []
      else t \<in> {F_RDLCK, F_WRLCK} \<and> (\<exists>j c'. M = [(j, c')] \<and> fl_start c' = fl_start c \<and> fl_end c' = fl_end c \<and>
             fl_type c' = t \<and> key (j, c') = k))"

lemma good_endI:
  assumes "caller_node t k c M" and "ok_lock c"
    and "sep (map snd Dl)" "\<forall>n \<in> set Dl. fl_end (snd n) < fl_start c"
    and "sep (map snd Rl)" "\<forall>n \<in> set Rl. fl_end c < fl_start (snd n)"
    and "\<forall>n \<in> set (Dl @ Rl). key n = k \<and> fl_type (snd n) \<in> {F_RDLCK, F_WRLCK}"
    and "\<And>x. want x = (if in_lock c x then granted t else cov (map snd (Dl @ Rl)) x)"
  shows "good_end (Dl @ M @ Rl) k want"
proof -
  obtain c' where m: "map snd M = (if t = F_UNLCK then [] else [c'])"
    and c': "fl_start c' = fl_start c" "fl_end c' = fl_end c" "fl_type c' = t"
  proof (cases "t = F_UNLCK")
    case True
    with assms(1) that [of "c\<lparr>fl_type := t\<rparr>"] show ?thesis by (simp add: caller_node_def)
  next
    case False
    with assms(1) obtain j c'' where "M = [(j, c'')]" "fl_start c'' = fl_start c" "fl_end c'' = fl_end c" "fl_type c'' = t"
      by (auto simp: caller_node_def)
    with False that [of c''] show ?thesis by simp
  qed
  have D: "\<forall>f \<in> set (map snd Dl). fl_end f < fl_start c" and R: "\<forall>f \<in> set (map snd Rl). fl_end c < fl_start f"
    using assms(4,6) by auto
  have "sep (map snd (Dl @ M @ Rl))"
    using sep_between [OF D R m c'(1,2) assms(2,3,5)] by simp
  moreover have "cov (map snd (Dl @ M @ Rl)) x = want x" for x
    using cov_between [OF D R m c', of x] assms(8) [of x] by simp
  moreover have "\<forall>n \<in> set M. key n = k \<and> fl_type (snd n) \<in> {F_RDLCK, F_WRLCK}"
    using assms(1) by (auto simp: caller_node_def split: if_splits)
  ultimately show ?thesis using assms(7) unfolding good_end_def by (metis Un_iff set_append)
qed

lemma cut_left_frame:
  assumes "left_inv sc D" and "distinct (map fst (A @ D @ B))"
  shows "cut_left sc (s_left sc) (A @ D @ B) = A @ cut_left sc (s_left sc) D @ B"
proof (cases "s_left sc")
  case None
  then show ?thesis by (simp add: cut_left_def)
next
  case (Some l)
  then have "l \<in> fst ` set D" using assms(1) by (force simp: left_inv_def)
  then have "l \<notin> fst ` set A" "l \<notin> fst ` set B" using assms(2) by auto
  then show ?thesis by (simp add: cut_left_def Some)
qed

lemma want_outside:
  assumes inv: "scan_inv pre P k t want sc D R"
    and "\<And>x. \<not> in_lock (s_caller sc) x \<Longrightarrow> cov (map snd (Dl @ Rl)) x = cov (map snd (D @ R)) x"
  shows "want x = (if in_lock (s_caller sc) x then granted t else cov (map snd (Dl @ Rl)) x)"
  using inv_want [OF inv, of x] assms(2) [of x] by auto

lemma cov_cong:
  "cov (map snd A) x = cov (map snd A') x \<Longrightarrow> cov (map snd B) x = cov (map snd B') x \<Longrightarrow>
   cov (map snd (A @ B)) x = cov (map snd (A' @ B')) x"
  by (simp add: cov_append split: option.split)

lemma same_kinds:
  assumes "map key A = map key B" "map (fl_type \<circ> snd) A = map (fl_type \<circ> snd) B"
    and "\<forall>n \<in> set B. key n = k \<and> fl_type (snd n) \<in> T"
  shows "\<forall>n \<in> set A. key n = k \<and> fl_type (snd n) \<in> T"
proof
  fix n assume "n \<in> set A"
  then have "key n \<in> set (map key B)" "(fl_type \<circ> snd) n \<in> set (map (fl_type \<circ> snd) B)"
    unfolding assms(1,2) [symmetric] by auto
  with assms(3) show "key n = k \<and> fl_type (snd n) \<in> T" by auto
qed

lemma finish_no_right:
  assumes inv: "scan_inv pre P k t want sc D R" and right: "s_right sc = None" and left: "left_inv sc D"
    and above: "\<forall>n \<in> set R. fl_end (s_caller sc) < fl_start (snd n)"
    and m: "caller_node t k (s_caller sc) (cnode sc @ mid)"
    and d: "distinct (map fst (pre @ D @ cnode sc @ mid @ R @ P))"
  shows "\<exists>F w. lock_finish cur fd sc mid (R @ P) free =
      Some \<lparr>r_error = None, r_locks = pre @ F @ P, r_free = free, r_woken = w\<rparr> \<and>
    good_end F k want \<and> map fst F = map fst (D @ cnode sc @ mid @ R)"
proof -
  define D2 where D2: "D2 = cut_left sc (s_left sc) D"
  have base: "s_done sc = pre @ D @ cnode sc" "ok_lock (s_caller sc)"
    "\<forall>n \<in> set D \<union> set R. key n = k \<and> fl_type (snd n) \<in> {F_RDLCK, F_WRLCK}"
    using inv_base [OF inv] by (simp_all add: scan_base_def)
  have sp: "sep (map snd D)" "sep (map snd R)" using inv_sep [OF inv] by (simp_all add: sep_append)
  have dD: "distinct (map fst D)" using d by simp
  note cp = cut_left_props [OF left sp(1) dD base(2) D2]
  have "cut_left sc (s_left sc) (pre @ D @ (cnode sc @ mid @ R @ P)) = pre @ D2 @ (cnode sc @ mid @ R @ P)"
    unfolding D2 by (rule cut_left_frame [OF left]) (use d in simp)
  then have "lock_finish cur fd sc mid (R @ P) free =
      Some \<lparr>r_error = None, r_locks = pre @ (D2 @ (cnode sc @ mid) @ R) @ P, r_free = free, r_woken = s_woken sc\<rparr>"
    by (simp add: lock_finish_def right base(1))
  moreover have "good_end (D2 @ (cnode sc @ mid) @ R) k want"
  proof (rule good_endI [OF m base(2) cp(1,2) sp(2) above])
    have "\<forall>n \<in> set D2. key n = k \<and> fl_type (snd n) \<in> {F_RDLCK, F_WRLCK}"
      by (rule same_kinds [OF cp(4,5)]) (use base(3) in blast)
    then show "\<forall>n \<in> set (D2 @ R). key n = k \<and> fl_type (snd n) \<in> {F_RDLCK, F_WRLCK}"
      using base(3) by auto
    show "want x = (if in_lock (s_caller sc) x then granted t else cov (map snd (D2 @ R)) x)" for x
      by (rule want_outside [OF inv]) (intro cov_cong cp(6) refl)
  qed
  ultimately show ?thesis using cp(3) by auto
qed

lemma finish_right:
  assumes inv: "scan_inv pre P k t want sc D ((i, f) # R)" and right: "s_right sc = Some i" and left: "left_inv sc D"
    and e: "fl_start f \<le> fl_end (s_caller sc)" "fl_end (s_caller sc) < fl_end f" "fl_start (s_caller sc) \<le> fl_start f"
    and m: "caller_node t k (s_caller sc) (cnode sc @ mid)"
    and d: "distinct (map fst (pre @ D @ cnode sc @ mid @ ((i, f) # R) @ P))"
  shows "\<exists>F w. lock_finish cur fd sc mid (((i, f) # R) @ P) free =
      Some \<lparr>r_error = None, r_locks = pre @ F @ P, r_free = free, r_woken = w\<rparr> \<and>
    good_end F k want \<and> map fst F = map fst (D @ cnode sc @ mid @ ((i, f) # R))"
proof -
  define D2 where D2: "D2 = cut_left sc (s_left sc) D"
  define R2 where R2: "R2 = (i, f\<lparr>fl_start := fl_end (s_caller sc) + 1\<rparr>) # R"
  have base: "s_done sc = pre @ D @ cnode sc" "ok_lock (s_caller sc)"
    "\<forall>n \<in> set D \<union> set ((i, f) # R). key n = k \<and> fl_type (snd n) \<in> {F_RDLCK, F_WRLCK}"
    using inv_base [OF inv] by (simp_all add: scan_base_def)
  have sp: "sep (map snd D)" "sep (map snd ((i, f) # R))" using inv_sep [OF inv] by (simp_all add: sep_append)
  have dD: "distinct (map fst D)" using d by simp
  note cp = cut_left_props [OF left sp(1) dD base(2) D2]
  note cr = cut_right_props [OF sp(2) e(2,1) base(2) refl, folded R2]
  have w: "s32 (fl_end (s_caller sc) + 1) = fl_end (s_caller sc) + 1"
    using base(2) e(2) sp(2) by (intro s32_id) (auto simp: ok_lock_def sep_Cons OFFSET_MAX_def)
  have nl: "s_left sc \<noteq> Some i" using left d by (force simp: left_inv_def)
  have "cut_right sc i (pre @ D @ cnode sc @ mid @ ((i, f) # R) @ P) = pre @ D @ (cnode sc @ mid @ R2 @ P)"
    using d by (simp add: cut_right_def R2 w)
  moreover have "cut_left sc (s_left sc) (pre @ D @ (cnode sc @ mid @ R2 @ P)) = pre @ D2 @ (cnode sc @ mid @ R2 @ P)"
    unfolding D2 by (rule cut_left_frame [OF left]) (use d in \<open>simp add: R2\<close>)
  ultimately have "lock_finish cur fd sc mid (((i, f) # R) @ P) free =
      Some \<lparr>r_error = None, r_locks = pre @ (D2 @ (cnode sc @ mid) @ R2) @ P, r_free = free, r_woken = s_woken sc\<rparr>"
    using nl by (simp add: lock_finish_def right base(1))
  moreover have "good_end (D2 @ (cnode sc @ mid) @ R2) k want"
  proof (rule good_endI [OF m base(2) cp(1,2) cr(1,2)])
    have "\<forall>n \<in> set D2. key n = k \<and> fl_type (snd n) \<in> {F_RDLCK, F_WRLCK}"
      by (rule same_kinds [OF cp(4,5)]) (use base(3) in blast)
    then show "\<forall>n \<in> set (D2 @ R2). key n = k \<and> fl_type (snd n) \<in> {F_RDLCK, F_WRLCK}"
      using base(3) by (auto simp: R2 key_def)
    show "want x = (if in_lock (s_caller sc) x then granted t else cov (map snd (D2 @ R2)) x)" for x
      by (rule want_outside [OF inv]) (intro cov_cong cp(6) cr(3) e(3))
  qed
  moreover have "map fst (D2 @ (cnode sc @ mid) @ R2) = map fst (D @ cnode sc @ mid @ ((i, f) # R))"
    using cp(3) by (simp add: R2)
  ultimately show ?thesis by blast
qed

lemma cov_split:
  assumes "\<not> in_lock c x" "fl_start f < fl_start c" "fl_end c < fl_end f" "ok_lock c"
    and "fl_start f1 = fl_start f" "fl_end f1 = fl_start c - 1" "fl_type f1 = fl_type f"
    and "fl_start f2 = fl_end c + 1" "fl_end f2 = fl_end f" "fl_type f2 = fl_type f"
  shows "cov (fs @ f1 # f2 # gs) x = cov (fs @ f # gs) x"
  using assms by (auto simp: cov_append in_lock_def ok_lock_def split: option.split)

lemma finish_split:
  assumes inv: "scan_inv pre P k t want sc D ((i, f) # R)" and right: "s_right sc = Some i" and left: "s_left sc = Some i"
    and below: "\<forall>n \<in> set D. fl_end (snd n) < fl_start (s_caller sc)" and cr: "s_cref sc = None"
    and e: "fl_start f \<le> fl_end (s_caller sc)" "fl_end (s_caller sc) < fl_end f" "fl_start f < fl_start (s_caller sc)"
    and m: "caller_node t k (s_caller sc) mid" and k: "k = (Some (pid cur), fd)"
    and free: "free = (l, tmp) # free'" "fl_owner tmp = None"
    and d: "distinct (map fst (pre @ D @ mid @ ((i, f) # R) @ P @ free))"
  shows "\<exists>F w. lock_finish cur fd sc mid (((i, f) # R) @ P) free =
      Some \<lparr>r_error = None, r_locks = pre @ F @ P, r_free = free', r_woken = w\<rparr> \<and>
    good_end F k want \<and> map fst F = map fst (D @ (l, tmp) # mid @ ((i, f) # R))"
proof -
  define f1 where f1: "f1 = f\<lparr>fl_owner := Some (pid cur), fl_fd := fd, fl_wait := [], fl_end := fl_start (s_caller sc) - 1\<rparr>"
  define D2 where D2: "D2 = D @ [(l, f1)]"
  define R2 where R2: "R2 = (i, f\<lparr>fl_start := fl_end (s_caller sc) + 1\<rparr>) # R"
  have base: "s_done sc = pre @ D" "ok_lock (s_caller sc)"
    "\<forall>n \<in> set D \<union> set ((i, f) # R). key n = k \<and> fl_type (snd n) \<in> {F_RDLCK, F_WRLCK}"
    using inv_base [OF inv] cr by (simp_all add: scan_base_def cnode_def)
  have sp: "sep (map snd D)" "sep (map snd ((i, f) # R))" "\<forall>n \<in> set D. fl_end (snd n) < fl_start f"
    using inv_sep [OF inv] by (auto simp: sep_append)
  note rp = cut_right_props [OF sp(2) e(2,1) base(2) refl, folded R2]
  have w: "s32 (fl_end (s_caller sc) + 1) = fl_end (s_caller sc) + 1"
      "s32 (fl_start (s_caller sc) - 1) = fl_start (s_caller sc) - 1"
    using base(2) e(2) sp(2) by (auto simp: ok_lock_def sep_Cons OFFSET_MAX_def intro!: s32_id)
  have okf: "ok_lock f" using sp(2) by (simp add: sep_Cons)
  have "lock_finish cur fd sc mid (((i, f) # R) @ P) free =
      Some \<lparr>r_error = None, r_locks = pre @ (D2 @ mid @ R2) @ P, r_free = free', r_woken = s_woken sc\<rparr>"
    using d by (simp add: lock_finish_def right left free base(1) cut_left_def cut_right_def w D2 R2 f1)
  moreover have "good_end (D2 @ mid @ R2) k want"
  proof (rule good_endI [OF m base(2) _ _ rp(1,2)])
    have "ok_lock f1" using okf e base(2) by (auto simp: f1 ok_lock_def)
    then show "sep (map snd D2)" using sp(1,3) by (auto simp: D2 sep_append sep_Cons f1)
    show "\<forall>n \<in> set D2. fl_end (snd n) < fl_start (s_caller sc)" using below by (auto simp: D2 f1)
    show "\<forall>n \<in> set (D2 @ R2). key n = k \<and> fl_type (snd n) \<in> {F_RDLCK, F_WRLCK}"
      using base(3) k by (auto simp: D2 R2 f1 key_def)
    show "want x = (if in_lock (s_caller sc) x then granted t else cov (map snd (D2 @ R2)) x)" for x
    proof (rule want_outside [OF inv])
      fix x assume "\<not> in_lock (s_caller sc) x"
      from cov_split [OF this e(3,2) base(2), of f1 "f\<lparr>fl_start := fl_end (s_caller sc) + 1\<rparr>" "map snd D" "map snd R"]
      show "cov (map snd (D2 @ R2)) x = cov (map snd (D @ (i, f) # R)) x"
        by (simp add: D2 R2 f1)
    qed
  qed
  moreover have "map fst (D2 @ mid @ R2) = map fst (D @ (l, tmp) # mid @ ((i, f) # R))"
    by (simp add: D2 R2)
  ultimately show ?thesis by blast
qed

text \<open>The two ways \<open>lock_finish\<close> ends.\<close>

definition no_owner :: "node list \<Rightarrow> bool" where
  "no_owner free \<longleftrightarrow> (\<forall>n \<in> set free. fl_owner (snd n) = None)"

lemma lock_finish_spec:
  assumes inv: "scan_inv pre P k t want sc D R" and ex: "exit_ok sc D R"
    and m: "caller_node t k (s_caller sc) (cnode sc @ mid)" and k: "k = (Some (pid cur), fd)"
    and d: "distinct (map fst (pre @ D @ cnode sc @ mid @ R @ P @ free))" and fr: "no_owner free"
    and mid: "length mid \<le> 1" "\<forall>n \<in> set mid. fl_owner (snd n) \<noteq> None"
  shows "\<exists>r. lock_finish cur fd sc mid (R @ P) free = Some r \<and> no_owner (r_free r) \<and>
    (if r_error r = None
     then \<exists>F. r_locks r = pre @ F @ P \<and> good_end F k want \<and>
       mset (map fst (F @ r_free r)) = mset (map fst (D @ cnode sc @ mid @ R @ free))
     else r_error r = Some ENOLCK \<and> free = [] \<and> r_locks r = s_done sc @ R @ P \<and>
       mset (map fst (r_free r)) = mset (map fst mid))"
proof -
  have d': "distinct (map fst (pre @ D @ cnode sc @ mid @ R @ P))" using d by auto
  consider (none) "s_right sc = None" "left_inv sc D" "\<forall>n \<in> set R. fl_end (s_caller sc) < fl_start (snd n)"
    | (right) i f R' where "R = (i, f) # R'" "s_right sc = Some i" "fl_start f \<le> fl_end (s_caller sc)"
        "fl_end (s_caller sc) < fl_end f" "fl_start (s_caller sc) \<le> fl_start f" "left_inv sc D"
    | (split) i f R' where "R = (i, f) # R'" "s_right sc = Some i" "fl_start f \<le> fl_end (s_caller sc)"
        "fl_end (s_caller sc) < fl_end f" "fl_start f < fl_start (s_caller sc)" "s_left sc = Some i" "s_cref sc = None"
        "\<forall>n \<in> set D. fl_end (snd n) < fl_start (s_caller sc)"
    using ex unfolding exit_ok_def by (metis not_less)
  then show ?thesis
  proof cases
    case none
    from finish_no_right [OF inv none m d', of cur fd free] show ?thesis
      by (elim exE conjE) (intro exI conjI, assumption, use fr in \<open>auto simp flip: mset_map\<close>)
  next
    case right
    from finish_right [OF inv [unfolded right(1)] right(2,6,3,4,5) m d' [unfolded right(1)], of cur fd free]
    show ?thesis unfolding right(1)
      by (elim exE conjE) (intro exI conjI, assumption, use fr in \<open>auto simp flip: mset_map\<close>)
  next
    case split
    then have cn: "cnode sc = []" by (simp add: cnode_def)
    show ?thesis
    proof (cases free)
      case Nil
      have rest: "map_of (((i, f) # R') @ P) i = Some f" by simp
      show ?thesis
      proof (cases mid)
        case Nil
        with split \<open>free = []\<close> show ?thesis by (simp add: lock_finish_def no_owner_def)
      next
        case (Cons n ms)
        with mid have "ms = []" "fl_owner (snd n) \<noteq> None" by auto
        with Cons split \<open>free = []\<close> show ?thesis by (auto simp: lock_finish_def no_owner_def free_lock_def)
      qed
    next
      case (Cons l free')
      obtain j tmp where l: "l = (j, tmp)" by (cases l)
      have o: "fl_owner tmp = None" using fr Cons l by (simp add: no_owner_def)
      have m': "caller_node t k (s_caller sc) mid" and d2: "distinct (map fst (pre @ D @ mid @ ((i, f) # R') @ P @ free))"
        using m d by (simp_all add: cn split(1))
      from finish_split [OF inv [unfolded split(1)] split(2,6,8,7,3,4,5) m' k Cons [unfolded l] o d2]
      show ?thesis unfolding split(1) cn
        by (elim exE conjE) (intro exI conjI, assumption, use fr Cons l in \<open>auto simp: no_owner_def simp flip: mset_map\<close>)
    qed
  qed
qed

end
