(* ===== verification/Locks_Props.thy ===== *)
theory Locks_Props
  imports Locks_Scan
begin

text \<open>
  Correctness of fs/locks.c: well-formed lock lists, \<open>lock_it\<close> on every branch, mutual exclusion,
  and the system calls built on it.
\<close>

section \<open>When nothing changes\<close>

text \<open>When the caller breaks one lock in two, the scan has changed nothing before it.\<close>

lemma step_past:
  "lock_step sc i fl = Some (Continue sc') \<Longrightarrow> fl_start (s_caller sc) \<le> fl_start fl \<Longrightarrow>
   s_left sc' = s_left sc \<and> fl_start (s_caller sc') \<le> fl_start (s_caller sc)"
  "lock_step sc i fl = Some (Break sc') \<Longrightarrow> fl_start (s_caller sc) \<le> fl_start fl \<Longrightarrow> s_left sc' = s_left sc"
  by (auto simp: lock_step_def Let_def next_lock_def put_caller_def scan_free_def split: if_splits option.splits)

lemma step_other_Break:
  "lock_step sc i fl = Some (Continue sc') \<Longrightarrow>
   key (i, fl) = (fl_owner (s_caller sc), fl_fd (s_caller sc)) \<and>
   (fl_owner (s_caller sc'), fl_fd (s_caller sc')) = (fl_owner (s_caller sc), fl_fd (s_caller sc))"
  "lock_step sc i fl = Some (Break sc') \<Longrightarrow>
   key (i, fl) = (fl_owner (s_caller sc), fl_fd (s_caller sc)) \<or> sc' = sc"
  by (auto simp: lock_step_def Let_def next_lock_def put_caller_def scan_free_def key_def split: if_splits option.splits)

lemma step_right_frame:
  "lock_step sc i fl = Some (Continue sc') \<Longrightarrow> s_right sc' = s_right sc"
  "lock_step sc i fl = Some (Break sc') \<Longrightarrow> s_right sc' \<in> {s_right sc, Some i}"
  by (auto simp: lock_step_def Let_def next_lock_def put_caller_def scan_free_def split: if_splits option.splits)

lemma scan_right_frame:
  "lock_scan sc xs = Some (sc', ys) \<Longrightarrow> s_right sc' = s_right sc \<or> s_right sc' \<in> Some ` fst ` set xs"
proof (induction sc xs rule: lock_scan.induct)
  case (2 sc i fl rest)
  then show ?case
    by (auto simp: lock_scan.simps(2) split: option.splits step.splits dest: step_right_frame)
qed simp

lemma scan_past:
  "lock_scan sc xs = Some (sc', ys) \<Longrightarrow>
   \<forall>n \<in> set xs. key n = (fl_owner (s_caller sc), fl_fd (s_caller sc)) \<longrightarrow> fl_start (s_caller sc) \<le> fl_start (snd n) \<Longrightarrow>
   s_left sc' = s_left sc"
proof (induction sc xs rule: lock_scan.induct)
  case (2 sc i fl rest)
  show ?case
  proof (cases "lock_step sc i fl")
    case (Some st)
    show ?thesis
    proof (cases st)
      case (Break sc1)
      with 2(2,3) Some step_past(2) [of sc i fl sc1] step_other_Break(2) [of sc i fl sc1] show ?thesis
        by (auto simp: lock_scan.simps(2))
    next
      case (Continue sc1)
      note st = Some [unfolded Continue]
      have k: "fl_start (s_caller sc) \<le> fl_start fl" using 2(3) step_other_Break(1) [OF st] by auto
      have "s_left sc' = s_left sc1"
        using 2(2,3) step_past(1) [OF st k] step_other_Break(1) [OF st]
        by (intro 2(1) [OF Some Continue]) (force simp: lock_scan.simps(2) st)+
      with step_past(1) [OF st k] show ?thesis by simp
    qed
  qed (use 2 in \<open>simp add: lock_scan.simps(2)\<close>)
qed simp

lemma step_plain:
  "lock_step sc i fl = Some (Continue sc') \<Longrightarrow> ok_lock (s_caller sc) \<Longrightarrow> ok_lock fl \<Longrightarrow>
   sc' = next_lock (i, fl) sc \<or>
   fl_start (s_caller sc') \<le> fl_end fl + 1 \<and> s_left sc' \<in> {s_left sc, Some i}"
  by (auto simp: lock_step_def Let_def next_lock_def put_caller_def scan_free_def ok_lock_def OFFSET_MAX_def
      s32_id split: if_splits option.splits)

definition mine_sep :: "scan \<Rightarrow> node list \<Rightarrow> bool" where
  "mine_sep sc xs \<longleftrightarrow>
     sep (map snd (filter (\<lambda>n. key n = (fl_owner (s_caller sc), fl_fd (s_caller sc))) xs))"

lemma scan_split_untouched:
  "lock_scan sc xs = Some (sc', ys) \<Longrightarrow> ok_lock (s_caller sc) \<Longrightarrow> mine_sep sc xs \<Longrightarrow>
   s_left sc = None \<Longrightarrow> s_right sc = None \<Longrightarrow> distinct (map fst xs) \<Longrightarrow>
   s_right sc' = Some r \<Longrightarrow> s_left sc' = Some r \<Longrightarrow>
   s_done sc' @ ys = s_done sc @ xs \<and> s_free sc' = s_free sc"
proof (induction sc xs rule: lock_scan.induct)
  case (2 sc i fl rest)
  show ?case
  proof (cases "lock_step sc i fl")
    case (Some st)
    show ?thesis
    proof (cases st)
      case (Break sc1)
      with 2(2) Some lock_step_frame(1) [of sc i fl sc1] show ?thesis by (simp add: lock_scan.simps(2))
    next
      case (Continue sc1)
      note st = Some [unfolded Continue]
      have k: "key (i, fl) = (fl_owner (s_caller sc), fl_fd (s_caller sc))" using step_other_Break(1) [OF st] by simp
      have s: "ok_lock fl" "mine_sep sc rest"
          "\<forall>n \<in> set rest. key n = key (i, fl) \<longrightarrow> fl_end fl < fl_start (snd n)"
        using 2(4) k by (auto simp: mine_sep_def sep_Cons)
      have scan: "lock_scan sc1 rest = Some (sc', ys)" using 2(2) by (simp add: lock_scan.simps(2) st)
      from step_plain [OF st 2(3) s(1)] show ?thesis
      proof
        assume p: "sc1 = next_lock (i, fl) sc"
        with 2(3,5-9) s(2) have "s_done sc' @ ys = s_done sc1 @ rest \<and> s_free sc' = s_free sc1"
          by (intro 2(1) [OF Some Continue scan]) (simp_all add: next_lock_def mine_sep_def)
        with p show ?thesis by (simp add: next_lock_def)
      next
        assume p: "fl_start (s_caller sc1) \<le> fl_end fl + 1 \<and> s_left sc1 \<in> {s_left sc, Some i}"
        have "s_left sc' = s_left sc1"
          using s(3) p step_other_Break(1) [OF st] k by (intro scan_past [OF scan]) force
        moreover have "s_right sc' \<in> Some ` fst ` set rest"
          using scan_right_frame [OF scan] step_right_frame(1) [OF st] 2(6,8) by simp
        ultimately show ?thesis using p 2(5,7-9) by force
      qed
    qed
  qed (use 2 in \<open>simp add: lock_scan.simps(2)\<close>)
qed simp

text \<open>An unlock that found nothing has passed the whole range.\<close>

lemma step_unlock_none:
  "lock_step sc i fl \<in> {Some (Continue sc'), Some (Break sc')} \<Longrightarrow> fl_type (s_caller sc') = F_UNLCK \<Longrightarrow> \<not> s_added sc' \<Longrightarrow>
   s_left sc = None \<Longrightarrow> s_right sc = None \<Longrightarrow> s_left sc' = None \<and> s_right sc' = None"
  by (auto simp: lock_step_def Let_def next_lock_def put_caller_def scan_free_def split: if_splits option.splits)

lemma scan_unlock_none:
  "lock_scan sc xs = Some (sc', ys) \<Longrightarrow> fl_type (s_caller sc') = F_UNLCK \<Longrightarrow> \<not> s_added sc' \<Longrightarrow>
   s_left sc = None \<Longrightarrow> s_right sc = None \<Longrightarrow> s_left sc' = None \<and> s_right sc' = None"
proof (induction sc xs rule: lock_scan.induct)
  case (2 sc i fl rest)
  show ?case
  proof (cases "lock_step sc i fl")
    case (Some st)
    show ?thesis
    proof (cases st)
      case (Break sc1)
      with 2(2-) Some step_unlock_none [of sc i fl sc1] show ?thesis by (simp add: lock_scan.simps(2))
    next
      case (Continue sc1)
      note st = Some [unfolded Continue]
      have scan: "lock_scan sc1 rest = Some (sc', ys)" using 2(2) by (simp add: lock_scan.simps(2) st)
      from lock_scan_untouched [OF this 2(4)] 2(3-6) step_unlock_none [of sc i fl sc1] st
      have "s_left sc1 = None \<and> s_right sc1 = None" by simp
      with 2(1) [OF Some Continue scan 2(3,4)] show ?thesis by simp
    qed
  qed (use 2 in \<open>simp add: lock_scan.simps(2)\<close>)
qed simp

section \<open>Well-formed lock lists\<close>

text \<open>Equal keys stand next to each other.\<close>

fun grouped :: "'k list \<Rightarrow> bool" where
  "grouped [] = True"
| "grouped (k # ks) = (((ks \<noteq> [] \<and> hd ks = k) \<or> k \<notin> set ks) \<and> grouped ks)"

lemma grouped_append: "grouped (A @ B) \<Longrightarrow> grouped B"
  by (induction A) auto

lemma grouped_run: "grouped (k # ks) \<Longrightarrow> k \<notin> set (dropWhile (\<lambda>x. x = k) ks)"
  by (induction ks) (auto dest: set_dropWhileD)

lemma grouped_disjoint: "set A \<inter> set B = {} \<Longrightarrow> grouped (A @ B) \<longleftrightarrow> grouped A \<and> grouped B"
proof (induction A)
  case (Cons a A)
  have "hd (A @ B) = a \<and> A @ B \<noteq> [] \<longleftrightarrow> hd A = a \<and> A \<noteq> []"
    using Cons(2) by (cases A; cases B) auto
  with Cons show ?case by auto
qed simp

lemma grouped_const: "set F \<subseteq> {k} \<Longrightarrow> grouped F"
proof (induction F)
  case (Cons a F)
  then show ?case by (cases F) auto
qed simp

lemma grouped_apart:
  "grouped (A @ G @ B) \<Longrightarrow> G \<noteq> [] \<Longrightarrow> set G \<subseteq> {k} \<Longrightarrow> k \<notin> set A \<Longrightarrow> k \<notin> set B \<Longrightarrow> set A \<inter> set B = {}"
proof (induction A)
  case (Cons a A)
  then have ih: "set A \<inter> set B = {}" by simp
  have "hd (G @ B) = k" using Cons(3,4) by (cases G) auto
  then have "a \<in> set A \<or> a \<notin> set (A @ G @ B)" using Cons(2,5) by (cases A) auto
  with ih show ?case by auto
qed simp

lemma grouped_replace:
  assumes g: "grouped (A @ G @ B)" and k: "k \<notin> set A" "k \<notin> set B" "set G \<subseteq> {k}" "set F \<subseteq> {k}"
    and e: "G = [] \<Longrightarrow> B = []"
  shows "grouped (A @ F @ B)"
proof -
  have "set A \<inter> set B = {}" using grouped_apart [OF g _ k(3,1,2)] e by (cases "G = []") auto
  then have dF: "set A \<inter> set (F @ B) = {}" and dG: "set A \<inter> set (G @ B) = {}"
    and "set F \<inter> set B = {}" using k by auto
  moreover from g dG have "grouped A" "grouped (G @ B)" by (simp_all add: grouped_disjoint)
  ultimately show ?thesis
    using grouped_append [of G B] grouped_const [OF k(4)] by (simp add: grouped_disjoint)
qed

definition locks_of :: "int option \<times> int \<Rightarrow> node list \<Rightarrow> file_lock list" where
  "locks_of k xs = map snd (filter (\<lambda>n. key n = k) xs)"

definition held :: "node list \<Rightarrow> int option \<times> int \<Rightarrow> int \<Rightarrow> int option" where
  "held xs k x = cov (locks_of k xs) x"

definition wf_locks :: "node list \<Rightarrow> node list \<Rightarrow> bool" where
  "wf_locks xs free \<longleftrightarrow> grouped (map key xs) \<and> (\<forall>k \<in> set (map key xs). sep (locks_of k xs)) \<and>
     (\<forall>n \<in> set xs. fl_owner (snd n) \<noteq> None \<and> fl_type (snd n) \<in> {F_RDLCK, F_WRLCK}) \<and>
     distinct (map fst (xs @ free)) \<and> no_owner free"

lemma locks_of_none: "k \<notin> set (map key xs) \<Longrightarrow> locks_of k xs = []"
  by (induction xs) (auto simp: locks_of_def)

lemma locks_of_all: "\<forall>n \<in> set xs. key n = k \<Longrightarrow> locks_of k xs = map snd xs"
  by (induction xs) (auto simp: locks_of_def)

lemma locks_of_append [simp]: "locks_of k (xs @ ys) = locks_of k xs @ locks_of k ys"
  by (simp add: locks_of_def)

lemma wf_sep: "wf_locks xs free \<Longrightarrow> sep (locks_of k xs)"
  by (cases "k \<in> set (map key xs)") (auto simp: wf_locks_def locks_of_none)

text \<open>The run of locks of one owner and descriptor, and what comes before and after it.\<close>

definition before_run :: "int option \<times> int \<Rightarrow> node list \<Rightarrow> node list" where
  "before_run k xs = takeWhile (\<lambda>n. key n \<noteq> k) xs"
definition the_run :: "int option \<times> int \<Rightarrow> node list \<Rightarrow> node list" where
  "the_run k xs = takeWhile (\<lambda>n. key n = k) (dropWhile (\<lambda>n. key n \<noteq> k) xs)"
definition after_run :: "int option \<times> int \<Rightarrow> node list \<Rightarrow> node list" where
  "after_run k xs = dropWhile (\<lambda>n. key n = k) (dropWhile (\<lambda>n. key n \<noteq> k) xs)"

lemma run_split: "before_run k xs @ the_run k xs @ after_run k xs = xs"
  by (simp add: before_run_def the_run_def after_run_def)

lemma run_rest: "the_run k xs @ after_run k xs = dropWhile (\<lambda>n. key n \<noteq> k) xs"
  by (simp add: the_run_def after_run_def)

lemma run_keys:
  "k \<notin> set (map key (before_run k xs))" "\<forall>n \<in> set (the_run k xs). key n = k"
  by (auto simp: before_run_def the_run_def dest: set_takeWhileD)

lemma after_run_hd: "after_run k xs = [] \<or> key (hd (after_run k xs)) \<noteq> k"
  unfolding after_run_def using hd_dropWhile [of "\<lambda>n. key n = k" "dropWhile (\<lambda>n. key n \<noteq> k) xs"] by blast

lemma the_run_empty: "the_run k xs = [] \<Longrightarrow> after_run k xs = []"
proof (cases "dropWhile (\<lambda>n. key n \<noteq> k) xs")
  case (Cons n ns)
  have "key n = k" using hd_dropWhile [of "\<lambda>n. key n \<noteq> k" xs] by (simp add: Cons)
  then show "the_run k xs = [] \<Longrightarrow> ?thesis" by (simp add: the_run_def Cons)
next
  case Nil
  then show ?thesis unfolding after_run_def Nil by simp
qed

lemma after_run_keys:
  assumes "grouped (map key xs)"
  shows "k \<notin> set (map key (after_run k xs))"
proof (cases "dropWhile (\<lambda>n. key n \<noteq> k) xs")
  case (Cons n ns)
  have k: "key n = k" using hd_dropWhile [of "\<lambda>n. key n \<noteq> k" xs] by (simp add: Cons)
  have "grouped (map key (takeWhile (\<lambda>n. key n \<noteq> k) xs) @ map key (dropWhile (\<lambda>n. key n \<noteq> k) xs))"
    unfolding map_append [symmetric] takeWhile_dropWhile_id by (rule assms)
  then have "grouped (map key (n # ns))" using Cons grouped_append by metis
  from grouped_run [OF this [unfolded list.map]] k show ?thesis
    by (simp add: after_run_def Cons dropWhile_map comp_def)
next
  case Nil
  then show ?thesis unfolding after_run_def Nil by simp
qed

lemma run_locks:
  "grouped (map key xs) \<Longrightarrow> locks_of k xs = map snd (the_run k xs)"
  using run_split [of k xs] run_keys [of k xs] after_run_keys [of xs k]
  by (metis append_Nil append_Nil2 locks_of_all locks_of_append locks_of_none)

text \<open>What a call of \<open>lock_it\<close> must be given: the lock \<open>copy_flock\<close> makes for the current task.\<close>

definition ok_caller :: "task \<Rightarrow> int \<Rightarrow> file_lock \<Rightarrow> bool" where
  "ok_caller cur fd c \<longleftrightarrow> fl_owner c = Some (pid cur) \<and> fl_fd c = fd \<and> ok_lock c \<and>
     (fl_type c = F_UNLCK \<or> fl_type c \<in> {F_RDLCK, F_WRLCK} \<and> fl_end c < OFFSET_MAX)"

definition wanted :: "file_lock \<Rightarrow> node list \<Rightarrow> int \<Rightarrow> int option" where
  "wanted c G x = (if in_lock c x then granted (fl_type c) else cov (map snd G) x)"

definition scan0 :: "node list \<Rightarrow> file_lock \<Rightarrow> node list \<Rightarrow> scan" where
  "scan0 pre c free = \<lparr>s_done = pre, s_caller = c, s_cref = None, s_left = None, s_right = None,
     s_added = False, s_free = free, s_woken = []\<rparr>"

lemma scan0_inv:
  assumes wf: "wf_locks xs free" and c: "ok_caller cur fd c" and k: "k = (Some (pid cur), fd)"
  shows "scan_inv (before_run k xs) (after_run k xs) k (fl_type c) (wanted c (the_run k xs))
           (scan0 (before_run k xs) c free) [] (the_run k xs)"
proof (rule scan_invI)
  have "set (the_run k xs) \<subseteq> set xs" using run_split [of k xs] by (metis set_append Un_upper1 Un_upper2 subset_trans)
  then have "\<forall>n \<in> set (the_run k xs). key n = k \<and> fl_type (snd n) \<in> {F_RDLCK, F_WRLCK}"
    using wf run_keys(2) [of k xs] by (auto simp: wf_locks_def)
  then show "scan_base (before_run k xs) k (fl_type c) (scan0 (before_run k xs) c free) [] (the_run k xs)"
    using c k by (auto simp: scan_base_def scan0_def cnode_def ok_caller_def)
  show "sep (map snd ([] @ the_run k xs))"
    using wf_sep [OF wf, of k] wf by (simp add: run_locks wf_locks_def)
  have "distinct (map fst ((before_run k xs @ the_run k xs @ after_run k xs) @ free))"
    using wf unfolding run_split by (simp add: wf_locks_def)
  then show "distinct (map fst (before_run k xs @ [] @ cnode (scan0 (before_run k xs) c free) @
      the_run k xs @ after_run k xs @ s_free (scan0 (before_run k xs) c free)))"
    by (simp add: scan0_def cnode_def)
qed (simp add: wanted_def scan0_def)

lemma lock_it_unfold:
  assumes c: "ok_caller cur fd c" and k: "k = (Some (pid cur), fd)"
  shows "lock_it cur fd c xs free =
    (case lock_scan (scan0 (before_run k xs) c free) (the_run k xs @ after_run k xs) of
       None \<Rightarrow> None
     | Some (sc, rest) \<Rightarrow>
         if s_added sc then lock_finish cur fd sc [] rest (s_free sc)
         else if fl_type (s_caller sc) = F_UNLCK
         then Some \<lparr>r_error = Some EINVAL, r_locks = s_done sc @ rest, r_free = s_free sc, r_woken = s_woken sc\<rparr>
         else (case s_free sc of
                 [] \<Rightarrow> Some \<lparr>r_error = Some ENOLCK, r_locks = s_done sc @ rest, r_free = [], r_woken = s_woken sc\<rparr>
               | (m, tmp) # free' \<Rightarrow>
                   if fl_owner tmp \<noteq> None then None
                   else lock_finish cur fd sc
                     [(m, (s_caller sc)\<lparr>fl_owner := Some (pid cur), fl_fd := fd, fl_wait := []\<rparr>)] rest free'))"
proof -
  have o: "(\<lambda>(i, fl). fl_owner c \<noteq> fl_owner fl \<or> fl_fd c \<noteq> fl_fd fl) = (\<lambda>n. key n \<noteq> k)"
    using c k by (auto simp: ok_caller_def key_def fun_eq_iff)
  show ?thesis
    unfolding lock_it_def Let_def o run_rest
    by (auto simp: scan0_def before_run_def split: option.split list.split)
qed

definition run_result :: "task \<Rightarrow> int \<Rightarrow> file_lock \<Rightarrow> node list \<Rightarrow> node list \<Rightarrow> lock_result \<Rightarrow> bool" where
  "run_result cur fd c xs free r \<longleftrightarrow>
     (let k = (Some (pid cur), fd)
      in no_owner (r_free r) \<and> mset (map fst (r_locks r @ r_free r)) = mset (map fst (xs @ free)) \<and>
         (if r_error r = None
          then \<exists>F. r_locks r = before_run k xs @ F @ after_run k xs \<and> good_end F k (wanted c (the_run k xs))
          else r_locks r = xs \<and>
            (r_error r = Some ENOLCK \<and> length free \<le> 1 \<or>
             r_error r = Some EINVAL \<and> fl_type c = F_UNLCK \<and>
               (\<forall>x. in_lock c x \<longrightarrow> cov (map snd (the_run k xs)) x = None))))"

text \<open>The part after the scan, when the caller's lock is in place or has just been allocated.\<close>

lemma finish_error:
  "lock_finish cur fd sc mid rest free = Some r \<Longrightarrow> r_error r \<noteq> None \<Longrightarrow>
   \<exists>i. s_right sc = Some i \<and> s_left sc = Some i"
  by (auto simp: lock_finish_def split: option.splits if_splits)

lemma run_finish:
  assumes k: "k = (Some (pid cur), fd)" and xs: "pre = before_run k xs" "P = after_run k xs"
    and inv: "scan_inv pre P k (fl_type c) (wanted c (the_run k xs)) sc D R" and ex: "exit_ok sc D R"
    and ids: "mset (map fst (s_done sc @ R @ P @ s_free sc)) = mset (map fst (xs @ free))"
    and fr: "no_owner (s_free sc)" and keep: "s_free sc = new @ free'" "map fst new = map fst mid" "length mid \<le> 1"
    and m: "caller_node (fl_type c) k (s_caller sc) (cnode sc @ mid)"
    and o: "\<forall>n \<in> set mid. fl_owner (snd n) \<noteq> None"
    and same: "\<And>i. s_right sc = Some i \<Longrightarrow> s_left sc = Some i \<Longrightarrow> s_done sc @ R @ P = xs \<and> s_free sc = free"
  shows "\<exists>r. lock_finish cur fd sc mid (R @ P) free' = Some r \<and> run_result cur fd c xs free r"
proof -
  have dn: "s_done sc = pre @ D @ cnode sc" using inv_base [OF inv] by (simp add: scan_base_def)
  have midids: "mset (map fst (s_free sc)) = mset (map fst (mid @ free'))" using keep by simp
  have "mset (map fst (pre @ D @ cnode sc @ mid @ R @ P @ free')) =
      mset (map fst (pre @ D @ cnode sc @ R @ P @ s_free sc))" using midids by simp
  then have d: "distinct (map fst (pre @ D @ cnode sc @ mid @ R @ P @ free'))"
    using inv_distinct [OF inv] mset_eq_imp_distinct_iff by blast
  have "no_owner free'" using fr keep by (simp add: no_owner_def)
  from lock_finish_spec [OF inv ex m k d this keep(3) o] obtain r
    where r: "lock_finish cur fd sc mid (R @ P) free' = Some r" "no_owner (r_free r)"
      "if r_error r = None
       then \<exists>F. r_locks r = pre @ F @ P \<and> good_end F k (wanted c (the_run k xs)) \<and>
         mset (map fst (F @ r_free r)) = mset (map fst (D @ cnode sc @ mid @ R @ free'))
       else r_error r = Some ENOLCK \<and> free' = [] \<and> r_locks r = s_done sc @ R @ P \<and>
         mset (map fst (r_free r)) = mset (map fst mid)" by blast
  have "run_result cur fd c xs free r"
  proof (cases "r_error r")
    case None
    then obtain F where F: "r_locks r = pre @ F @ P" "good_end F k (wanted c (the_run k xs))"
        "mset (map fst (F @ r_free r)) = mset (map fst (D @ cnode sc @ mid @ R @ free'))"
      using r(3) by auto
    have "mset (map fst (r_locks r @ r_free r)) = mset (map fst (s_done sc @ R @ P @ s_free sc))"
      using F(3) midids by (simp add: F(1) dn)
    with F(2) r(2) None ids show ?thesis
      unfolding run_result_def Let_def k [symmetric] xs [symmetric] by (auto simp: F(1))
  next
    case (Some e)
    with r(3) have e: "r_error r = Some ENOLCK" "free' = []" "r_locks r = s_done sc @ R @ P"
        "mset (map fst (r_free r)) = mset (map fst mid)" by auto
    obtain i where "s_right sc = Some i" "s_left sc = Some i" using finish_error [OF r(1)] Some by auto
    from same [OF this] have u: "s_done sc @ R @ P = xs" "s_free sc = free" by auto
    have "length free \<le> 1" using u(2) keep e(2) by (metis append_Nil2 length_map)
    moreover have "mset (map fst (r_free r)) = mset (map fst free)" using e(2,4) midids u(2) by simp
    ultimately show ?thesis using e u r(2) by (simp add: run_result_def Let_def)
  qed
  with r(1) show ?thesis by blast
qed

lemma scan_nothing_found:
  assumes inv: "scan_inv pre P k F_UNLCK want sc D R" and ex: "exit_ok sc D R"
    and "s_left sc = None" "s_right sc = None" and "in_lock (s_caller sc) x"
  shows "cov (map snd (D @ R)) x = None"
  using assms(3-5) ex by (intro cov_NoneI) (auto simp: exit_ok_def left_inv_def in_lock_def)

lemma run_not_added:
  assumes k: "k = (Some (pid cur), fd)" and xs: "pre = before_run k xs" "P = after_run k xs"
    and inv: "scan_inv pre P k F_UNLCK want sc D R" and ex: "exit_ok sc D R"
    and na: "\<not> s_added sc" "s_left sc = None" "s_right sc = None" "s_caller sc = c" "fl_type c = F_UNLCK"
    and u: "s_done sc @ R @ P = xs" "s_free sc = free" and fr: "no_owner free"
  shows "run_result cur fd c xs free
    \<lparr>r_error = Some EINVAL, r_locks = s_done sc @ R @ P, r_free = s_free sc, r_woken = s_woken sc\<rparr>"
proof -
  have "s_done sc = pre @ D" using inv_base [OF inv] na(1) by (simp add: scan_base_def cnode_def)
  then have "D @ R = the_run k xs" using u(1) run_split [of k xs] xs by (metis append_assoc same_append_eq append_same_eq)
  with scan_nothing_found [OF inv ex na(2,3)] na(4)
  have "\<forall>x. in_lock c x \<longrightarrow> cov (map snd (the_run k xs)) x = None" by metis
  then show ?thesis using u fr na(5) k by (simp add: run_result_def Let_def)
qed

lemma lock_it_run:
  assumes wf: "wf_locks xs free" and c: "ok_caller cur fd c"
  shows "\<exists>r. lock_it cur fd c xs free = Some r \<and> run_result cur fd c xs free r"
proof -
  define k where k: "k = (Some (pid cur), fd)"
  define P where P: "P = after_run k xs"
  let ?pre = "before_run k xs" and ?G = "the_run k xs" and ?sc0 = "scan0 (before_run k xs) c free"
  note inv0 = scan0_inv [OF wf c k, folded P]
  obtain sc D R where s: "lock_scan ?sc0 (?G @ P) = Some (sc, R @ P)"
      "scan_inv ?pre P k (fl_type c) (wanted c ?G) sc D R" "exit_ok sc D R"
    using lock_scan_spec [OF inv0] after_run_hd [of k xs] k P
    by (auto simp: scan0_def left_inv_def)
  have whole: "s_done ?sc0 @ ?G @ P = xs" "s_free ?sc0 = free" "s_caller ?sc0 = c" "s_woken ?sc0 = []"
    using run_split [of k xs] by (simp_all add: scan0_def P)
  have ids: "mset (map fst (s_done sc @ R @ P @ s_free sc)) = mset (map fst (xs @ free))"
    using lock_scan_frame [OF s(1)] whole(1,2) by (metis append_assoc)
  have fr: "no_owner (s_free sc)" "no_owner free"
    using lock_scan_frame [OF s(1)] wf whole(2) by (auto simp: no_owner_def wf_locks_def)
  have base: "fl_type (s_caller sc) = fl_type c" "key (j, s_caller sc) = k"
      "s_cref sc = None \<longleftrightarrow> \<not> s_added sc \<or> fl_type c = F_UNLCK" for j
    using inv_base [OF s(2)] by (auto simp: scan_base_def key_def)
  have ty: "fl_type c = F_UNLCK \<or> fl_type c \<in> {F_RDLCK, F_WRLCK}" using c by (auto simp: ok_caller_def)
  have ms: "mine_sep ?sc0 (?G @ P)" "distinct (map fst (?G @ P))"
  proof -
    have "locks_of k (?G @ P) = map snd ?G"
      using run_keys(2) [of k xs] after_run_keys [of xs k] wf
      by (simp add: locks_of_none locks_of_all P wf_locks_def)
    then show "mine_sep ?sc0 (?G @ P)"
      using inv_sep [OF inv0] c by (simp add: mine_sep_def scan0_def locks_of_def k ok_caller_def)
    show "distinct (map fst (?G @ P))" using inv_distinct [OF inv0] by auto
  qed
  have same: "s_done sc @ R @ P = xs \<and> s_free sc = free" if "s_right sc = Some i" "s_left sc = Some i" for i
    using scan_split_untouched [OF s(1) _ ms(1) _ _ ms(2) that, unfolded whole] c
    by (simp add: scan0_def ok_caller_def)
  note fin = run_finish [OF k refl P s(2,3) ids fr(1) _ _ _ _ _ same]
  show ?thesis
  proof (cases "s_added sc")
    case True
    have "caller_node (fl_type c) k (s_caller sc) (cnode sc @ [])"
      using True base ty by (auto simp: caller_node_def cnode_def split: option.splits)
    from fin [where new="[]" and free'="s_free sc" and mid="[]", OF _ _ _ this] True show ?thesis
      by (simp add: lock_it_unfold [OF c k] s(1) flip: P)
  next
    case False
    note u = lock_scan_untouched [OF s(1) False, unfolded whole]
    show ?thesis
    proof (cases "fl_type c = F_UNLCK")
      case True
      have "s_left sc = None \<and> s_right sc = None"
        by (rule scan_unlock_none [OF s(1)]) (use True False base in \<open>simp_all add: scan0_def\<close>)
      with run_not_added [OF k refl P s(2) [unfolded True] s(3) False _ _ _ True _ _ fr(2)] u True False
      show ?thesis by (simp add: lock_it_unfold [OF c k] s(1) flip: P)
    next
      case t: False
      show ?thesis
      proof (cases "s_free sc")
        case Nil
        with u have "run_result cur fd c xs free
            \<lparr>r_error = Some ENOLCK, r_locks = s_done sc @ R @ P, r_free = [], r_woken = s_woken sc\<rparr>"
          by (simp add: run_result_def Let_def no_owner_def)
        with Nil t False base s(1) show ?thesis by (simp add: lock_it_unfold [OF c k] flip: P)
      next
        case (Cons n free')
        obtain m tmp where n: "n = (m, tmp)" by (cases n)
        let ?mid = "[(m, (s_caller sc)\<lparr>fl_owner := Some (pid cur), fl_fd := fd, fl_wait := []\<rparr>)]"
        have o: "fl_owner tmp = None" using fr(1) Cons n by (simp add: no_owner_def)
        have "caller_node (fl_type c) k (s_caller sc) (cnode sc @ ?mid)"
          using t ty base False k by (auto simp: caller_node_def cnode_def key_def)
        from fin [where new="[n]" and free'=free' and mid="?mid", OF _ _ _ this] Cons n o t False base
        show ?thesis by (simp add: lock_it_unfold [OF c k] s(1) flip: P)
      qed
    qed
  qed
qed

text \<open>What such a result means for the lock list.\<close>

lemma locks_of_replaced:
  assumes g: "grouped (map key xs)" and kF: "\<forall>n \<in> set F. key n = k"
  shows "locks_of k' (before_run k xs @ F @ after_run k xs) = (if k' = k then map snd F else locks_of k' xs)"
proof (cases "k' = k")
  case True
  then show ?thesis
    using run_keys(1) [of k xs] after_run_keys [OF g, of k] kF by (simp add: locks_of_none locks_of_all)
next
  case False
  have "locks_of k' (the_run k xs) = []" "locks_of k' F = []"
    using run_keys(2) [of k xs] kF False by (auto intro!: locks_of_none)
  then show ?thesis using arg_cong [OF run_split [of k xs], of "locks_of k'"] False by simp
qed

lemma run_result_ok:
  assumes "run_result cur fd c xs free r" "r_error r = None" "k = (Some (pid cur), fd)"
  obtains F where "r_locks r = before_run k xs @ F @ after_run k xs" "good_end F k (wanted c (the_run k xs))"
  using assms by (auto simp: run_result_def Let_def)

lemma run_result_wf:
  assumes wf: "wf_locks xs free" and r: "run_result cur fd c xs free r"
  shows "wf_locks (r_locks r) (r_free r)"
proof -
  define k where k: "k = (Some (pid cur), fd)"
  have d: "distinct (map fst (r_locks r @ r_free r))"
    using r wf mset_eq_imp_distinct_iff unfolding run_result_def wf_locks_def Let_def by blast
  have nf: "no_owner (r_free r)" using r by (simp add: run_result_def Let_def)
  show ?thesis
  proof (cases "r_error r")
    case None
    obtain F where F: "r_locks r = before_run k xs @ F @ after_run k xs" "good_end F k (wanted c (the_run k xs))"
      using run_result_ok [OF r None k] .
    have g: "grouped (map key xs)" using wf by (simp add: wf_locks_def)
    have kF: "\<forall>n \<in> set F. key n = k" "\<forall>n \<in> set F. fl_type (snd n) \<in> {F_RDLCK, F_WRLCK}"
      using F(2) by (simp_all add: good_end_def)
    have "grouped (map key (before_run k xs) @ map key F @ map key (after_run k xs))"
    proof (rule grouped_replace [where k=k and G="map key (the_run k xs)"])
      show "grouped (map key (before_run k xs) @ map key (the_run k xs) @ map key (after_run k xs))"
        unfolding map_append [symmetric] run_split by (rule g)
    qed (use run_keys [of k xs] after_run_keys [OF g, of k] the_run_empty [of k xs] kF in auto)
    then have gr: "grouped (map key (r_locks r))" by (simp add: F(1))
    have "sep (locks_of k' (r_locks r))" for k'
      using wf_sep [OF wf] F(2) unfolding F(1) locks_of_replaced [OF g kF(1)] by (simp add: good_end_def)
    moreover have "fl_owner (snd n) \<noteq> None \<and> fl_type (snd n) \<in> {F_RDLCK, F_WRLCK}" if "n \<in> set (r_locks r)" for n
    proof -
      have "n \<in> set xs \<or> n \<in> set F" using that run_split [of k xs] unfolding F(1) by (metis UnE UnI1 UnI2 set_append)
      then show ?thesis using wf kF by (auto simp: wf_locks_def key_def k)
    qed
    ultimately show ?thesis using gr d nf unfolding wf_locks_def by blast
  next
    case (Some e)
    then show ?thesis using r wf d nf by (simp add: run_result_def Let_def wf_locks_def)
  qed
qed

lemma run_result_held:
  assumes wf: "wf_locks xs free" and r: "run_result cur fd c xs free r" and ok: "r_error r = None"
  shows "held (r_locks r) k' x =
    (if k' = (Some (pid cur), fd) \<and> in_lock c x then granted (fl_type c) else held xs k' x)"
proof -
  define k where k: "k = (Some (pid cur), fd)"
  obtain F where F: "r_locks r = before_run k xs @ F @ after_run k xs" "good_end F k (wanted c (the_run k xs))"
    using run_result_ok [OF r ok k] .
  have g: "grouped (map key xs)" using wf by (simp add: wf_locks_def)
  have kF: "\<forall>n \<in> set F. key n = k" using F(2) by (simp add: good_end_def)
  show ?thesis
    unfolding held_def F(1) locks_of_replaced [OF g kF] k [symmetric]
    using F(2) by (simp add: good_end_def wanted_def run_locks [OF g])
qed

lemma run_result_error:
  assumes wf: "wf_locks xs free" and r: "run_result cur fd c xs free r" and e: "r_error r = Some e"
  shows "r_locks r = xs \<and> (e = ENOLCK \<and> length free \<le> 1 \<or>
     e = EINVAL \<and> fl_type c = F_UNLCK \<and> (\<forall>x. in_lock c x \<longrightarrow> held xs (Some (pid cur), fd) x = None))"
  using assms by (auto simp: run_result_def Let_def held_def wf_locks_def run_locks)

section \<open>Mutual exclusion\<close>

definition exclusive :: "node list \<Rightarrow> bool" where
  "exclusive xs \<longleftrightarrow> (\<forall>k k' x t t'. k \<noteq> k' \<longrightarrow> held xs k x = Some t \<longrightarrow> held xs k' x = Some t' \<longrightarrow> t = F_RDLCK)"

lemma held_entry:
  "held xs k x = Some t \<Longrightarrow> \<exists>n \<in> set xs. key n = k \<and> in_lock (snd n) x \<and> fl_type (snd n) = t"
  by (induction xs) (auto simp: held_def locks_of_def split: if_splits)

lemma no_conflict_held:
  assumes nc: "\<forall>n \<in> set xs. \<not> conflict c (snd n)" and t: "fl_type c \<in> {F_RDLCK, F_WRLCK}"
    and h: "held xs k' x = Some t'" "in_lock c x" "k' \<noteq> (fl_owner c, fl_fd c)"
  shows "fl_type c = F_RDLCK \<and> t' = F_RDLCK"
proof -
  obtain n where n: "n \<in> set xs" "key n = k'" "in_lock (snd n) x" "fl_type (snd n) = t'"
    using held_entry [OF h(1)] by blast
  with h have "overlap c (snd n)" "\<not> (fl_owner c = fl_owner (snd n) \<and> fl_fd c = fl_fd (snd n))"
    by (auto simp: overlap_def in_lock_def key_def)
  with nc n(1,4) t show ?thesis by (auto simp: conflict_def split: if_splits)
qed

lemma find_None_iff_all: "List.find P xs = None \<longleftrightarrow> (\<forall>x \<in> set xs. \<not> P x)"
  by (induction xs) auto

lemma repeat_Ret:
  assumes "setlk_repeat cur fd cmd c xs free = Ret r"
  shows "lock_it cur fd c xs free = Some r" "fl_type c = F_UNLCK \<or> (\<forall>n \<in> set xs. \<not> conflict c (snd n))"
proof -
  have f: "(if fl_type c \<noteq> F_UNLCK then List.find (\<lambda>(i, fl). conflict c fl) xs else None) = None"
    using assms unfolding setlk_repeat_def by (rule contrapos_pp) (auto split: if_splits)
  with assms show "lock_it cur fd c xs free = Some r"
    unfolding setlk_repeat_def f by (simp split: option.splits)
  from f show "fl_type c = F_UNLCK \<or> (\<forall>n \<in> set xs. \<not> conflict c (snd n))"
    by (auto simp: find_None_iff_all split: if_splits)
qed

lemma repeat_exclusive:
  assumes wf: "wf_locks xs free" and c: "ok_caller cur fd c" and ex: "exclusive xs"
    and r: "setlk_repeat cur fd cmd c xs free = Ret r"
  shows "exclusive (r_locks r)"
proof -
  have rr: "run_result cur fd c xs free r" using lock_it_run [OF wf c] repeat_Ret(1) [OF r] by auto
  show ?thesis
  proof (cases "r_error r")
    case (Some e)
    then show ?thesis using run_result_error [OF wf rr] ex by simp
  next
    case None
    have key: "(fl_owner c, fl_fd c) = (Some (pid cur), fd)" using c by (simp add: ok_caller_def)
    have new: "fl_type c = F_RDLCK \<and> t' = F_RDLCK"
      if "in_lock c x" "fl_type c \<noteq> F_UNLCK" "held xs k' x = Some t'" "k' \<noteq> (Some (pid cur), fd)" for x k' t'
      using no_conflict_held [OF _ _ that(3,1)] repeat_Ret(2) [OF r] that c key by (auto simp: ok_caller_def)
    show ?thesis
      unfolding exclusive_def run_result_held [OF wf rr None]
    proof (intro allI impI)
      fix k k' x t t'
      let ?k0 = "(Some (pid cur), fd)"
      assume d: "k \<noteq> k'"
        and t: "(if k = ?k0 \<and> in_lock c x then granted (fl_type c) else held xs k x) = Some t"
        and t': "(if k' = ?k0 \<and> in_lock c x then granted (fl_type c) else held xs k' x) = Some t'"
      consider "in_lock c x" "k = ?k0" | "in_lock c x" "k' = ?k0" | "\<not> in_lock c x \<or> k \<noteq> ?k0 \<and> k' \<noteq> ?k0" by blast
      then show "t = F_RDLCK"
      proof cases
        case 1
        with d t t' new [of x k' t'] show ?thesis by (auto simp: granted_def split: if_splits)
      next
        case 2
        with d t t' new [of x k t] show ?thesis by (auto simp: granted_def split: if_splits)
      next
        case 3
        then have "held xs k x = Some t" "held xs k' x = Some t'" using t t' by auto
        then show ?thesis using ex d unfolding exclusive_def by blast
      qed
    qed
  qed
qed

section \<open>The system calls\<close>

lemma s32_end:
  assumes "0 \<le> a" "a \<le> OFFSET_MAX" "0 < n" "n \<le> OFFSET_MAX" "\<not> s32 (a + n - 1) < 0"
  shows "s32 (a + n - 1) = a + n - 1"
proof (rule s32_id)
  have "a + n - 1 < 2147483648"
  proof (rule ccontr)
    assume "\<not> a + n - 1 < 2147483648"
    then have "(a + n - 1 + 2147483648) mod 4294967296 = a + n - 1 - 2147483648"
      using assms(1-4) mod_pos_pos_trivial [of "a + n - 1 - 2147483648" 4294967296]
        mod_add_self2 [of "a + n - 1 - 2147483648" 4294967296] by (simp add: OFFSET_MAX_def)
    with assms show False by (simp add: s32_def OFFSET_MAX_def)
  qed
  with assms show "- 2147483648 \<le> a + n - 1" "a + n - 1 < 2147483648" by simp_all
qed

lemma copy_flock_Some:
  assumes "copy_flock cur f l fd = Some c" and "l_len l \<le> OFFSET_MAX"
  shows "fl_owner c = Some (pid cur)" "fl_fd c = fd" "ok_lock c" "fl_type c = l_type l" "fl_whence c = 0"
proof -
  obtain inode where i: "f_inode f = Some inode" using assms(1) by (auto simp: copy_flock_def split: option.splits)
  obtain b where b: "(if l_whence l = 0 then Some 0 else if l_whence l = 1 then Some (f_pos f)
      else if l_whence l = 2 then Some (i_size inode) else None) = Some b"
    using assms(1) unfolding copy_flock_def i by (simp split: if_splits)
  have c: "0 \<le> s32 (b + l_start l)" "0 \<le> l_len l"
      "c = \<lparr>fl_owner = Some (pid cur), fl_fd = fd, fl_wait = [], fl_type = l_type l, fl_whence = 0,
         fl_start = s32 (b + l_start l),
         fl_end = (if l_len l = 0 \<or> s32 (s32 (b + l_start l) + l_len l - 1) < 0 then OFFSET_MAX
                   else s32 (s32 (b + l_start l) + l_len l - 1))\<rparr>"
    using assms(1) unfolding copy_flock_def i option.case b Let_def
    by (simp_all only: not_less de_Morgan_disj split: if_splits) auto
  have "s32 (b + l_start l) \<le> OFFSET_MAX"
    by (simp add: OFFSET_MAX_def s32_def)
  with c(1,2) assms(2) s32_end [of "s32 (b + l_start l)" "l_len l"] show "ok_lock c"
    by (auto simp: c(3) ok_lock_def) (simp add: OFFSET_MAX_def s32_def)?
qed (use assms in \<open>auto simp: copy_flock_def Let_def split: option.splits if_splits\<close>)

lemma setlk_mode_Inr:
  assumes "setlk_mode f c0 = Inr c"
  shows "c = c0\<lparr>fl_type := fl_type c\<rparr>"
    "fl_type c0 \<in> {F_UNLCK, F_RDLCK, F_WRLCK, F_SHLCK, F_EXLCK} \<Longrightarrow> fl_type c \<in> {F_UNLCK, F_RDLCK, F_WRLCK}"
    "fl_type c = F_UNLCK \<longleftrightarrow> fl_type c0 = F_UNLCK"
    "fl_type c0 \<in> {F_UNLCK, F_RDLCK, F_WRLCK} \<Longrightarrow> c = c0"
  using assms by (auto simp: setlk_mode_def split: if_splits)

definition ends_before_max :: "task \<Rightarrow> lfile \<Rightarrow> flock \<Rightarrow> int \<Rightarrow> bool" where
  "ends_before_max cur f l fd \<longleftrightarrow>
     (case copy_flock cur f l fd of None \<Rightarrow> True | Some c \<Rightarrow> fl_end c < OFFSET_MAX)"

lemma setlk_Ret:
  assumes "fcntl_setlk cur fd cmd (Some f) verify l xs free = Ret r" and "l_len l \<le> OFFSET_MAX"
    and e: "l_type l = F_UNLCK \<or> ends_before_max cur f l fd"
  obtains c where "ok_caller cur fd c" "setlk_repeat cur fd cmd c xs free = Ret r"
proof -
  from assms(1) obtain c0 c where c: "copy_flock cur f l fd = Some c0" "setlk_mode f c0 = Inr c"
      "setlk_repeat cur fd cmd c xs free = Ret r"
    by (auto simp: fcntl_setlk_def split: if_splits option.splits sum.splits)
  note c0 = copy_flock_Some [OF c(1) assms(2)] and m = setlk_mode_Inr [OF c(2)]
  have ty: "fl_type c0 \<in> {F_UNLCK, F_RDLCK, F_WRLCK, F_SHLCK, F_EXLCK}"
    using c(1) by (auto simp: copy_flock_def Let_def split: option.splits if_splits)
  obtain t where t: "c = c0\<lparr>fl_type := t\<rparr>" using m(1) by blast
  have "fl_type c \<noteq> F_UNLCK \<longrightarrow> fl_end c < OFFSET_MAX"
    using e c(1) c0(4) m(3) by (auto simp: ends_before_max_def t)
  with c0 m(2) [OF ty] have "ok_caller cur fd c"
    by (auto simp: ok_caller_def t ok_lock_def)
  then show ?thesis using c(3) by (rule that)
qed

lemma free_run_all:
  assumes "\<forall>n \<in> set G. key n = (owner, fd)" "owner \<noteq> None" "P = [] \<or> key (hd P) \<noteq> (owner, fd)"
  shows "free_run owner fd (G @ P) free w =
    Some (P, rev (map (\<lambda>(i, fl). (i, fl\<lparr>fl_owner := None\<rparr>)) G) @ free, w @ concat (map (fl_wait \<circ> snd) G))"
  using assms(1)
proof (induction G arbitrary: free w)
  case Nil
  with assms(3) show ?case by (cases P) (auto simp: key_def)
next
  case (Cons n G)
  with assms(2) show ?case by (cases n) (auto simp: key_def free_lock_def)
qed

lemma run_filter:
  assumes "grouped (map key xs)"
  shows "filter (\<lambda>n. key n = k) xs = the_run k xs"
    and "filter (\<lambda>n. key n \<noteq> k) xs = before_run k xs @ after_run k xs"
proof -
  note keys = run_keys [of k xs] after_run_keys [OF assms, of k]
  have none: "filter (\<lambda>n. key n = k) ys = []" "filter (\<lambda>n. key n \<noteq> k) ys = ys" if "k \<notin> set (map key ys)" for ys
    using that by (induction ys) auto
  have all: "filter (\<lambda>n. key n = k) (the_run k xs) = the_run k xs" "filter (\<lambda>n. key n \<noteq> k) (the_run k xs) = []"
    using keys(2) by (auto simp: filter_id_conv filter_empty_conv)
  have "filter (\<lambda>n. key n = k) (before_run k xs @ the_run k xs @ after_run k xs) = the_run k xs"
    by (simp add: all none [OF keys(1)] none [OF keys(3)])
  moreover have "filter (\<lambda>n. key n \<noteq> k) (before_run k xs @ the_run k xs @ after_run k xs) =
      before_run k xs @ after_run k xs"
    by (simp add: all none [OF keys(1)] none [OF keys(3)])
  ultimately show "filter (\<lambda>n. key n = k) xs = the_run k xs"
    and "filter (\<lambda>n. key n \<noteq> k) xs = before_run k xs @ after_run k xs" unfolding run_split .
qed

lemma remove_locks_eq:
  assumes "grouped (map key xs)"
  shows "fcntl_remove_locks tsk fd xs free =
    Some (filter (\<lambda>n. key n \<noteq> (Some tsk, fd)) xs,
      rev (map (\<lambda>(i, fl). (i, fl\<lparr>fl_owner := None\<rparr>)) (filter (\<lambda>n. key n = (Some tsk, fd)) xs)) @ free,
      concat (map (fl_wait \<circ> snd) (filter (\<lambda>n. key n = (Some tsk, fd)) xs)))"
proof -
  define k where k: "k = (Some tsk, fd)"
  have o: "(\<lambda>(i, fl). Some tsk \<noteq> fl_owner fl \<or> fd \<noteq> fl_fd fl) = (\<lambda>n. key n \<noteq> k)"
    by (auto simp: k key_def fun_eq_iff)
  have "free_run (Some tsk) fd (the_run k xs @ after_run k xs) free [] =
      Some (after_run k xs, rev (map (\<lambda>(i, fl). (i, fl\<lparr>fl_owner := None\<rparr>)) (the_run k xs)) @ free,
        concat (map (fl_wait \<circ> snd) (the_run k xs)))"
    using free_run_all [of "the_run k xs" "Some tsk" fd "after_run k xs" free "[]"]
      run_keys(2) [of k xs] after_run_hd [of k xs] by (simp add: k)
  then show ?thesis
    unfolding fcntl_remove_locks_def Let_def o run_rest [symmetric] k [symmetric] run_filter [OF assms, of k]
    by (simp add: before_run_def)
qed

lemma remove_wf:
  assumes wf: "wf_locks xs free"
  shows "wf_locks (filter (\<lambda>n. key n \<noteq> k) xs)
    (rev (map (\<lambda>(i, fl). (i, fl\<lparr>fl_owner := None\<rparr>)) (filter (\<lambda>n. key n = k) xs)) @ free)"
proof -
  have g: "grouped (map key xs)" using wf by (simp add: wf_locks_def)
  have "grouped (map key (before_run k xs) @ map key [] @ map key (after_run k xs))"
  proof (rule grouped_replace [where k=k and G="map key (the_run k xs)"])
    show "grouped (map key (before_run k xs) @ map key (the_run k xs) @ map key (after_run k xs))"
      unfolding map_append [symmetric] run_split by (rule g)
  qed (use run_keys [of k xs] after_run_keys [OF g, of k] the_run_empty [of k xs] in auto)
  then have gr: "grouped (map key (filter (\<lambda>n. key n \<noteq> k) xs))" by (simp add: run_filter [OF g])
  have "sep (locks_of k' (filter (\<lambda>n. key n \<noteq> k) xs))" for k'
    using locks_of_replaced [OF g, of "[]" k k'] wf_sep [OF wf, of k'] by (simp add: run_filter(2) [OF g])
  moreover have "mset (map fst (filter (\<lambda>n. key n \<noteq> k) xs @
      rev (map (\<lambda>(i, fl). (i, fl\<lparr>fl_owner := None\<rparr>)) (filter (\<lambda>n. key n = k) xs)) @ free)) = mset (map fst (xs @ free))"
    by (induction xs) (auto simp: case_prod_beta)
  then have "distinct (map fst (filter (\<lambda>n. key n \<noteq> k) xs @
      rev (map (\<lambda>(i, fl). (i, fl\<lparr>fl_owner := None\<rparr>)) (filter (\<lambda>n. key n = k) xs)) @ free))"
    using wf mset_eq_imp_distinct_iff unfolding wf_locks_def by blast
  ultimately show ?thesis using gr wf by (auto simp: wf_locks_def no_owner_def)
qed

section \<open>Properties\<close>


definition tsk1 :: task where
  "tsk1 = \<lparr>pid = 1, euid = 0, egid = 0, groups = [], signal = 0, blocked = 0\<rparr>"

definition lk :: "int \<Rightarrow> int \<Rightarrow> int \<Rightarrow> int \<Rightarrow> file_lock" where
  "lk p t a b = \<lparr>fl_owner = Some p, fl_fd = 3, fl_wait = [], fl_type = t, fl_whence = 0, fl_start = a, fl_end = b\<rparr>"

definition spare :: "nat \<Rightarrow> node" where
  "spare i = (i, (lk 1 0 0 0)\<lparr>fl_owner := None\<rparr>)"



lemma find_conflict:
  "List.find (\<lambda>(i, fl). conflict c fl) xs = Some (i, fl) \<Longrightarrow> (i, fl) \<in> set xs \<and> conflict c fl"
  by (auto simp: find_Some_iff in_set_conv_nth)


definition file3 :: lfile where
  "file3 = \<lparr>f_mode = 3, f_pos = 0, f_inode = Some \<lparr>i_mode = 0x81A4, i_size = 100\<rparr>\<rparr>"

definition req :: "int \<Rightarrow> int \<Rightarrow> int \<Rightarrow> flock" where
  "req t a n = \<lparr>l_type = t, l_whence = 0, l_start = a, l_len = n, l_pid = 0\<rparr>"

lemmas lock_eval =
  wf_locks_def ok_caller_def ok_lock_def lk_def spare_def tsk1_def key_def locks_of_def file3_def req_def
  sep_def OFFSET_MAX_def NR_OPEN_def no_owner_def in_lock_def granted_def S_ISREG_def copy_flock_def
  setlk_mode_def setlk_repeat_def conflict_def overlap_def lock_it_def lock_scan.simps lock_step_def
  lock_finish_def cut_left_def cut_right_def next_lock_def free_lock_def scan_free_def put_caller_def s32_def


lemma fst_disown [simp]: "fst (case x of (i, fl) \<Rightarrow> (i, fl\<lparr>fl_owner := None\<rparr>)) = fst x"
  by (cases x) simp

lemma setlk_conflict:
  assumes "fd < NR_OPEN" and "f_mode f AND 1 \<noteq> 0" "f_mode f AND 2 \<noteq> 0" and "l_type l \<in> {F_RDLCK, F_WRLCK}"
  shows "fcntl_setlk cur fd F_SETLK (Some f) None l xs free = Err EAGAIN \<longleftrightarrow>
    (\<exists>c. copy_flock cur f l fd = Some c \<and> (\<exists>n \<in> set xs. conflict c (snd n)))"
proof (cases "copy_flock cur f l fd")
  case (Some c)
  then have "fl_type c = l_type l" by (auto simp: copy_flock_def Let_def split: option.splits if_splits)
  then have "setlk_mode f c = Inr c" "fl_type c \<noteq> F_UNLCK" using assms by (auto simp: setlk_mode_def)
  moreover have "List.find (\<lambda>(i, fl). conflict c fl) xs = None \<longleftrightarrow> \<not> (\<exists>n \<in> set xs. conflict c (snd n))"
    by (auto simp: find_None_iff_all)
  ultimately show ?thesis
    using assms Some by (auto simp: fcntl_setlk_def setlk_repeat_def split: option.splits)
qed (use assms in \<open>simp add: fcntl_setlk_def\<close>)

lemma getlk_conflict:
  assumes "fcntl_getlk cur fd (Some f) None l xs = Ret l'" "l_type l' \<noteq> F_UNLCK"
  shows "\<exists>n c. n \<in> set xs \<and> copy_flock cur f l fd = Some c \<and> conflict c (snd n) \<and>
    l' = \<lparr>l_type = fl_type (snd n), l_whence = fl_whence (snd n), l_start = fl_start (snd n),
      l_len = (if fl_end (snd n) = OFFSET_MAX then 0 else s32 (fl_end (snd n) - fl_start (snd n) + 1)),
      l_pid = the (fl_owner (snd n))\<rparr>"
  using assms by (auto simp: fcntl_getlk_def split: if_splits option.splits dest!: find_conflict) (force split: if_splits)+



text \<open>
  C26: the lock \<open>F_GETLK\<close> reports is a lock of the list that conflicts with the request, and its
  description, read back as a request, names the same offsets and type; its pid is the owner's.
\<close>

theorem fcntl_getlk_describes_the_conflict:
  assumes "wf_locks xs free" and "\<forall>n \<in> set xs. fl_whence (snd n) = 0"
    and "fcntl_getlk cur fd (Some f) None l xs = Ret l'" and "l_type l' \<noteq> F_UNLCK"
  shows "\<exists>n c c'. n \<in> set xs \<and> copy_flock cur f l fd = Some c \<and> conflict c (snd n) \<and>
      copy_flock cur f l' fd = Some c' \<and> fl_start c' = fl_start (snd n) \<and> fl_end c' = fl_end (snd n) \<and>
      fl_type c' = fl_type (snd n) \<and> fl_owner (snd n) = Some (l_pid l')"
proof -
  obtain n c where n: "n \<in> set xs" "copy_flock cur f l fd = Some c" "conflict c (snd n)"
      "l' = \<lparr>l_type = fl_type (snd n), l_whence = fl_whence (snd n), l_start = fl_start (snd n),
        l_len = (if fl_end (snd n) = OFFSET_MAX then 0 else s32 (fl_end (snd n) - fl_start (snd n) + 1)),
        l_pid = the (fl_owner (snd n))\<rparr>"
    using getlk_conflict [OF assms(3,4)] by blast
  have ok: "ok_lock (snd n)"
    using wf_sep [OF assms(1), of "key n"] n(1) by (cases n) (auto simp: sep_def locks_of_def)
  have ty: "fl_type (snd n) \<in> {F_RDLCK, F_WRLCK}" "fl_owner (snd n) \<noteq> None"
    using assms(1) n(1) by (auto simp: wf_locks_def)
  obtain inode where i: "f_inode f = Some inode" "S_ISREG (i_mode inode)"
    using n(2) by (auto simp: copy_flock_def split: option.splits if_splits)
  have "copy_flock cur f l' fd = Some \<lparr>fl_owner = Some (pid cur), fl_fd = fd, fl_wait = [],
      fl_type = fl_type (snd n), fl_whence = 0, fl_start = fl_start (snd n), fl_end = fl_end (snd n)\<rparr>"
    using ok ty(1) i assms(2) n(1) unfolding n(4) by (auto simp: copy_flock_def Let_def ok_lock_def OFFSET_MAX_def s32_id)
  then show ?thesis using n ty(2) by fastforce
qed

lemma fcntl_getlk_describes_the_conflict_witness:
  "\<exists>l' n c c'. fcntl_getlk tsk1 3 (Some file3) None (req F_WRLCK 40 15) [(0, lk 2 F_RDLCK 50 60)] = Ret l' \<and>
     n \<in> set [(0, lk 2 F_RDLCK 50 60)] \<and> copy_flock tsk1 file3 (req F_WRLCK 40 15) 3 = Some c \<and> conflict c (snd n) \<and>
     copy_flock tsk1 file3 l' 3 = Some c' \<and> fl_start c' = fl_start (snd n) \<and> fl_end c' = fl_end (snd n)"
proof -
  have "fcntl_getlk tsk1 3 (Some file3) None (req F_WRLCK 40 15) [(0, lk 2 F_RDLCK 50 60)] =
      Ret \<lparr>l_type = F_RDLCK, l_whence = 0, l_start = 50, l_len = 11, l_pid = 2\<rparr>"
    by (simp add: fcntl_getlk_def lock_eval)
  moreover from fcntl_getlk_describes_the_conflict [OF _ _ this, of "[spare 2]"]
  have "\<exists>n c c'. n \<in> set [(0, lk 2 F_RDLCK 50 60)] \<and> copy_flock tsk1 file3 (req F_WRLCK 40 15) 3 = Some c \<and> conflict c (snd n) \<and>
     copy_flock tsk1 file3 \<lparr>l_type = F_RDLCK, l_whence = 0, l_start = 50, l_len = 11, l_pid = 2\<rparr> 3 = Some c' \<and>
     fl_start c' = fl_start (snd n) \<and> fl_end c' = fl_end (snd n)"
    by (auto simp: wf_locks_def lk_def spare_def key_def locks_of_def sep_def ok_lock_def OFFSET_MAX_def no_owner_def)
  ultimately show ?thesis by blast
qed

text \<open>
  C27: \<open>fcntl_remove_locks\<close> always returns, removes exactly the locks of the task and descriptor,
  gives exactly their entries back to the free list, and wakes exactly the tasks waiting for them.
\<close>

theorem fcntl_remove_locks_exact:
  assumes "wf_locks xs free"
  shows "\<exists>free' woken. fcntl_remove_locks tsk fd xs free =
      Some (filter (\<lambda>n. (fl_owner (snd n), fl_fd (snd n)) \<noteq> (Some tsk, fd)) xs, free', woken) \<and>
    wf_locks (filter (\<lambda>n. (fl_owner (snd n), fl_fd (snd n)) \<noteq> (Some tsk, fd)) xs) free' \<and>
    mset (map fst free') =
      mset (map fst free) + mset (map fst (filter (\<lambda>n. (fl_owner (snd n), fl_fd (snd n)) = (Some tsk, fd)) xs)) \<and>
    woken = concat (map (\<lambda>n. fl_wait (snd n)) (filter (\<lambda>n. (fl_owner (snd n), fl_fd (snd n)) = (Some tsk, fd)) xs))"
proof -
  have g: "grouped (map key xs)" using assms by (simp add: wf_locks_def)
  show ?thesis
    using remove_locks_eq [OF g, of tsk fd free] remove_wf [OF assms, of "(Some tsk, fd)"]
    by (simp add: key_def comp_def flip: mset_map rev_map)
qed

lemma fcntl_remove_locks_exact_witness:
  "\<exists>free' woken. fcntl_remove_locks 1 3 [(0, lk 2 F_RDLCK 50 60), (1, lk 1 F_RDLCK 0 9), (2, (lk 1 F_WRLCK 20 29)\<lparr>fl_wait := [7]\<rparr>)] [] =
     Some ([(0, lk 2 F_RDLCK 50 60)], free', woken) \<and> mset (map fst free') = {#1, 2#} \<and> woken = [7]"
  using fcntl_remove_locks_exact [of "[(0, lk 2 F_RDLCK 50 60), (1, lk 1 F_RDLCK 0 9), (2, (lk 1 F_WRLCK 20 29)\<lparr>fl_wait := [7]\<rparr>)]" "[]" 1 3]
  by (auto simp: lock_eval)

text \<open>
  A lock up to the end of the file is not merged with an overlapping lock of the same type, because
  \<open>caller->fl_end + 1\<close> wraps: after reading locks on 0..99 and from 50 on, unlocking 60..70 succeeds
  and leaves 60..70 locked.
\<close>

lemma lock_to_end_not_merged:
  "\<exists>r1 r2 r3.
     lock_it tsk1 3 (lk 1 F_RDLCK 0 99) [] [spare 0, spare 1, spare 2, spare 3] = Some r1 \<and> r_error r1 = None \<and>
     lock_it tsk1 3 (lk 1 F_RDLCK 50 OFFSET_MAX) (r_locks r1) (r_free r1) = Some r2 \<and> r_error r2 = None \<and>
     lock_it tsk1 3 (lk 1 F_UNLCK 60 70) (r_locks r2) (r_free r2) = Some r3 \<and> r_error r3 = None \<and>
     held (r_locks r3) (Some 1, 3) 65 = Some F_RDLCK"
  by (simp add: lock_eval held_def)

end
