(* ===== verification/File_Table.thy ===== *)
theory File_Table
  imports KPrelude "HOL-Library.Monad_Syntax"
begin

text \<open>
  fs/file_table.c: the ring of \<open>struct file\<close> and \<open>get_empty_filp\<close>.

  The structures live in a heap from addresses to their contents; the links \<open>f_next\<close> and \<open>f_prev\<close>
  are fields as in the source, so every store of the list operations is a store to the heap and
  the effect of aliasing is the source's. A page holds \<open>FILES_PER_PAGE\<close> structures; the address of
  structure \<open>i\<close> of page \<open>pg\<close> is \<open>pg * FILES_PER_PAGE + i\<close>. NULL is \<open>None\<close>; following it is the
  result \<open>None\<close>. The answers of \<open>get_free_page\<close> are an argument, one for each call.
\<close>

section \<open>Model\<close>

text \<open>The operation tables a file can have: those of fs/pipe.c by name, any other by number.\<close>

datatype fops =
    connecting_fifo_fops | read_fifo_fops | write_fifo_fops | rdwr_fifo_fops
  | read_pipe_fops | write_pipe_fops | rdwr_pipe_fops | other_fops nat

type_synonym faddr = nat

record kfile =
  f_mode :: int
  f_rdev :: int
  f_pos :: int
  f_flags :: int
  f_count :: int
  f_reada :: int
  f_next :: "faddr option"
  f_prev :: "faddr option"
  f_inode :: "nat option"
  f_op :: "fops option"

definition zero_file :: kfile where
  "zero_file = \<lparr>f_mode = 0, f_rdev = 0, f_pos = 0, f_flags = 0, f_count = 0, f_reada = 0,
     f_next = None, f_prev = None, f_inode = None, f_op = None\<rparr>"

type_synonym fheap = "faddr \<Rightarrow> kfile option"

record ftab =
  heap :: fheap
  first_file :: "faddr option"
  nr_files :: int

definition FILES_PER_PAGE :: nat where "FILES_PER_PAGE = 128"
definition NR_FILE :: int where "NR_FILE = 1024"

text \<open>Access through a pointer.\<close>

definition rd :: "fheap \<Rightarrow> faddr option \<Rightarrow> kfile option" where
  "rd h p = Option.bind p h"

definition wr :: "faddr option \<Rightarrow> (kfile \<Rightarrow> kfile) \<Rightarrow> fheap \<Rightarrow> fheap option" where
  "wr p g h = do { a \<leftarrow> p; f \<leftarrow> h a; Some (h(a \<mapsto> g f)) }"

definition insert_file_free :: "faddr \<Rightarrow> ftab \<Rightarrow> ftab option" where
  "insert_file_free file s = do {
     h \<leftarrow> wr (Some file) (f_next_update (\<lambda>_. first_file s)) (heap s);
     ff \<leftarrow> rd h (first_file s);
     h \<leftarrow> wr (Some file) (f_prev_update (\<lambda>_. f_prev ff)) h;
     f \<leftarrow> h file;
     h \<leftarrow> wr (f_next f) (f_prev_update (\<lambda>_. Some file)) h;
     f \<leftarrow> h file;
     h \<leftarrow> wr (f_prev f) (f_next_update (\<lambda>_. Some file)) h;
     Some (s\<lparr>heap := h, first_file := Some file\<rparr>) }"

definition remove_file_free :: "faddr \<Rightarrow> ftab \<Rightarrow> ftab option" where
  "remove_file_free file s = do {
     first \<leftarrow> (if first_file s = Some file then map_option f_next (rd (heap s) (first_file s))
               else Some (first_file s));
     f \<leftarrow> heap s file;
     h \<leftarrow> (if f_next f \<noteq> None then wr (f_next f) (f_prev_update (\<lambda>_. f_prev f)) (heap s)
           else Some (heap s));
     f \<leftarrow> h file;
     h \<leftarrow> (if f_prev f \<noteq> None then wr (f_prev f) (f_next_update (\<lambda>_. f_next f)) h else Some h);
     h \<leftarrow> wr (Some file) (\<lambda>f. f\<lparr>f_next := None, f_prev := None\<rparr>) h;
     Some (s\<lparr>heap := h, first_file := first\<rparr>) }"

definition put_last_free :: "faddr \<Rightarrow> ftab \<Rightarrow> ftab option" where
  "put_last_free file s = do {
     s \<leftarrow> remove_file_free file s;
     ff \<leftarrow> rd (heap s) (first_file s);
     h \<leftarrow> wr (Some file) (f_prev_update (\<lambda>_. f_prev ff)) (heap s);
     f \<leftarrow> h file;
     h \<leftarrow> wr (f_prev f) (f_next_update (\<lambda>_. Some file)) h;
     h \<leftarrow> wr (Some file) (f_next_update (\<lambda>_. first_file s)) h;
     f \<leftarrow> h file;
     h \<leftarrow> wr (f_next f) (f_prev_update (\<lambda>_. Some file)) h;
     Some (s\<lparr>heap := h\<rparr>) }"

text \<open>
  \<open>grow_files\<close>: \<open>page\<close> is the answer of \<open>get_free_page\<close>, which clears the page it returns.
\<close>

definition page_files :: "nat \<Rightarrow> fheap \<Rightarrow> fheap" where
  "page_files pg h a = (if a div FILES_PER_PAGE = pg then Some zero_file else h a)"

fun insert_files :: "faddr list \<Rightarrow> ftab \<Rightarrow> ftab option" where
  "insert_files [] s = Some s"
| "insert_files (file # fs) s = do { s \<leftarrow> insert_file_free file s; insert_files fs s }"

definition grow_files :: "nat option \<Rightarrow> ftab \<Rightarrow> ftab option" where
  "grow_files page s =
     (case page of
        None \<Rightarrow> Some s
      | Some pg \<Rightarrow>
          (let s = s\<lparr>heap := page_files pg (heap s), nr_files := nr_files s + int FILES_PER_PAGE\<rparr>;
               files = map (\<lambda>i. pg * FILES_PER_PAGE + i) [0..<FILES_PER_PAGE]
           in if first_file s = None
              then do {
                h \<leftarrow> wr (Some (hd files)) (\<lambda>f. f\<lparr>f_next := Some (hd files), f_prev := Some (hd files)\<rparr>) (heap s);
                insert_files (tl files) (s\<lparr>heap := h, first_file := Some (hd files)\<rparr>) }
              else insert_files files s))"

text \<open>The search loop of \<open>get_empty_filp\<close>: at most \<open>n\<close> structures from \<open>f\<close> on, in ring order.\<close>

fun find_unused :: "fheap \<Rightarrow> nat \<Rightarrow> faddr option \<Rightarrow> faddr option option" where
  "find_unused h 0 f = Some None"
| "find_unused h (Suc n) f = do {
     x \<leftarrow> rd h f;
     (if f_count x = 0 then Some f else find_unused h n (f_next x)) }"

definition take_file :: "faddr \<Rightarrow> ftab \<Rightarrow> ftab option" where
  "take_file f s = do {
     s \<leftarrow> remove_file_free f s;
     h \<leftarrow> wr (Some f) (\<lambda>_. zero_file) (heap s);
     s \<leftarrow> put_last_free f (s\<lparr>heap := h\<rparr>);
     h \<leftarrow> wr (Some f) (f_count_update (\<lambda>_. 1)) (heap s);
     Some (s\<lparr>heap := h\<rparr>) }"

text \<open>
  From the label \<open>repeat\<close> on. The list holds the answers \<open>get_free_page\<close> will give; \<open>None\<close> stands
  for a fault and for a call that is still going round when the answers are used up.
\<close>

fun filp_repeat :: "nat option list \<Rightarrow> ftab \<Rightarrow> (faddr option \<times> ftab \<times> nat option list) option" where
  "filp_repeat pages s =
     (case find_unused (heap s) (nat (nr_files s)) (first_file s) of
        None \<Rightarrow> None
      | Some (Some f) \<Rightarrow> map_option (\<lambda>s. (Some f, s, pages)) (take_file f s)
      | Some None \<Rightarrow>
          if nr_files s < NR_FILE
          then (case pages of
                  [] \<Rightarrow> None
                | pg # pages \<Rightarrow> Option.bind (grow_files pg s) (filp_repeat pages))
          else Some (None, s, pages))"

definition get_empty_filp :: "nat option list \<Rightarrow> ftab \<Rightarrow> (faddr option \<times> ftab \<times> nat option list) option" where
  "get_empty_filp pages s =
     (if first_file s = None
      then (case pages of
              [] \<Rightarrow> None
            | pg # pages \<Rightarrow> Option.bind (grow_files pg s) (filp_repeat pages))
      else filp_repeat pages s)"

definition file_table_init :: "ftab \<Rightarrow> ftab" where
  "file_table_init s = s\<lparr>first_file := None\<rparr>"

section \<open>The ring\<close>

fun dlseg :: "fheap \<Rightarrow> faddr \<Rightarrow> faddr list \<Rightarrow> faddr \<Rightarrow> bool" where
  "dlseg h p [] n = True"
| "dlseg h p (x # xs) n =
     (map_option f_prev (h x) = Some (Some p) \<and>
      map_option f_next (h x) = Some (Some (if xs = [] then n else hd xs)) \<and> dlseg h x xs n)"

definition ring :: "fheap \<Rightarrow> faddr list \<Rightarrow> bool" where
  "ring h xs \<longleftrightarrow> xs \<noteq> [] \<and> distinct xs \<and> dlseg h (last xs) xs (hd xs)"

definition body :: "kfile \<Rightarrow> kfile" where
  "body f = f\<lparr>f_next := None, f_prev := None\<rparr>"

definition same_body :: "fheap \<Rightarrow> fheap \<Rightarrow> bool" where
  "same_body h h' \<longleftrightarrow> (\<forall>a. map_option body (h' a) = map_option body (h a))"

lemma dlseg_append:
  "dlseg h p (xs @ ys) n \<longleftrightarrow>
   dlseg h p xs (if ys = [] then n else hd ys) \<and> dlseg h (if xs = [] then p else last xs) ys n"
  by (induction xs arbitrary: p) (auto simp: hd_append)

lemma dlseg_other [simp]: "a \<notin> set xs \<Longrightarrow> dlseg (h(a := v)) p xs n = dlseg h p xs n"
  by (induction xs arbitrary: p) auto

lemma dlseg_dom: "dlseg h p xs n \<Longrightarrow> x \<in> set xs \<Longrightarrow> \<exists>f. h x = Some f"
  by (induction xs arbitrary: p) auto

lemma dlseg_set_prev:
  "dlseg h p (x # xs) n \<Longrightarrow> x \<notin> set xs \<Longrightarrow> h x = Some f \<Longrightarrow>
   dlseg (h(x \<mapsto> f\<lparr>f_prev := Some q\<rparr>)) q (x # xs) n"
  by simp

lemma dlseg_set_next:
  "dlseg h p (xs @ [x]) n \<Longrightarrow> x \<notin> set xs \<Longrightarrow> h x = Some f \<Longrightarrow>
   dlseg (h(x \<mapsto> f\<lparr>f_next := Some m\<rparr>)) p (xs @ [x]) m"
  by (simp add: dlseg_append)

lemma ring_rotate: "ring h (xs @ ys) \<Longrightarrow> ring h (ys @ xs)"
  by (cases "xs = []"; cases "ys = []") (auto simp: ring_def dlseg_append)

lemma ring_dom: "ring h xs \<Longrightarrow> x \<in> set xs \<Longrightarrow> \<exists>f. h x = Some f"
  by (auto simp: ring_def dest: dlseg_dom)

lemma body_links [simp]:
  "body (f\<lparr>f_next := a\<rparr>) = body f" "body (f\<lparr>f_prev := a\<rparr>) = body f"
  by (simp_all add: body_def)

lemma links_commute [simp]: "f\<lparr>f_next := a, f_prev := b\<rparr> = f\<lparr>f_prev := b, f_next := a\<rparr>"
  by (cases f) simp

lemma ftab_commute [simp]:
  "s\<lparr>first_file := x, heap := h\<rparr> = s\<lparr>heap := h, first_file := x\<rparr>"
  "s\<lparr>nr_files := n, heap := h\<rparr> = s\<lparr>heap := h, nr_files := n\<rparr>"
  "s\<lparr>first_file := x, nr_files := n\<rparr> = s\<lparr>nr_files := n, first_file := x\<rparr>"
  by (cases s; simp)+

lemma same_body_refl [simp]: "same_body h h"
  by (simp add: same_body_def)

lemma same_body_trans: "same_body a b \<Longrightarrow> same_body b c \<Longrightarrow> same_body a c"
  by (simp add: same_body_def)

lemma wr_Some: "h a = Some f \<Longrightarrow> wr (Some a) g h = Some (h(a \<mapsto> g f))"
  by (simp add: wr_def)

lemma wr_link:
  assumes "h a = Some f" "body (g f) = body f"
  shows "wr (Some a) g h = Some (h(a \<mapsto> g f))" "same_body h (h(a \<mapsto> g f))"
  using assms by (simp_all add: wr_def same_body_def)

text \<open>Closing the ring over its two ends, with \<open>m\<close> in between or not.\<close>

lemma close_ends:
  assumes seg: "dlseg h p ys n" and d: "distinct ys" "ys \<noteq> []"
  obtains h1 h2 where "wr (Some (hd ys)) (f_prev_update (\<lambda>_. Some q)) h = Some h1"
    "wr (Some (last ys)) (f_next_update (\<lambda>_. Some m)) h1 = Some h2"
    "dlseg h1 q ys n" "dlseg h2 q ys m" "same_body h h1" "same_body h h2"
    "\<forall>a. a \<notin> set ys \<longrightarrow> h1 a = h a \<and> h2 a = h a"
proof -
  obtain y zs where y: "ys = y # zs" using d(2) by (cases ys) auto
  obtain fy where fy: "h y = Some fy" using dlseg_dom [OF seg, of y] y by auto
  define h1 where h1: "h1 = h(y \<mapsto> fy\<lparr>f_prev := Some q\<rparr>)"
  have s1: "dlseg h1 q ys n" using dlseg_set_prev [of h p y zs n fy q] fy seg d(1) unfolding y h1 by simp
  obtain xs x where x: "ys = xs @ [x]" using d(2) by (metis rev_exhaust)
  obtain fx where fx: "h1 x = Some fx" using dlseg_dom [OF s1, of x] x by auto
  define h2 where h2: "h2 = h1(x \<mapsto> fx\<lparr>f_next := Some m\<rparr>)"
  have s2: "dlseg h2 q ys m" using dlseg_set_next [of h1 q xs x n fx m] fx s1 d(1) unfolding x h2 by simp
  have w1: "wr (Some (hd ys)) (f_prev_update (\<lambda>_. Some q)) h = Some h1" "same_body h h1"
    using wr_link [where h=h and a=y and f=fy and g="f_prev_update (\<lambda>_. Some q)"] fy by (simp_all add: y h1)
  have w2: "wr (Some (last ys)) (f_next_update (\<lambda>_. Some m)) h1 = Some h2" "same_body h1 h2"
    using wr_link [where h=h1 and a=x and f=fx and g="f_next_update (\<lambda>_. Some m)"] fx by (simp_all add: x h2)
  have "y \<in> set ys" by (simp add: y)
  moreover have "x \<in> set ys" by (simp add: x)
  ultimately have out: "\<forall>a. a \<notin> set ys \<longrightarrow> h1 a = h a \<and> h2 a = h a"
    unfolding h1 h2 by (metis fun_upd_other)
  show thesis using that w1 w2 s1 s2 same_body_trans [OF w1(2) w2(2)] out by blast
qed

text \<open>Removing a structure from a ring of at least two.\<close>

lemma remove_spec:
  assumes r: "ring (heap s) (f # ys)" and ys: "ys \<noteq> []"
  shows "\<exists>h'. remove_file_free f s = Some (s\<lparr>heap := h',
      first_file := (if first_file s = Some f then Some (hd ys) else first_file s)\<rparr>) \<and>
    ring h' ys \<and> same_body (heap s) h' \<and> h' f = map_option body (heap s f) \<and>
    (\<forall>a. a \<notin> set (f # ys) \<longrightarrow> h' a = heap s a)"
proof -
  obtain fx where fx: "heap s f = Some fx" "f_prev fx = Some (last ys)" "f_next fx = Some (hd ys)"
      "dlseg (heap s) f ys f" "distinct ys" "f \<notin> set ys"
    using r ys by (auto simp: ring_def)
  from close_ends [OF fx(4,5) ys, of "last ys" "hd ys"] obtain h1 h2 where
    h1: "wr (Some (hd ys)) (f_prev_update (\<lambda>_. Some (last ys))) (heap s) = Some h1" and
    h2: "wr (Some (last ys)) (f_next_update (\<lambda>_. Some (hd ys))) h1 = Some h2" and
    seg: "dlseg h2 (last ys) ys (hd ys)" and sb: "same_body (heap s) h2" and
    out: "\<forall>a. a \<notin> set ys \<longrightarrow> h1 a = heap s a \<and> h2 a = heap s a" by blast
  define h3 where h3: "h3 = h2(f \<mapsto> body fx)"
  have hf: "h1 f = Some fx" "h2 f = Some fx" using out fx(1,6) by auto
  have "remove_file_free f s = Some (s\<lparr>heap := h3,
      first_file := (if first_file s = Some f then Some (hd ys) else first_file s)\<rparr>)"
    by (simp add: remove_file_free_def fx(1-3) h1 h2 hf rd_def wr_Some h3 body_def)
  moreover have "ring h3 ys" using seg fx(5,6) ys by (simp add: ring_def h3)
  moreover have "same_body (heap s) h3" using sb hf fx(1) by (auto simp: same_body_def h3 body_def)
  moreover have "h3 f = map_option body (heap s f)" by (simp add: h3 fx(1))
  moreover have "\<forall>a. a \<notin> set (f # ys) \<longrightarrow> h3 a = heap s a" using out by (simp add: h3)
  ultimately show ?thesis by blast
qed

text \<open>A structure that is in no ring is removed without effect, unless it is the first one.\<close>

lemma remove_loose:
  assumes "heap s f = Some fx" "f_next fx = None" "f_prev fx = None" "first_file s \<noteq> Some f"
  shows "remove_file_free f s = Some s"
proof -
  have "(heap s)(f \<mapsto> fx\<lparr>f_next := None, f_prev := None\<rparr>) = heap s"
    using assms by (cases fx) (auto simp: fun_eq_iff)
  with assms show ?thesis by (simp add: remove_file_free_def wr_Some)
qed

text \<open>A loose structure goes in between the last and the first.\<close>

lemma enter_ring:
  assumes r: "ring h ys" and f: "f \<notin> set ys" "h f = Some fx"
    and h0: "h0 = h(f \<mapsto> fx\<lparr>f_prev := Some (last ys), f_next := Some (hd ys)\<rparr>)"
  obtains h1 h2 where "wr (Some (hd ys)) (f_prev_update (\<lambda>_. Some f)) h0 = Some h1"
    "wr (Some (last ys)) (f_next_update (\<lambda>_. Some f)) h1 = Some h2" "ring h2 (f # ys)" "ring h2 (ys @ [f])"
    "same_body h h2" "\<forall>a. a \<notin> set ys \<longrightarrow> h1 a = h0 a \<and> h2 a = h0 a"
proof -
  have ys: "ys \<noteq> []" "distinct ys" "dlseg h0 (last ys) ys (hd ys)"
    using r f by (simp_all add: ring_def h0)
  from close_ends [OF ys(3,2,1), of f f] obtain h1 h2 where
    h: "wr (Some (hd ys)) (f_prev_update (\<lambda>_. Some f)) h0 = Some h1"
      "wr (Some (last ys)) (f_next_update (\<lambda>_. Some f)) h1 = Some h2"
      "dlseg h2 f ys f" "same_body h0 h2" "\<forall>a. a \<notin> set ys \<longrightarrow> h1 a = h0 a \<and> h2 a = h0 a" by blast
  have "h2 f = h0 f" using h(5) f(1) by blast
  then have r2: "ring h2 (f # ys)" using h(3) ys f by (auto simp: ring_def h0)
  moreover from ring_rotate [of h2 "[f]" ys] r2 have "ring h2 (ys @ [f])" by simp
  moreover have "same_body h h0" using f(2) by (simp add: same_body_def h0)
  from same_body_trans [OF this h(4)] have "same_body h h2" .
  ultimately show thesis using that h by blast
qed

lemma insert_spec:
  assumes r: "ring (heap s) ys" and f: "f \<notin> set ys" "heap s f = Some fx" and first: "first_file s = Some (hd ys)"
  shows "\<exists>h'. insert_file_free f s = Some (s\<lparr>heap := h', first_file := Some f\<rparr>) \<and> ring h' (f # ys) \<and>
    same_body (heap s) h' \<and> (\<forall>a. a \<notin> set (f # ys) \<longrightarrow> h' a = heap s a)"
proof -
  let ?h0 = "(heap s)(f \<mapsto> fx\<lparr>f_prev := Some (last ys), f_next := Some (hd ys)\<rparr>)"
  obtain h1 h2 where h: "wr (Some (hd ys)) (f_prev_update (\<lambda>_. Some f)) ?h0 = Some h1"
      "wr (Some (last ys)) (f_next_update (\<lambda>_. Some f)) h1 = Some h2" "ring h2 (f # ys)"
      "same_body (heap s) h2" "\<forall>a. a \<notin> set ys \<longrightarrow> h1 a = ?h0 a \<and> h2 a = ?h0 a"
    using enter_ring [OF r f refl] by blast
  obtain fy where fy: "heap s (hd ys) = Some fy" "f_prev fy = Some (last ys)"
    using r by (cases ys) (auto simp: ring_def)
  have ne: "hd ys \<noteq> f" using r f(1) by (cases ys) (auto simp: ring_def)
  have hf: "h1 f = ?h0 f" using h(5) f(1) by blast
  have "insert_file_free f s = Some (s\<lparr>heap := h2, first_file := Some f\<rparr>)"
    using h(1,2) ne by (simp add: insert_file_free_def first f fy rd_def wr_Some hf)
  with h(3-5) show ?thesis by auto
qed

lemma put_last_unfold:
  assumes "remove_file_free f s = Some s" "first_file s = Some a" "heap s a = Some fy" "f_prev fy = Some b"
    "a \<noteq> f" "b \<noteq> f" "heap s f = Some fx" "heap s b = Some fl"
  shows "put_last_free f s =
    map_option (\<lambda>h. s\<lparr>heap := h\<rparr>)
      (Option.bind (wr (Some a) (f_prev_update (\<lambda>_. Some f))
         ((heap s)(f \<mapsto> fx\<lparr>f_prev := Some b, f_next := Some a\<rparr>))) (wr (Some b) (f_next_update (\<lambda>_. Some f))))"
  using assms
  by (cases "a = b")
    (simp_all add: put_last_free_def rd_def wr_Some fun_upd_twist [of b f] fun_upd_twist [of b a])

lemma put_last_spec:
  assumes r: "ring (heap s) ys" and f: "f \<notin> set ys" "heap s f = Some fx" "f_next fx = None" "f_prev fx = None"
    and first: "first_file s = Some (hd ys)"
  shows "\<exists>h'. put_last_free f s = Some (s\<lparr>heap := h'\<rparr>) \<and> ring h' (ys @ [f]) \<and>
    same_body (heap s) h' \<and> (\<forall>a. a \<notin> set (f # ys) \<longrightarrow> h' a = heap s a)"
proof -
  let ?h0 = "(heap s)(f \<mapsto> fx\<lparr>f_prev := Some (last ys), f_next := Some (hd ys)\<rparr>)"
  obtain h1 h2 where h: "wr (Some (hd ys)) (f_prev_update (\<lambda>_. Some f)) ?h0 = Some h1"
      "wr (Some (last ys)) (f_next_update (\<lambda>_. Some f)) h1 = Some h2" "ring h2 (ys @ [f])"
      "same_body (heap s) h2" "\<forall>a. a \<notin> set ys \<longrightarrow> h1 a = ?h0 a \<and> h2 a = ?h0 a"
    using enter_ring [OF r f(1,2) refl] by blast
  obtain fy where fy: "heap s (hd ys) = Some fy" "f_prev fy = Some (last ys)"
    using r by (cases ys) (auto simp: ring_def)
  have ne: "ys \<noteq> []" using r by (simp add: ring_def)
  then have "hd ys \<in> set ys" "last ys \<in> set ys" by auto
  with f(1) have ne': "hd ys \<noteq> f" "last ys \<noteq> f" by auto
  obtain fl where fl: "heap s (last ys) = Some fl" using ring_dom [OF r, of "last ys"] ne by auto
  have "remove_file_free f s = Some s" using remove_loose [OF f(2-4)] first ne'(1) by simp
  from put_last_unfold [OF this first fy ne' f(2) fl] h show ?thesis by auto
qed

section \<open>Taking a file\<close>

text \<open>
  The table is well formed when its structures form a ring of \<open>nr_files\<close> entries, the first of
  which is \<open>first_file\<close>, or when it is empty.
\<close>

definition wf_ftab :: "ftab \<Rightarrow> faddr list \<Rightarrow> bool" where
  "wf_ftab s xs \<longleftrightarrow> nr_files s = int (length xs) \<and>
     (if xs = [] then first_file s = None else ring (heap s) xs \<and> first_file s = Some (hd xs) \<and> 2 \<le> length xs)"

lemma find_unused_seg:
  assumes "dlseg h p xs n"
  shows "find_unused h (length xs) (if xs = [] then any else Some (hd xs)) =
    Some (List.find (\<lambda>a. \<exists>f. h a = Some f \<and> f_count f = 0) xs)"
  using assms
proof (induction xs arbitrary: p any)
  case (Cons x xs)
  then obtain f where f: "h x = Some f" "f_next f = Some (if xs = [] then n else hd xs)" by auto
  have "find_unused h (length xs) (f_next f) = Some (List.find (\<lambda>a. \<exists>f. h a = Some f \<and> f_count f = 0) xs)"
    using Cons.IH [of x "Some n"] Cons.prems f(2) by (cases "xs = []") simp_all
  with f(1) show ?case by (simp add: rd_def)
qed simp

lemma find_unused_ring:
  assumes "wf_ftab s xs"
  shows "find_unused (heap s) (nat (nr_files s)) (first_file s) =
    Some (List.find (\<lambda>a. \<exists>f. heap s a = Some f \<and> f_count f = 0) xs)"
  using assms find_unused_seg [of "heap s" "last xs" xs "hd xs" None]
  by (cases "xs = []") (auto simp: wf_ftab_def ring_def)

lemma same_body_count: "same_body h h' \<Longrightarrow> h a = Some f \<Longrightarrow> \<exists>f'. h' a = Some f' \<and> body f' = body f"
  by (auto simp: same_body_def dest: spec [of _ a])

lemma take_file_spec:
  assumes wf: "wf_ftab s (us @ f # vs)" and hf: "heap s f = Some fx"
  shows "\<exists>h'. take_file f s = Some (s\<lparr>heap := h', first_file := Some (hd (us @ vs))\<rparr>) \<and>
    wf_ftab (s\<lparr>heap := h', first_file := Some (hd (us @ vs))\<rparr>) (us @ vs @ [f]) \<and>
    map_option body (h' f) = Some (zero_file\<lparr>f_count := 1\<rparr>) \<and>
    (\<forall>a. a \<noteq> f \<longrightarrow> map_option body (h' a) = map_option body (heap s a))"
proof -
  define ys where ys: "ys = us @ vs"
  have r: "ring (heap s) (f # vs @ us)" and ne: "ys \<noteq> []" and d: "f \<notin> set ys"
    using wf ring_rotate [of "heap s" us "f # vs"] by (auto simp: wf_ftab_def ys ring_def split: if_splits)
  define s1 where s1: "s1 = s\<lparr>first_file := Some (hd ys)\<rparr>"
  from remove_spec [OF r] ne obtain h1 where h1:
      "remove_file_free f s = Some (s\<lparr>heap := h1,
        first_file := (if first_file s = Some f then Some (hd (vs @ us)) else first_file s)\<rparr>)"
      "ring h1 (vs @ us)" "same_body (heap s) h1" "h1 f = map_option body (heap s f)"
      "\<forall>a. a \<notin> set (f # vs @ us) \<longrightarrow> h1 a = heap s a" by (auto simp: ys)
  have first: "(if first_file s = Some f then Some (hd (vs @ us)) else first_file s) = Some (hd ys)"
    using wf d by (cases us) (auto simp: wf_ftab_def ys)
  have r1: "ring h1 ys" using ring_rotate [OF h1(2)] by (simp add: ys)
  let ?h2 = "h1(f \<mapsto> zero_file)"
  have w2: "wr (Some f) (\<lambda>_. zero_file) h1 = Some ?h2" using h1(4) hf by (simp add: wr_Some)
  have r2: "ring ?h2 ys" using r1 d by (simp add: ring_def)
  from put_last_spec [of "s1\<lparr>heap := ?h2\<rparr>" ys f zero_file] r2 d obtain h3 where h3:
      "put_last_free f (s1\<lparr>heap := ?h2\<rparr>) = Some (s1\<lparr>heap := h3\<rparr>)" "ring h3 (ys @ [f])" "same_body ?h2 h3"
    by (auto simp: zero_file_def s1)
  obtain f3 where f3: "h3 f = Some f3" "body f3 = body zero_file" using same_body_count [OF h3(3), of f] by auto
  let ?h4 = "h3(f \<mapsto> f3\<lparr>f_count := 1\<rparr>)"
  have tk: "take_file f s = Some (s1\<lparr>heap := ?h4\<rparr>)"
    using h1(1) w2 h3(1) f3 by (simp add: take_file_def first s1 wr_Some)
  have "dlseg ?h4 p zs n" if "dlseg h3 p zs n" for p zs n
    using that f3(1) by (induction zs arbitrary: p) auto
  then have "ring ?h4 (ys @ [f])" using h3(2) by (simp add: ring_def)
  then have "wf_ftab (s\<lparr>heap := ?h4, first_file := Some (hd ys)\<rparr>) (us @ vs @ [f])"
    using wf ne by (auto simp: wf_ftab_def ys hd_append split: if_splits)
  moreover have "map_option body (?h4 f) = Some (zero_file\<lparr>f_count := 1\<rparr>)"
    using f3(2) by (cases f3) (simp add: body_def zero_file_def)
  moreover have "map_option body (?h4 a) = map_option body (heap s a)" if "a \<noteq> f" for a
    using that h1(3) h3(3) by (simp add: same_body_def)
  ultimately show ?thesis using tk by (auto simp: s1 ys)
qed

section \<open>Growing the table\<close>

lemma insert_files_spec:
  assumes "ring (heap s) ys" "first_file s = Some (hd ys)" "set fs \<inter> set ys = {}" "distinct fs"
    and "\<forall>f \<in> set fs. heap s f \<noteq> None"
  shows "\<exists>h'. insert_files fs s = Some (s\<lparr>heap := h', first_file := Some (hd (rev fs @ ys))\<rparr>) \<and>
    ring h' (rev fs @ ys) \<and> same_body (heap s) h'"
  using assms
proof (induction fs arbitrary: s ys)
  case Nil
  then show ?case by (auto intro!: exI [of _ "heap s"])
next
  case (Cons f fs)
  obtain fx where "heap s f = Some fx" using Cons.prems(5) by auto
  from insert_spec [OF Cons.prems(1) _ this Cons.prems(2)] Cons.prems(3) obtain h1 where
    h1: "insert_file_free f s = Some (s\<lparr>heap := h1, first_file := Some f\<rparr>)" "ring h1 (f # ys)" "same_body (heap s) h1"
    by auto
  have "\<forall>g \<in> set fs. h1 g \<noteq> None"
    using Cons.prems(5) same_body_count [OF h1(3)] by fastforce
  with Cons.IH [of "s\<lparr>heap := h1, first_file := Some f\<rparr>" "f # ys"] Cons.prems(3,4) h1(2) obtain h2 where
    "insert_files fs (s\<lparr>heap := h1, first_file := Some f\<rparr>) =
       Some (s\<lparr>heap := h2, first_file := Some (hd (rev fs @ f # ys))\<rparr>)"
    "ring h2 (rev fs @ f # ys)" "same_body h1 h2" by auto
  with h1(1) same_body_trans [OF h1(3)] show ?case by (intro exI [of _ h2]) simp
qed

definition page_addrs :: "nat \<Rightarrow> faddr list" where
  "page_addrs pg = map (\<lambda>i. pg * FILES_PER_PAGE + i) [0..<FILES_PER_PAGE]"

lemma page_addrs_mem: "a \<in> set (page_addrs pg) \<longleftrightarrow> a div FILES_PER_PAGE = pg"
proof -
  have "a \<in> set (page_addrs pg) \<longleftrightarrow> pg * 128 \<le> a \<and> a < 128 + pg * 128"
    by (auto simp: page_addrs_def FILES_PER_PAGE_def)
  also have "\<dots> \<longleftrightarrow> a div FILES_PER_PAGE = pg"
    unfolding FILES_PER_PAGE_def by linarith
  finally show ?thesis .
qed

lemma page_addrs_distinct: "distinct (page_addrs pg)" "length (page_addrs pg) = FILES_PER_PAGE"
  by (simp_all add: page_addrs_def distinct_map inj_on_def)

lemma page_addrs_Cons: "\<exists>a as. page_addrs pg = a # as \<and> as \<noteq> []"
proof -
  have "length (page_addrs pg) = 128" by (simp add: page_addrs_distinct FILES_PER_PAGE_def)
  then show ?thesis by (cases "page_addrs pg"; cases "tl (page_addrs pg)") auto
qed

lemma two_files: "2 \<le> FILES_PER_PAGE"
  by (simp add: FILES_PER_PAGE_def)

lemma grow_files_spec:
  assumes wf: "wf_ftab s xs" and fresh: "\<forall>a \<in> set xs. a div FILES_PER_PAGE \<noteq> pg"
  shows "\<exists>s' ys. grow_files (Some pg) s = Some s' \<and> wf_ftab s' (ys @ xs) \<and> set ys = set (page_addrs pg) \<and>
    nr_files s' = nr_files s + int FILES_PER_PAGE \<and>
    (\<forall>a. map_option body (heap s' a) = (if a \<in> set ys then Some zero_file else map_option body (heap s a)))"
proof -
  let ?h = "page_files pg (heap s)" and ?n = "nr_files s + int FILES_PER_PAGE"
  obtain a as where as: "page_addrs pg = a # as" "as \<noteq> []" using page_addrs_Cons by blast
  have mem: "b div FILES_PER_PAGE = pg \<longleftrightarrow> b = a \<or> b \<in> set as" for b using page_addrs_mem [of b pg] as by auto
  have d: "distinct (a # as)" "length (a # as) = FILES_PER_PAGE" using page_addrs_distinct [of pg] as by auto
  have z: "body zero_file = zero_file" by (simp add: body_def zero_file_def)
  have old: "map_option body (?h b) = (if b = a \<or> b \<in> set as then Some zero_file else map_option body (heap s b))" for b
    by (simp add: page_files_def mem z)
  show ?thesis
  proof (cases "xs = []")
    case True
    let ?hx = "?h(a \<mapsto> zero_file\<lparr>f_next := Some a, f_prev := Some a\<rparr>)"
    have ha: "?h a = Some zero_file" using mem by (simp add: page_files_def)
    have "ring ?hx [a]" by (simp add: ring_def)
    moreover have "\<forall>f \<in> set as. ?hx f \<noteq> None" using mem d by (auto simp: page_files_def)
    ultimately obtain h' where h': "insert_files as (s\<lparr>heap := ?hx, nr_files := ?n, first_file := Some a\<rparr>) =
        Some (s\<lparr>heap := h', nr_files := ?n, first_file := Some (hd (rev as @ [a]))\<rparr>)"
        "ring h' (rev as @ [a])" "same_body ?hx h'"
      using insert_files_spec [of "s\<lparr>heap := ?hx, nr_files := ?n, first_file := Some a\<rparr>" "[a]" as] d by auto
    have "grow_files (Some pg) s = Some (s\<lparr>heap := h', nr_files := ?n, first_file := Some (hd (rev as @ [a]))\<rparr>)"
      using h'(1) True wf ha as by (simp add: grow_files_def Let_def page_addrs_def [symmetric] wf_ftab_def wr_Some)
    moreover have "map_option body (h' b) = (if b = a \<or> b \<in> set as then Some zero_file else map_option body (heap s b))" for b
      using h'(3) old [of b] z by (auto simp: same_body_def)
    ultimately show ?thesis using h'(2) as d wf True
      by (intro exI [of _ "s\<lparr>heap := h', nr_files := ?n, first_file := Some (hd (rev as @ [a]))\<rparr>"] exI [of _ "rev as @ [a]"])
        (auto simp: wf_ftab_def two_files)
  next
    case False
    have eq: "ring (heap s) xs" "first_file s = Some (hd xs)" using wf False by (auto simp: wf_ftab_def)
    have "dlseg ?h p zs n" if "dlseg (heap s) p zs n" "set zs \<subseteq> set xs" for p zs n
      using that fresh by (induction zs arbitrary: p) (auto simp: page_files_def)
    then have "ring ?h xs" using eq(1) by (simp add: ring_def)
    moreover have "set (a # as) \<inter> set xs = {}" "\<forall>f \<in> set (a # as). ?h f \<noteq> None"
      using fresh mem by (auto simp: page_files_def)
    ultimately obtain h' where h': "insert_files (a # as) (s\<lparr>heap := ?h, nr_files := ?n\<rparr>) =
        Some (s\<lparr>heap := h', nr_files := ?n, first_file := Some (hd (rev (a # as) @ xs))\<rparr>)"
        "ring h' (rev (a # as) @ xs)" "same_body ?h h'"
      using insert_files_spec [of "s\<lparr>heap := ?h, nr_files := ?n\<rparr>" xs "a # as"] d eq(2) by auto
    have "grow_files (Some pg) s = Some (s\<lparr>heap := h', nr_files := ?n, first_file := Some (hd (rev (a # as) @ xs))\<rparr>)"
      using h'(1) eq(2) as by (simp add: grow_files_def Let_def page_addrs_def [symmetric])
    moreover have "map_option body (h' b) = (if b = a \<or> b \<in> set as then Some zero_file else map_option body (heap s b))" for b
      using h'(3) old [of b] by (auto simp: same_body_def)
    ultimately show ?thesis using h'(2) as d wf False
      by (intro exI [of _ "s\<lparr>heap := h', nr_files := ?n, first_file := Some (hd (rev (a # as) @ xs))\<rparr>"]
          exI [of _ "rev (a # as)"]) (auto simp: wf_ftab_def two_files)
  qed
qed

section \<open>\<open>get_empty_filp\<close>\<close>

definition unused :: "ftab \<Rightarrow> faddr \<Rightarrow> bool" where
  "unused s a \<longleftrightarrow> (case heap s a of None \<Rightarrow> False | Some f \<Rightarrow> f_count f = 0)"

definition contents :: "ftab \<Rightarrow> faddr \<Rightarrow> kfile option" where
  "contents s a = map_option body (heap s a)"

lemma unused_body: "unused s a \<longleftrightarrow> (\<exists>f. contents s a = Some f \<and> f_count f = 0)"
  by (auto simp: unused_def contents_def body_def split: option.splits)

text \<open>What a successful call does: it takes an unused structure, or one of a new page.\<close>

definition took :: "ftab \<Rightarrow> faddr list \<Rightarrow> faddr \<Rightarrow> ftab \<Rightarrow> faddr list \<Rightarrow> bool" where
  "took s xs f s' xs' \<longleftrightarrow> wf_ftab s' xs' \<and> set xs \<subseteq> set xs' \<and> f \<in> set xs' \<and>
     (f \<in> set xs \<longrightarrow> unused s f) \<and> contents s' f = Some (zero_file\<lparr>f_count := 1\<rparr>) \<and>
     (\<forall>a \<in> set xs. a \<noteq> f \<longrightarrow> contents s' a = contents s a)"

lemma find_unused_wf:
  assumes "wf_ftab s xs"
  shows "find_unused (heap s) (nat (nr_files s)) (first_file s) = Some (List.find (unused s) xs)"
proof -
  have "(\<lambda>a. \<exists>f. heap s a = Some f \<and> f_count f = 0) = unused s"
    by (auto simp: unused_def fun_eq_iff split: option.splits)
  with find_unused_ring [OF assms] show ?thesis by simp
qed

declare filp_repeat.simps [simp del]

lemma filp_repeat_found:
  assumes wf: "wf_ftab s xs" and f: "List.find (unused s) xs = Some f"
  shows "\<exists>s' xs'. filp_repeat pages s = Some (Some f, s', pages) \<and> took s xs f s' xs'"
proof -
  have fu: "f \<in> set xs" "unused s f" using f by (auto simp: find_Some_iff)
  then obtain us vs where xs: "xs = us @ f # vs" by (meson split_list)
  obtain fx where fx: "heap s f = Some fx" using fu(2) by (auto simp: unused_def split: option.splits)
  from take_file_spec [OF wf [unfolded xs] fx] obtain s' where
    s': "take_file f s = Some s'" "wf_ftab s' (us @ vs @ [f])" "contents s' f = Some (zero_file\<lparr>f_count := 1\<rparr>)"
      "\<forall>a. a \<noteq> f \<longrightarrow> contents s' a = contents s a"
    by (force simp: contents_def)
  then have "took s xs f s' (us @ vs @ [f])" using fu(2) by (auto simp: took_def xs)
  moreover have "filp_repeat pages s = Some (Some f, s', pages)"
    using find_unused_wf [OF wf] f s'(1) by (simp add: filp_repeat.simps [of pages s])
  ultimately show ?thesis by blast
qed

lemma grow_then_take:
  assumes wf: "wf_ftab s xs" and full: "List.find (unused s) xs = None"
    and fresh: "\<forall>a \<in> set xs. a div FILES_PER_PAGE \<noteq> pg"
  shows "\<exists>f s' xs'. Option.bind (grow_files (Some pg) s) (filp_repeat pages) = Some (Some f, s', pages) \<and> took s xs f s' xs'"
proof -
  obtain s1 ys where g: "grow_files (Some pg) s = Some s1" "wf_ftab s1 (ys @ xs)" "set ys = set (page_addrs pg)"
      "\<forall>a. contents s1 a = (if a \<in> set ys then Some zero_file else contents s a)"
    using grow_files_spec [OF wf fresh] by (auto simp: contents_def)
  have disj: "set ys \<inter> set xs = {}" using fresh by (auto simp: g(3) page_addrs_mem)
  have un: "unused s1 a \<longleftrightarrow> a \<in> set ys \<or> unused s a" for a
    using g(4) by (auto simp: unused_body zero_file_def)
  obtain y ys' where "ys = y # ys'" using page_addrs_Cons [of pg] g(3) by (cases ys) auto
  then have "List.find (unused s1) (ys @ xs) = Some y" by (simp add: un)
  from filp_repeat_found [OF g(2) this] obtain s' xs' where
    s': "filp_repeat pages s1 = Some (Some y, s', pages)" "took s1 (ys @ xs) y s' xs'" by blast
  have "y \<notin> set xs" using disj \<open>ys = y # ys'\<close> by auto
  moreover have "contents s1 a = contents s a" if "a \<in> set xs" for a using g(4) disj that by auto
  ultimately have "took s xs y s' xs'" using s'(2) by (auto simp: took_def)
  with s'(1) g(1) show ?thesis by auto
qed

section \<open>The table as a pool\<close>

text \<open>
  The state of the pool is the table with the pages \<open>get_free_page\<close> will still give. Those pages
  hold no structure yet and differ from each other.
\<close>

type_synonym filp_pool = "ftab \<times> nat option list"

definition pool_inv :: "filp_pool \<Rightarrow> bool" where
  "pool_inv p \<longleftrightarrow> (\<exists>xs. wf_ftab (fst p) xs) \<and> distinct (filter (\<lambda>q. q \<noteq> None) (snd p)) \<and>
     (\<forall>a. Some (a div FILES_PER_PAGE) \<in> set (snd p) \<longrightarrow> contents (fst p) a = None)"

definition used_file :: "ftab \<Rightarrow> faddr \<Rightarrow> bool" where
  "used_file s a \<longleftrightarrow> (case contents s a of None \<Rightarrow> False | Some f \<Rightarrow> f_count f \<noteq> 0)"

definition in_use :: "filp_pool \<Rightarrow> faddr \<Rightarrow> bool" where
  "in_use p = used_file (fst p)"

text \<open>\<open>f\<close> is handed out between two states: nothing else becomes used or unused, or changes while in use.\<close>

definition handed_out :: "ftab \<Rightarrow> faddr \<Rightarrow> ftab \<Rightarrow> bool" where
  "handed_out s f s' \<longleftrightarrow> contents s' f = Some (zero_file\<lparr>f_count := 1\<rparr>) \<and> \<not> used_file s f \<and>
     (\<forall>b. b \<noteq> f \<longrightarrow> used_file s' b = used_file s b \<and> (used_file s b \<longrightarrow> contents s' b = contents s b))"

definition filp_alloc :: "filp_pool \<Rightarrow> (faddr \<times> filp_pool) option" where
  "filp_alloc p =
     (case get_empty_filp (snd p) (fst p) of
        Some (Some f, s, pages) \<Rightarrow> Some (f, s, pages)
      | _ \<Rightarrow> None)"

lemma pool_fresh:
  assumes "pool_inv (s, Some pg # pages)" "wf_ftab s xs"
  shows "\<forall>a \<in> set xs. a div FILES_PER_PAGE \<noteq> pg"
proof
  fix a assume "a \<in> set xs"
  then have "contents s a \<noteq> None"
    using assms(2) ring_dom [of "heap s" xs a] by (auto simp: wf_ftab_def contents_def split: if_splits)
  with assms(1) show "a div FILES_PER_PAGE \<noteq> pg" by (auto simp: pool_inv_def)
qed

lemma pool_grow:
  assumes "pool_inv (s, Some pg # pages)" "wf_ftab s xs"
  shows "\<exists>s1. grow_files (Some pg) s = Some s1 \<and> pool_inv (s1, pages) \<and>
    (\<forall>a. used_file s1 a = used_file s a \<and> (used_file s a \<longrightarrow> contents s1 a = contents s a))"
proof -
  obtain s1 ys where g: "grow_files (Some pg) s = Some s1" "wf_ftab s1 (ys @ xs)" "set ys = set (page_addrs pg)"
      "\<forall>a. contents s1 a = (if a \<in> set ys then Some zero_file else contents s a)"
    using grow_files_spec [OF assms(2) pool_fresh [OF assms]] by (auto simp: contents_def)
  have ys: "a \<in> set ys \<longleftrightarrow> a div FILES_PER_PAGE = pg" for a by (simp add: g(3) page_addrs_mem)
  have "pool_inv (s1, pages)"
    using assms(1) g(2,4) by (auto simp: pool_inv_def ys)
  moreover have "used_file s1 a = used_file s a \<and> (used_file s a \<longrightarrow> contents s1 a = contents s a)" for a
    using assms(1) g(4) by (auto simp: used_file_def pool_inv_def ys zero_file_def split: option.splits)
  ultimately show ?thesis using g(1) by blast
qed

lemma pool_take:
  assumes p: "pool_inv (s, pages)" and wf: "wf_ftab s xs" and f: "List.find (unused s) xs = Some f"
  shows "\<exists>s'. filp_repeat pages s = Some (Some f, s', pages) \<and> pool_inv (s', pages) \<and> handed_out s f s'"
proof -
  have fu: "f \<in> set xs" "unused s f" using f by (auto simp: find_Some_iff)
  then obtain us vs where xs: "xs = us @ f # vs" by (meson split_list)
  obtain fx where fx: "heap s f = Some fx" using fu(2) by (auto simp: unused_def split: option.splits)
  from take_file_spec [OF wf [unfolded xs] fx] obtain s' where
    s': "take_file f s = Some s'" "wf_ftab s' (us @ vs @ [f])" "contents s' f = Some (zero_file\<lparr>f_count := 1\<rparr>)"
      "\<forall>a. a \<noteq> f \<longrightarrow> contents s' a = contents s a"
    by (force simp: contents_def)
  have nf: "contents s f \<noteq> None" using fx by (simp add: contents_def)
  have "contents s' a = None" if "contents s a = None" for a using that s'(4) nf by (cases "a = f") auto
  then have "pool_inv (s', pages)" using p s'(2) by (auto simp: pool_inv_def)
  moreover have "filp_repeat pages s = Some (Some f, s', pages)"
    using find_unused_wf [OF wf] f s'(1) by (simp add: filp_repeat.simps [of pages s])
  moreover have "handed_out s f s'"
    using fu(2) s'(3,4) by (auto simp: handed_out_def used_file_def unused_body)
  ultimately show ?thesis by blast
qed

lemma pool_repeat:
  assumes "pool_inv (s, pages)" "filp_repeat pages s = Some (Some f, s', pages')"
  shows "pool_inv (s', pages') \<and> handed_out s f s'"
  using assms
proof (induction pages arbitrary: s)
  case Nil
  then obtain xs where wf: "wf_ftab s xs" by (auto simp: pool_inv_def)
  show ?case
  proof (cases "List.find (unused s) xs")
    case None
    with Nil find_unused_wf [OF wf] show ?thesis by (simp add: filp_repeat.simps [of _ s] split: if_splits)
  next
    case (Some g)
    with pool_take [OF Nil.prems(1) wf Some] Nil.prems(2) show ?thesis by auto
  qed
next
  case (Cons pg pages)
  then obtain xs where wf: "wf_ftab s xs" by (auto simp: pool_inv_def)
  show ?case
  proof (cases "List.find (unused s) xs")
    case (Some g)
    with pool_take [OF Cons.prems(1) wf Some] Cons.prems(2) show ?thesis by auto
  next
    case None
    then have step: "Option.bind (grow_files pg s) (filp_repeat pages) = Some (Some f, s', pages')"
      using Cons.prems(2) find_unused_wf [OF wf] by (simp add: filp_repeat.simps [of _ s] split: if_splits)
    show ?thesis
    proof (cases pg)
      case None
      have "pool_inv (s, pages)" using Cons.prems(1) by (auto simp: pool_inv_def None)
      with Cons.IH step None show ?thesis by (simp add: grow_files_def)
    next
      case (Some n)
      obtain s1 where s1: "grow_files (Some n) s = Some s1" "pool_inv (s1, pages)"
          "\<forall>a. used_file s1 a = used_file s a \<and> (used_file s a \<longrightarrow> contents s1 a = contents s a)"
        using pool_grow [OF Cons.prems(1) [unfolded Some] wf] by blast
      have "filp_repeat pages s1 = Some (Some f, s', pages')" using step s1(1) Some by simp
      from Cons.IH [OF s1(2) this] s1(3) show ?thesis by (auto simp: handed_out_def)
    qed
  qed
qed

lemma get_empty_filp_repeat:
  assumes "wf_ftab s xs"
  shows "get_empty_filp pages s = filp_repeat pages s"
proof (cases "first_file s")
  case None
  then have "xs = []" using assms by (auto simp: wf_ftab_def split: if_splits)
  with assms have "nr_files s = 0" "find_unused (heap s) (nat (nr_files s)) (first_file s) = Some None"
    using find_unused_wf [OF assms] by (simp_all add: wf_ftab_def)
  with None show ?thesis by (simp add: get_empty_filp_def filp_repeat.simps [of pages s] NR_FILE_def)
qed (simp add: get_empty_filp_def)

text \<open>A call that returns NULL has changed nothing.\<close>

lemma repeat_none:
  assumes "pool_inv (s, pages)" "filp_repeat pages s = Some (None, s', pages')"
  shows "s' = s \<and> pool_inv (s, pages')"
  using assms
proof (induction pages arbitrary: s)
  case Nil
  then obtain xs where wf: "wf_ftab s xs" by (auto simp: pool_inv_def)
  from Nil find_unused_wf [OF wf] show ?case
    by (auto simp: filp_repeat.simps [of _ s] split: if_splits option.splits)
next
  case (Cons pg pages)
  then obtain xs where wf: "wf_ftab s xs" by (auto simp: pool_inv_def)
  show ?case
  proof (cases "List.find (unused s) xs = None \<and> nr_files s < NR_FILE")
    case True
    then have step: "Option.bind (grow_files pg s) (filp_repeat pages) = Some (None, s', pages')"
      using Cons.prems(2) find_unused_wf [OF wf] by (simp add: filp_repeat.simps [of _ s])
    show ?thesis
    proof (cases pg)
      case None
      have "pool_inv (s, pages)" using Cons.prems(1) by (auto simp: pool_inv_def None)
      with Cons.IH step None show ?thesis by (simp add: grow_files_def)
    next
      case (Some n)
      from grow_then_take [OF wf _ pool_fresh [OF Cons.prems(1) [unfolded Some] wf], of pages] True step Some
      show ?thesis by auto
    qed
  next
    case False
    with Cons.prems find_unused_wf [OF wf] show ?thesis
      by (auto simp: filp_repeat.simps [of _ s] split: option.splits if_splits)
  qed
qed

lemma get_empty_filp_pool:
  assumes inv: "pool_inv (s, pages)" and g: "get_empty_filp pages s = Some (r, s', pages')"
  shows "pool_inv (s', pages') \<and> (case r of None \<Rightarrow> s' = s | Some f \<Rightarrow> handed_out s f s')"
proof -
  obtain xs where "wf_ftab s xs" using inv by (auto simp: pool_inv_def)
  with g have "filp_repeat pages s = Some (r, s', pages')" by (simp add: get_empty_filp_repeat)
  with pool_repeat [OF inv] repeat_none [OF inv] show ?thesis by (cases r) auto
qed

interpretation filp: pool pool_inv in_use filp_alloc
proof -
  have main: "pool_inv p' \<and> \<not> in_use p f \<and> in_use p' f \<and> (\<forall>b. b \<noteq> f \<longrightarrow> in_use p' b = in_use p b)"
    if inv: "pool_inv p" and al: "filp_alloc p = Some (f, p')" for p f p'
  proof -
    have "get_empty_filp (snd p) (fst p) = Some (Some f, fst p', snd p')"
      using al by (auto simp: filp_alloc_def split: option.splits)
    from get_empty_filp_pool [OF _ this] inv show ?thesis
      by (auto simp: in_use_def handed_out_def used_file_def)
  qed
  show "pool pool_inv in_use filp_alloc"
    by unfold_locales (use main in blast)+
qed

section \<open>Properties\<close>

text \<open>
  C24: with a well-formed table, and a fresh page when one is asked for, \<open>get_empty_filp\<close> returns.
  It never hands out a structure that is in use: the one it returns was unused, or is new, and
  comes back cleared with a count of one; the other files keep their contents and the ring stays
  a ring. It returns NULL only when all structures are in use and the limit \<open>NR_FILE\<close> is reached.
\<close>

theorem get_empty_filp_hands_out_unused:
  assumes "wf_ftab s xs" and "\<forall>a \<in> set xs. a div FILES_PER_PAGE \<noteq> pg"
  shows "\<exists>r s' pages'. get_empty_filp (Some pg # pages) s = Some (r, s', pages') \<and>
    (case r of
       None \<Rightarrow> s' = s \<and> NR_FILE \<le> nr_files s \<and> (\<forall>a \<in> set xs. \<not> unused s a)
     | Some f \<Rightarrow> (f \<in> set xs \<longrightarrow> unused s f) \<and> contents s' f = Some (zero_file\<lparr>f_count := 1\<rparr>) \<and>
         (\<forall>a \<in> set xs. a \<noteq> f \<longrightarrow> contents s' a = contents s a) \<and>
         (\<exists>xs'. wf_ftab s' xs' \<and> set xs \<subseteq> set xs' \<and> f \<in> set xs'))"
proof (cases "List.find (unused s) xs")
  case None
  show ?thesis
  proof (cases "first_file s = None \<or> nr_files s < NR_FILE")
    case True
    from grow_then_take [OF assms(1) None assms(2), of pages] obtain f s' xs' where
      g: "Option.bind (grow_files (Some pg) s) (filp_repeat pages) = Some (Some f, s', pages)" "took s xs f s' xs'" by blast
    have "filp_repeat (Some pg # pages) s = Option.bind (grow_files (Some pg) s) (filp_repeat pages)" if "nr_files s < NR_FILE"
      using that find_unused_wf [OF assms(1)] None by (simp add: filp_repeat.simps [of "Some pg # pages" s])
    with True g(1) have "get_empty_filp (Some pg # pages) s = Some (Some f, s', pages)"
      by (auto simp: get_empty_filp_def)
    with g(2) show ?thesis by (auto simp: took_def)
  next
    case False
    then have "get_empty_filp (Some pg # pages) s = Some (None, s, Some pg # pages)"
      using find_unused_wf [OF assms(1)] None
      by (auto simp: get_empty_filp_def filp_repeat.simps [of "Some pg # pages" s])
    with False None show ?thesis by (auto simp: find_None_iff)
  qed
next
  case (Some f)
  then have "first_file s \<noteq> None" using assms(1) by (auto simp: wf_ftab_def split: if_splits)
  with filp_repeat_found [OF assms(1) Some, of "Some pg # pages"] show ?thesis
    by (auto simp: get_empty_filp_def took_def)
qed

lemma get_empty_filp_hands_out_unused_witness:
  "\<exists>f s' pages'. get_empty_filp [Some 5] (file_table_init \<lparr>heap = \<lambda>_. None, first_file = None, nr_files = 0\<rparr>) =
     Some (Some f, s', pages') \<and> contents s' f = Some (zero_file\<lparr>f_count := 1\<rparr>)"
  using get_empty_filp_hands_out_unused
    [of "file_table_init \<lparr>heap = \<lambda>_. None, first_file = None, nr_files = 0\<rparr>" "[]" 5 "[]"]
  by (auto simp: wf_ftab_def file_table_init_def NR_FILE_def split: option.splits)

end
