(* ===== verification/Pipe.thy ===== *)
theory Pipe
  imports File_Table
begin

text \<open>
  fs/pipe.c and fs/fifo.c: pipes and named pipes.

  A pipe is a ring buffer of \<open>PIPE_BUF\<close> bytes with a start and a length, a lock count and counts of
  readers and writers. The data goes through user memory in the source; here the bytes a read
  delivers are its result and the bytes a write has still to store are its argument.

  A call runs until it returns or sleeps on the pipe's wait queue. Each function below is one such
  run; \<open>Sleep\<close> carries what the call keeps on its stack, and the function is entered again with it
  when the task is woken. Copying to or from user memory may sleep too, in a page fault, but with
  the pipe locked, so that no other call touches the buffer in between. The field \<open>wakes\<close> counts
  the calls of \<open>wake_up_interruptible\<close> on the wait queue.
\<close>

section \<open>Model\<close>

definition PIPE_BUF :: int where "PIPE_BUF = 4096"

record pipe_inode_info =
  base :: "8 word list option"
  start :: int
  len :: int
  lock :: int
  rd_openers :: int
  wr_openers :: int
  readers :: int
  writers :: int
  wakes :: nat

definition O_NONBLOCK :: int where "O_NONBLOCK = 0x800"

definition nonblocking :: "kfile \<Rightarrow> bool" where
  "nonblocking filp \<longleftrightarrow> f_flags filp AND O_NONBLOCK \<noteq> 0"

definition PIPE_EMPTY :: "pipe_inode_info \<Rightarrow> bool" where "PIPE_EMPTY p \<longleftrightarrow> len p = 0"
definition PIPE_FULL :: "pipe_inode_info \<Rightarrow> bool" where "PIPE_FULL p \<longleftrightarrow> len p = PIPE_BUF"
definition PIPE_FREE :: "pipe_inode_info \<Rightarrow> int" where "PIPE_FREE p = u32 (PIPE_BUF - len p)"
definition PIPE_END :: "pipe_inode_info \<Rightarrow> int" where
  "PIPE_END p = u32 (start p + len p) AND (PIPE_BUF - 1)"
definition PIPE_MAX_RCHUNK :: "pipe_inode_info \<Rightarrow> int" where
  "PIPE_MAX_RCHUNK p = u32 (PIPE_BUF - start p)"
definition PIPE_MAX_WCHUNK :: "pipe_inode_info \<Rightarrow> int" where
  "PIPE_MAX_WCHUNK p = u32 (PIPE_BUF - PIPE_END p)"

definition wake_up_interruptible :: "pipe_inode_info \<Rightarrow> pipe_inode_info" where
  "wake_up_interruptible p = p\<lparr>wakes := wakes p + 1\<rparr>"

text \<open>\<open>memcpy_tofs(buf, base + at, n)\<close> and \<open>memcpy_fromfs(base + at, bs, length bs)\<close>.\<close>

definition mem_read :: "8 word list option \<Rightarrow> int \<Rightarrow> int \<Rightarrow> 8 word list option" where
  "mem_read b at n =
     (case b of
        None \<Rightarrow> None
      | Some bs \<Rightarrow> if 0 \<le> at \<and> 0 \<le> n \<and> at + n \<le> int (length bs)
                 then Some (take (nat n) (drop (nat at) bs)) else None)"

definition mem_write :: "8 word list option \<Rightarrow> int \<Rightarrow> 8 word list \<Rightarrow> 8 word list option" where
  "mem_write b at xs =
     (case b of
        None \<Rightarrow> None
      | Some bs \<Rightarrow> if 0 \<le> at \<and> at + int (length xs) \<le> int (length bs)
                 then Some (take (nat at) bs @ xs @ drop (nat at + length xs) bs) else None)"

text \<open>The copy loop of \<open>pipe_read\<close>: \<open>None\<close> is a fault, or a loop that does not end.\<close>

partial_function (option) read_loop ::
  "pipe_inode_info \<Rightarrow> int \<Rightarrow> 8 word list \<Rightarrow> (pipe_inode_info \<times> 8 word list) option" where
  "read_loop p count acc =
     (if count > 0 \<and> len p \<noteq> 0
      then let chars = s32 (PIPE_MAX_RCHUNK p);
               chars = (if chars > count then count else chars);
               chars = (if chars > s32 (len p) then s32 (len p) else chars)
           in (case mem_read (base p) (start p) chars of
                 None \<Rightarrow> None
               | Some bs \<Rightarrow>
                   read_loop (p\<lparr>start := u32 (start p + chars) AND (PIPE_BUF - 1), len := u32 (len p - chars)\<rparr>)
                     (count - chars) (acc @ bs))
      else Some (p, acc))"

text \<open>\<open>pipe_read\<close> from the point where it takes the lock; the bytes read are the result.\<close>

definition read_locked ::
  "pipe_inode_info \<Rightarrow> int \<Rightarrow> pipe_inode_info \<times> (unit, 8 word list) outcome" where
  "read_locked p count =
     (case read_loop (p\<lparr>lock := u32 (lock p + 1)\<rparr>) count [] of
        None \<Rightarrow> (p, Fault)
      | Some (p, bs) \<Rightarrow>
          (let p = wake_up_interruptible (p\<lparr>lock := u32 (lock p - 1)\<rparr>)
           in if bs \<noteq> [] then (p, Ret bs)
              else if writers p \<noteq> 0 then (p, Err EAGAIN)
              else (p, Ret [])))"

text \<open>The waiting loop: entered at the call of a blocking read, and again after each sleep.\<close>

definition pipe_read_wait ::
  "task \<Rightarrow> pipe_inode_info \<Rightarrow> int \<Rightarrow> pipe_inode_info \<times> (unit, 8 word list) outcome" where
  "pipe_read_wait cur p count =
     (if PIPE_EMPTY p \<or> lock p \<noteq> 0
      then if PIPE_EMPTY p \<and> writers p = 0 then (p, Ret [])
           else if signal_pending cur then (p, Err ERESTARTSYS)
           else (p, Sleep ())
      else read_locked p count)"

definition pipe_read ::
  "task \<Rightarrow> kfile \<Rightarrow> pipe_inode_info \<Rightarrow> int \<Rightarrow> pipe_inode_info \<times> (unit, 8 word list) outcome" where
  "pipe_read cur filp p count =
     (if nonblocking filp
      then if lock p \<noteq> 0 then (p, Err EAGAIN)
           else if PIPE_EMPTY p then (if writers p \<noteq> 0 then (p, Err EAGAIN) else (p, Ret []))
           else read_locked p count
      else pipe_read_wait cur p count)"

text \<open>The copy loop of \<open>pipe_write\<close>; \<open>buf\<close> is what is still to be written.\<close>

partial_function (option) write_loop ::
  "pipe_inode_info \<Rightarrow> 8 word list \<Rightarrow> (pipe_inode_info \<times> 8 word list) option" where
  "write_loop p buf =
     (if buf \<noteq> [] \<and> PIPE_FREE p \<noteq> 0
      then let count = int (length buf);
               free = s32 (PIPE_FREE p);
               chars = s32 (PIPE_MAX_WCHUNK p);
               chars = (if chars > count then count else chars);
               chars = (if chars > free then free else chars)
           in if chars < 0 then None
              else (case mem_write (base p) (PIPE_END p) (take (nat chars) buf) of
                      None \<Rightarrow> None
                    | Some bs \<Rightarrow>
                        write_loop (p\<lparr>base := Some bs, len := u32 (len p + chars)\<rparr>) (drop (nat chars) buf))
      else Some (p, buf))"

text \<open>
  What a write keeps over a sleep: the bytes left, how many are written, and the free space it
  waits for. A result tells whether \<open>SIGPIPE\<close> was sent to the caller.
\<close>

record writing =
  w_buf :: "8 word list"
  w_written :: int
  w_free :: int

record write_result =
  w_pipe :: pipe_inode_info
  w_sigpipe :: bool
  w_outcome :: "(writing, int) outcome"

text \<open>\<open>return written? :-e\<close>.\<close>

definition written_or :: "int \<Rightarrow> errno \<Rightarrow> (writing, int) outcome" where
  "written_or written e = (if written \<noteq> 0 then Ret written else Err e)"

partial_function (option) write_run ::
  "task \<Rightarrow> kfile \<Rightarrow> pipe_inode_info \<Rightarrow> writing \<Rightarrow> write_result option" where
  "write_run cur filp p w =
     (if w_buf w = [] then Some \<lparr>w_pipe = p, w_sigpipe = False, w_outcome = Ret (w_written w)\<rparr>
      else if PIPE_FREE p < w_free w \<or> lock p \<noteq> 0
      then Some (if readers p = 0
                 then \<lparr>w_pipe = p, w_sigpipe = True, w_outcome = written_or (w_written w) EPIPE\<rparr>
                 else if signal_pending cur
                 then \<lparr>w_pipe = p, w_sigpipe = False, w_outcome = written_or (w_written w) ERESTARTSYS\<rparr>
                 else if nonblocking filp
                 then \<lparr>w_pipe = p, w_sigpipe = False, w_outcome = written_or (w_written w) EAGAIN\<rparr>
                 else \<lparr>w_pipe = p, w_sigpipe = False, w_outcome = Sleep w\<rparr>)
      else (case write_loop (p\<lparr>lock := u32 (lock p + 1)\<rparr>) (w_buf w) of
              None \<Rightarrow> None
            | Some (p, rest) \<Rightarrow>
                write_run cur filp (wake_up_interruptible (p\<lparr>lock := u32 (lock p - 1)\<rparr>))
                  \<lparr>w_buf = rest,
                   w_written = w_written w + (int (length (w_buf w)) - int (length rest)),
                   w_free = 1\<rparr>))"

definition pipe_write :: "task \<Rightarrow> kfile \<Rightarrow> pipe_inode_info \<Rightarrow> 8 word list \<Rightarrow> write_result option" where
  "pipe_write cur filp p buf =
     (if readers p = 0 then Some \<lparr>w_pipe = p, w_sigpipe = True, w_outcome = Err EPIPE\<rparr>
      else write_run cur filp p
             \<lparr>w_buf = buf, w_written = 0,
              w_free = (if int (length buf) \<le> PIPE_BUF then int (length buf) else 1)\<rparr>)"

definition pipe_lseek :: "pipe_inode_info \<Rightarrow> int \<Rightarrow> int \<Rightarrow> (unit, int) outcome" where
  "pipe_lseek p offset orig = Err ESPIPE"

definition pipe_readdir :: "pipe_inode_info \<Rightarrow> int \<Rightarrow> (unit, int) outcome" where
  "pipe_readdir p count = Err ENOTDIR"

definition FIONREAD :: int where "FIONREAD = 0x541B"

text \<open>\<open>verify\<close> is the answer of \<open>verify_area\<close>; the result is the number put into user memory.\<close>

definition pipe_ioctl :: "pipe_inode_info \<Rightarrow> int \<Rightarrow> errno option \<Rightarrow> (unit, int) outcome" where
  "pipe_ioctl p cmd verify =
     (if cmd = FIONREAD then (case verify of None \<Rightarrow> Ret (len p) | Some e \<Rightarrow> Err e) else Err EINVAL)"

abbreviation (input) SEL_IN :: int where "SEL_IN \<equiv> 1"
abbreviation (input) SEL_OUT :: int where "SEL_OUT \<equiv> 2"
abbreviation (input) SEL_EX :: int where "SEL_EX \<equiv> 4"

text \<open>A select either finds the file ready or adds the caller to a wait queue.\<close>

datatype waitq = pipe_wait | i_wait
datatype sel = Ready | Wait waitq | Unknown

definition pipe_select :: "pipe_inode_info \<Rightarrow> int \<Rightarrow> sel" where
  "pipe_select p sel_type =
     (if sel_type = SEL_IN then (if \<not> PIPE_EMPTY p \<or> writers p = 0 then Ready else Wait pipe_wait)
      else if sel_type = SEL_OUT then (if \<not> PIPE_FULL p \<or> readers p = 0 then Ready else Wait pipe_wait)
      else if sel_type = SEL_EX then (if readers p = 0 \<or> writers p = 0 then Ready else Wait i_wait)
      else Unknown)"

definition fifo_select :: "pipe_inode_info \<Rightarrow> int \<Rightarrow> sel" where
  "fifo_select p sel_type =
     (if sel_type = SEL_IN then (if \<not> PIPE_EMPTY p then Ready else Wait pipe_wait)
      else if sel_type = SEL_OUT then (if \<not> PIPE_FULL p \<or> readers p = 0 then Ready else Wait pipe_wait)
      else if sel_type = SEL_EX then (if readers p = 0 \<or> writers p = 0 then Ready else Wait i_wait)
      else Unknown)"

text \<open>
  \<open>connect_read\<close> and \<open>connect_select\<close> may change the operations of the file; the changed file is
  part of the result. After a sleep \<open>connect_read\<close> goes on with its loop, that is from the start.
\<close>

definition connect_read ::
  "task \<Rightarrow> kfile \<Rightarrow> pipe_inode_info \<Rightarrow> int \<Rightarrow> kfile \<times> pipe_inode_info \<times> (unit, 8 word list) outcome" where
  "connect_read cur filp p count =
     (if len p = 0 \<and> writers p = 0
      then if nonblocking filp then (filp, p, Err EAGAIN)
           else (let p = wake_up_interruptible p
                 in if signal_pending cur then (filp, p, Err ERESTARTSYS) else (filp, p, Sleep ()))
      else (let filp = filp\<lparr>f_op := Some read_fifo_fops\<rparr>
            in (filp, pipe_read cur filp p count)))"

definition connect_select :: "kfile \<Rightarrow> pipe_inode_info \<Rightarrow> int \<Rightarrow> kfile \<times> sel" where
  "connect_select filp p sel_type =
     (if sel_type = SEL_IN
      then (if \<not> PIPE_EMPTY p then (filp\<lparr>f_op := Some read_fifo_fops\<rparr>, Ready) else (filp, Wait pipe_wait))
      else if sel_type = SEL_OUT then (filp, if \<not> PIPE_FULL p then Ready else Wait pipe_wait)
      else if sel_type = SEL_EX then (filp, if readers p = 0 \<or> writers p = 0 then Ready else Wait i_wait)
      else (filp, Unknown))"

definition pipe_read_release :: "pipe_inode_info \<Rightarrow> pipe_inode_info" where
  "pipe_read_release p = wake_up_interruptible (p\<lparr>readers := u32 (readers p - 1)\<rparr>)"

definition pipe_write_release :: "pipe_inode_info \<Rightarrow> pipe_inode_info" where
  "pipe_write_release p = wake_up_interruptible (p\<lparr>writers := u32 (writers p - 1)\<rparr>)"

definition pipe_rdwr_release :: "pipe_inode_info \<Rightarrow> pipe_inode_info" where
  "pipe_rdwr_release p =
     wake_up_interruptible (p\<lparr>readers := u32 (readers p - 1), writers := u32 (writers p - 1)\<rparr>)"

text \<open>The operation tables: what a call on a file of each kind runs.\<close>

datatype read_op = op_pipe_read | op_connect_read | op_bad_read
datatype write_op = op_pipe_write | op_bad_write
datatype select_op = op_pipe_select | op_fifo_select | op_connect_select
datatype release_op = op_read_release | op_write_release | op_rdwr_release

record file_operations =
  fo_read :: read_op
  fo_write :: write_op
  fo_select :: select_op
  fo_release :: release_op

fun fops_table :: "fops \<Rightarrow> file_operations option" where
  "fops_table connecting_fifo_fops =
     Some \<lparr>fo_read = op_connect_read, fo_write = op_bad_write, fo_select = op_connect_select, fo_release = op_read_release\<rparr>"
| "fops_table read_fifo_fops =
     Some \<lparr>fo_read = op_pipe_read, fo_write = op_bad_write, fo_select = op_fifo_select, fo_release = op_read_release\<rparr>"
| "fops_table write_fifo_fops =
     Some \<lparr>fo_read = op_bad_read, fo_write = op_pipe_write, fo_select = op_fifo_select, fo_release = op_write_release\<rparr>"
| "fops_table rdwr_fifo_fops =
     Some \<lparr>fo_read = op_pipe_read, fo_write = op_pipe_write, fo_select = op_fifo_select, fo_release = op_rdwr_release\<rparr>"
| "fops_table read_pipe_fops =
     Some \<lparr>fo_read = op_pipe_read, fo_write = op_bad_write, fo_select = op_pipe_select, fo_release = op_read_release\<rparr>"
| "fops_table write_pipe_fops =
     Some \<lparr>fo_read = op_bad_read, fo_write = op_pipe_write, fo_select = op_pipe_select, fo_release = op_write_release\<rparr>"
| "fops_table rdwr_pipe_fops =
     Some \<lparr>fo_read = op_pipe_read, fo_write = op_pipe_write, fo_select = op_pipe_select, fo_release = op_rdwr_release\<rparr>"
| "fops_table (other_fops n) = None"

fun fop_read :: "read_op \<Rightarrow> task \<Rightarrow> kfile \<Rightarrow> pipe_inode_info \<Rightarrow> int \<Rightarrow>
    kfile \<times> pipe_inode_info \<times> (unit, 8 word list) outcome" where
  "fop_read op_pipe_read cur filp p count = (filp, pipe_read cur filp p count)"
| "fop_read op_connect_read cur filp p count = connect_read cur filp p count"
| "fop_read op_bad_read cur filp p count = (filp, p, Err EBADF)"

fun fop_write :: "write_op \<Rightarrow> task \<Rightarrow> kfile \<Rightarrow> pipe_inode_info \<Rightarrow> 8 word list \<Rightarrow> write_result option" where
  "fop_write op_pipe_write cur filp p buf = pipe_write cur filp p buf"
| "fop_write op_bad_write cur filp p buf = Some \<lparr>w_pipe = p, w_sigpipe = False, w_outcome = Err EBADF\<rparr>"

fun fop_release :: "release_op \<Rightarrow> pipe_inode_info \<Rightarrow> pipe_inode_info" where
  "fop_release op_read_release p = pipe_read_release p"
| "fop_release op_write_release p = pipe_write_release p"
| "fop_release op_rdwr_release p = pipe_rdwr_release p"

text \<open>
  \<open>get_pipe_inode\<close> (fs/inode.c): \<open>inode\<close> is the answer of \<open>get_empty_inode\<close>, \<open>page\<close> that of
  \<open>__get_free_page\<close>.
\<close>

record pipe_inode =
  pi_addr :: nat
  pi_pipe :: pipe_inode_info
  pi_count :: int
  pi_uid :: int
  pi_gid :: int

definition get_pipe_inode :: "task \<Rightarrow> nat option \<Rightarrow> 8 word list option \<Rightarrow> pipe_inode option" where
  "get_pipe_inode cur inode page =
     (case inode of
        None \<Rightarrow> None
      | Some a \<Rightarrow>
          (case page of
             None \<Rightarrow> None
           | Some bytes \<Rightarrow>
               Some \<lparr>pi_addr = a,
                 pi_pipe = \<lparr>base = Some bytes, start = 0, len = 0, lock = 0, rd_openers = 0, wr_openers = 0,
                   readers = 1, writers = 1, wakes = 0\<rparr>,
                 pi_count = 2, pi_uid = euid cur, pi_gid = egid cur\<rparr>))"

text \<open>
  \<open>sys_pipe\<close>. The state is the file table, the pages still to come and the caller's descriptor
  table \<open>current->filp\<close>. \<open>place_files\<close> is the loop that puts the files into the first empty slots;
  it returns the slots it used.
\<close>

record fd_state =
  fd_tab :: ftab
  fd_pages :: "nat option list"
  fd_filp :: "faddr option list"

fun place_files :: "faddr list \<Rightarrow> nat \<Rightarrow> faddr option list \<Rightarrow> faddr option list \<times> nat list" where
  "place_files fs i [] = ([], [])"
| "place_files [] i slots = (slots, [])"
| "place_files (f # fs) i (Some g # slots) =
     (let (slots', fds) = place_files (f # fs) (Suc i) slots in (Some g # slots', fds))"
| "place_files (f # fs) i (None # slots) =
     (let (slots', fds) = place_files fs (Suc i) slots in (Some f # slots', i # fds))"

text \<open>\<open>f->f_count--\<close>.\<close>

definition put_filp :: "faddr \<Rightarrow> ftab \<Rightarrow> ftab option" where
  "put_filp f s = map_option (\<lambda>h. s\<lparr>heap := h\<rparr>) (wr (Some f) (\<lambda>x. x\<lparr>f_count := u16 (f_count x - 1)\<rparr>) (heap s))"

definition O_RDONLY :: int where "O_RDONLY = 0"
definition O_WRONLY :: int where "O_WRONLY = 1"

definition sys_pipe ::
  "errno option \<Rightarrow> pipe_inode option \<Rightarrow> fd_state \<Rightarrow> (fd_state \<times> (unit, nat \<times> nat) outcome) option" where
  "sys_pipe verify inode s =
     (case verify of
        Some e \<Rightarrow> Some (s, Err e)
      | None \<Rightarrow> do {
          (r0, tab, pages) \<leftarrow> get_empty_filp (fd_pages s) (fd_tab s);
          (case r0 of
             None \<Rightarrow> Some (s\<lparr>fd_tab := tab, fd_pages := pages\<rparr>, Err ENFILE)
           | Some f0 \<Rightarrow> do {
               (r1, tab, pages) \<leftarrow> get_empty_filp pages tab;
               (case r1 of
                  None \<Rightarrow> do {
                    tab \<leftarrow> put_filp f0 tab;
                    Some (s\<lparr>fd_tab := tab, fd_pages := pages\<rparr>, Err ENFILE) }
                | Some f1 \<Rightarrow>
                    (let (filp, fds) = place_files [f0, f1] 0 (fd_filp s)
                     in (case fds of
                           [fd0, fd1] \<Rightarrow>
                             (case inode of
                                None \<Rightarrow> do {
                                  tab \<leftarrow> put_filp f0 tab;
                                  tab \<leftarrow> put_filp f1 tab;
                                  Some (s\<lparr>fd_tab := tab, fd_pages := pages,
                                         fd_filp := filp[fd0 := None, fd1 := None]\<rparr>, Err ENFILE) }
                              | Some ino \<Rightarrow> do {
                                  h \<leftarrow> wr (Some f0) (\<lambda>x. x\<lparr>f_inode := Some (pi_addr ino), f_pos := 0,
                                         f_flags := O_RDONLY, f_op := Some read_pipe_fops, f_mode := 1\<rparr>) (heap tab);
                                  h \<leftarrow> wr (Some f1) (\<lambda>x. x\<lparr>f_inode := Some (pi_addr ino), f_pos := 0,
                                         f_flags := O_WRONLY, f_op := Some write_pipe_fops, f_mode := 2\<rparr>) h;
                                  Some (s\<lparr>fd_tab := tab\<lparr>heap := h\<rparr>, fd_pages := pages, fd_filp := filp\<rparr>,
                                        Ret (fd0, fd1)) })
                         | _ \<Rightarrow> do {
                             tab \<leftarrow> put_filp f0 tab;
                             tab \<leftarrow> put_filp f1 tab;
                             Some (s\<lparr>fd_tab := tab, fd_pages := pages,
                                    fd_filp := (case fds of fd0 # _ \<Rightarrow> filp[fd0 := None] | [] \<Rightarrow> filp)\<rparr>,
                                   Err EMFILE) }))) }) })"

end
