(* ===== verification/Fifo.thy ===== *)
theory Fifo
  imports Pipe
begin

text \<open>
  fs/fifo.c: opening a named pipe. The call sleeps at several places, and other tasks may open and
  close the pipe in between, so it is given as runs from one sleep to the next; \<open>fifo_wait\<close> names
  the places, with the value of \<open>retval\<close> where the code keeps it over the sleep. The last place is
  the call of \<open>__get_free_page\<close>, whose answer is an argument of the run that follows it.

  The second part puts the runs of all tasks that have the pipe open, or are opening it, together
  into one system.
\<close>

section \<open>Model\<close>

datatype fifo_wait =
    RdWriter | RdOpeners "errno option"
  | WrReader | WrOpeners "errno option"
  | RwWrOpeners | RwRdOpeners
  | GetPage

type_synonym open_run = "kfile \<times> pipe_inode_info \<times> (fifo_wait, unit) outcome"

text \<open>\<open>if (!PIPE_READERS(*inode)++) wake_up\<close> and \<open>if (!--PIPE_READERS(*inode)) wake_up\<close>, and the same for writers.\<close>

definition add_reader :: "pipe_inode_info \<Rightarrow> pipe_inode_info" where
  "add_reader p =
     (let q = p\<lparr>readers := u32 (readers p + 1)\<rparr> in if readers p = 0 then wake_up_interruptible q else q)"

definition drop_reader :: "pipe_inode_info \<Rightarrow> pipe_inode_info" where
  "drop_reader p =
     (let q = p\<lparr>readers := u32 (readers p - 1)\<rparr> in if readers q = 0 then wake_up_interruptible q else q)"

definition add_writer :: "pipe_inode_info \<Rightarrow> pipe_inode_info" where
  "add_writer p =
     (let q = p\<lparr>writers := u32 (writers p + 1)\<rparr> in if writers p = 0 then wake_up_interruptible q else q)"

definition drop_writer :: "pipe_inode_info \<Rightarrow> pipe_inode_info" where
  "drop_writer p =
     (let q = p\<lparr>writers := u32 (writers p - 1)\<rparr> in if writers q = 0 then wake_up_interruptible q else q)"

definition drop_rd_opener :: "pipe_inode_info \<Rightarrow> pipe_inode_info" where
  "drop_rd_opener p =
     (let q = p\<lparr>rd_openers := u32 (rd_openers p - 1)\<rparr> in if rd_openers q = 0 then wake_up_interruptible q else q)"

definition drop_wr_opener :: "pipe_inode_info \<Rightarrow> pipe_inode_info" where
  "drop_wr_opener p =
     (let q = p\<lparr>wr_openers := u32 (wr_openers p - 1)\<rparr> in if wr_openers q = 0 then wake_up_interruptible q else q)"

text \<open>After the \<open>switch\<close>.\<close>

definition fifo_end :: "kfile \<Rightarrow> pipe_inode_info \<Rightarrow> errno option \<Rightarrow> open_run" where
  "fifo_end filp p retval =
     (case retval of
        Some e \<Rightarrow> (filp, p, Err e)
      | None \<Rightarrow> if base p \<noteq> None then (filp, p, Ret ()) else (filp, p, Sleep GetPage))"

definition fifo_got_page :: "kfile \<Rightarrow> pipe_inode_info \<Rightarrow> 8 word list option \<Rightarrow> open_run" where
  "fifo_got_page filp p page =
     (if base p \<noteq> None then (filp, p, Ret ())
      else (case page of
              None \<Rightarrow> (filp, p, Err ENOMEM)
            | Some bytes \<Rightarrow> (filp, p\<lparr>lock := 0, start := 0, len := 0, base := Some bytes\<rparr>, Ret ())))"

text \<open>\<open>O_RDONLY\<close>.\<close>

definition fifo_rd_openers :: "kfile \<Rightarrow> pipe_inode_info \<Rightarrow> errno option \<Rightarrow> open_run" where
  "fifo_rd_openers filp p retval =
     (if wr_openers p \<noteq> 0 then (filp, p, Sleep (RdOpeners retval))
      else fifo_end (if writers p \<noteq> 0 then filp\<lparr>f_op := Some read_fifo_fops\<rparr> else filp)
             (if retval \<noteq> None then drop_reader p else p) retval)"

definition fifo_rd_writer :: "task \<Rightarrow> kfile \<Rightarrow> pipe_inode_info \<Rightarrow> open_run" where
  "fifo_rd_writer cur filp p =
     (if writers p \<noteq> 0 then fifo_rd_openers filp (drop_rd_opener p) None
      else if signal_pending cur then fifo_rd_openers filp (drop_rd_opener p) (Some ERESTARTSYS)
      else (filp, p, Sleep RdWriter))"

text \<open>\<open>O_WRONLY\<close>.\<close>

definition fifo_wr_openers :: "kfile \<Rightarrow> pipe_inode_info \<Rightarrow> errno option \<Rightarrow> open_run" where
  "fifo_wr_openers filp p retval =
     (if rd_openers p \<noteq> 0 then (filp, p, Sleep (WrOpeners retval))
      else fifo_end filp (if retval \<noteq> None then drop_writer p else p) retval)"

definition fifo_wr_reader :: "task \<Rightarrow> kfile \<Rightarrow> pipe_inode_info \<Rightarrow> open_run" where
  "fifo_wr_reader cur filp p =
     (if readers p \<noteq> 0 then fifo_wr_openers filp (drop_wr_opener p) None
      else if signal_pending cur then fifo_wr_openers filp (drop_wr_opener p) (Some ERESTARTSYS)
      else (filp, p, Sleep WrReader))"

text \<open>\<open>O_RDWR\<close>.\<close>

definition fifo_rw_rd_openers :: "kfile \<Rightarrow> pipe_inode_info \<Rightarrow> open_run" where
  "fifo_rw_rd_openers filp p =
     (if rd_openers p \<noteq> 0 then (filp, p, Sleep RwRdOpeners) else fifo_end filp p None)"

definition fifo_rw_wr_openers :: "kfile \<Rightarrow> pipe_inode_info \<Rightarrow> open_run" where
  "fifo_rw_wr_openers filp p =
     (if wr_openers p \<noteq> 0 then (filp, p, Sleep RwWrOpeners)
      else fifo_rw_rd_openers filp (add_writer p))"

definition fifo_open :: "task \<Rightarrow> kfile \<Rightarrow> pipe_inode_info \<Rightarrow> open_run" where
  "fifo_open cur filp p =
     (if f_mode filp = 1
      then (let filp = filp\<lparr>f_op := Some connecting_fifo_fops\<rparr>; p = add_reader p
            in if \<not> nonblocking filp \<and> writers p = 0
               then fifo_rd_writer cur filp (p\<lparr>rd_openers := u32 (rd_openers p + 1)\<rparr>)
               else fifo_rd_openers filp p None)
      else if f_mode filp = 2
      then (if nonblocking filp \<and> readers p = 0 then fifo_end filp p (Some ENXIO)
            else (let filp = filp\<lparr>f_op := Some write_fifo_fops\<rparr>; p = add_writer p
                  in if readers p = 0
                     then fifo_wr_reader cur filp (p\<lparr>wr_openers := u32 (wr_openers p + 1)\<rparr>)
                     else fifo_wr_openers filp p None))
      else if f_mode filp = 3
      then fifo_rw_wr_openers (filp\<lparr>f_op := Some rdwr_fifo_fops\<rparr>) (add_reader p)
      else fifo_end filp p (Some EINVAL))"

text \<open>The run that follows a sleep.\<close>

fun fifo_resume :: "task \<Rightarrow> kfile \<Rightarrow> pipe_inode_info \<Rightarrow> 8 word list option \<Rightarrow> fifo_wait \<Rightarrow> open_run" where
  "fifo_resume cur filp p page RdWriter = fifo_rd_writer cur filp p"
| "fifo_resume cur filp p page (RdOpeners retval) = fifo_rd_openers filp p retval"
| "fifo_resume cur filp p page WrReader = fifo_wr_reader cur filp p"
| "fifo_resume cur filp p page (WrOpeners retval) = fifo_wr_openers filp p retval"
| "fifo_resume cur filp p page RwWrOpeners = fifo_rw_wr_openers filp p"
| "fifo_resume cur filp p page RwRdOpeners = fifo_rw_rd_openers filp p"
| "fifo_resume cur filp p page GetPage = fifo_got_page filp p page"

definition init_fifo :: "pipe_inode_info \<Rightarrow> pipe_inode_info" where
  "init_fifo p = p\<lparr>lock := 0, base := None, start := 0, len := 0, rd_openers := 0, wr_openers := 0,
     readers := 0, writers := 0\<rparr>"

section \<open>All users of one named pipe\<close>

text \<open>
  A slot of the system is an open file of this pipe, or a call of \<open>fifo_open\<close> asleep at some place.
  A step is a first run, a later run, or a close. A sleeping call may be woken at any time, whether
  it was meant or not. The steps are those of a machine with memory to spare: a run that asks for a
  page gets one.
\<close>

datatype user = Opening kfile fifo_wait | Opened kfile

record fifo_sys =
  fs_pipe :: pipe_inode_info
  fs_users :: "user option list"

definition record_run :: "nat \<Rightarrow> open_run \<Rightarrow> fifo_sys \<Rightarrow> fifo_sys" where
  "record_run i run s =
     (case run of (filp, p, out) \<Rightarrow>
        s\<lparr>fs_pipe := p,
          fs_users := (fs_users s)[i :=
            (case out of Sleep w \<Rightarrow> Some (Opening filp w) | Ret _ \<Rightarrow> Some (Opened filp) | _ \<Rightarrow> None)]\<rparr>)"

definition close_fifo :: "nat \<Rightarrow> kfile \<Rightarrow> fifo_sys \<Rightarrow> fifo_sys option" where
  "close_fifo i filp s =
     (case f_op filp of
        None \<Rightarrow> None
      | Some op \<Rightarrow>
          map_option (\<lambda>t. s\<lparr>fs_pipe := fop_release (fo_release t) (fs_pipe s), fs_users := (fs_users s)[i := None]\<rparr>)
            (fops_table op))"

inductive fifo_step :: "fifo_sys \<Rightarrow> fifo_sys \<Rightarrow> bool" where
  fifo_opens: "i < length (fs_users s) \<Longrightarrow> fs_users s ! i = None \<Longrightarrow>
    fifo_step s (record_run i (fifo_open cur filp (fs_pipe s)) s)"
| fifo_resumes: "i < length (fs_users s) \<Longrightarrow> fs_users s ! i = Some (Opening filp w) \<Longrightarrow> (w = GetPage \<Longrightarrow> page \<noteq> None) \<Longrightarrow>
    fifo_step s (record_run i (fifo_resume cur filp (fs_pipe s) page w) s)"
| fifo_closes: "i < length (fs_users s) \<Longrightarrow> fs_users s ! i = Some (Opened filp) \<Longrightarrow> close_fifo i filp s = Some s' \<Longrightarrow>
    fifo_step s s'"

end
