(* ===== verification/Pipe_Props.thy ===== *)
theory Pipe_Props
  imports Pipe
begin

text \<open>
  Correctness of fs/pipe.c: the ring buffer refines a bounded queue of bytes, the copy loops return
  and keep it well formed, reads and writes keep the order of the bytes over any sequence of runs,
  and \<open>sys_pipe\<close> builds a pipe or changes nothing.
\<close>

section \<open>The buffer as a queue of bytes\<close>

definition wf_pipe :: "pipe_inode_info \<Rightarrow> bool" where
  "wf_pipe p \<longleftrightarrow> (case base p of None \<Rightarrow> False | Some b \<Rightarrow> length b = 4096) \<and>
     0 \<le> start p \<and> start p < 4096 \<and> 0 \<le> len p \<and> len p \<le> 4096"

definition pipe_contents :: "pipe_inode_info \<Rightarrow> 8 word list" where
  "pipe_contents p =
     (case base p of
        None \<Rightarrow> []
      | Some b \<Rightarrow> map (\<lambda>i. b ! ((nat (start p) + i) mod 4096)) [0..<nat (len p)])"

text \<open>What the copy loops leave alone.\<close>

definition same_rest :: "pipe_inode_info \<Rightarrow> pipe_inode_info \<Rightarrow> bool" where
  "same_rest p q \<longleftrightarrow> lock q = lock p \<and> rd_openers q = rd_openers p \<and> wr_openers q = wr_openers p \<and>
     readers q = readers p \<and> writers q = writers p"

lemma same_rest_refl [simp]: "same_rest p p"
  by (simp add: same_rest_def)

lemma and_4095: "x AND 4095 = x mod (4096 :: int)"
  using take_bit_eq_mask [of 12 x] by (simp add: mask_eq_exp_minus_1 take_bit_eq_mod)

lemma pipe_and [simp]: "x AND (PIPE_BUF - 1) = x mod 4096"
  by (simp add: PIPE_BUF_def and_4095)

lemma wf_pipeE:
  assumes "wf_pipe p"
  obtains b s l where "base p = Some b" "length b = 4096" "start p = int s" "s < 4096" "len p = int l" "l \<le> 4096"
    "pipe_contents p = map (\<lambda>i. b ! ((s + i) mod 4096)) [0..<l]"
proof -
  obtain b where b: "base p = Some b" "length b = 4096" using assms by (auto simp: wf_pipe_def split: option.splits)
  have "start p = int (nat (start p))" "nat (start p) < 4096" "len p = int (nat (len p))" "nat (len p) \<le> 4096"
    using assms by (auto simp: wf_pipe_def)
  with b show thesis by (intro that) (auto simp: pipe_contents_def)
qed

lemma wf_pipe_length: "wf_pipe p \<Longrightarrow> int (length (pipe_contents p)) = len p"
  by (erule wf_pipeE) simp

lemma ring_prefix:
  assumes "s + c \<le> length b" "c \<le> l" "length b = 4096"
  shows "take c (drop s b) = take c (map (\<lambda>i. b ! ((s + i) mod 4096)) [0..<l])"
  using assms by (intro nth_equalityI) auto

lemma ring_advance:
  "map (\<lambda>i. b ! (((s + c) mod 4096 + i) mod 4096)) [0..<l - c] = drop c (map (\<lambda>i. b ! ((s + i) mod 4096)) [0..<l])"
  by (intro nth_equalityI) (auto simp: mod_add_left_eq add.assoc)

lemma read_loop_spec:
  assumes "wf_pipe p" "0 \<le> count"
  shows "\<exists>q. read_loop p count acc = Some (q, acc @ take (nat count) (pipe_contents p)) \<and> wf_pipe q \<and>
    pipe_contents q = drop (nat count) (pipe_contents p) \<and> same_rest p q"
  using assms
proof (induction "nat (len p)" arbitrary: p count acc rule: less_induct)
  case less
  obtain b s l where p: "base p = Some b" "length b = 4096" "start p = int s" "s < 4096" "len p = int l" "l \<le> 4096"
      "pipe_contents p = map (\<lambda>i. b ! ((s + i) mod 4096)) [0..<l]" using wf_pipeE [OF less.prems(1)] .
  show ?case
  proof (cases "count > 0 \<and> l > 0")
    case False
    then have "read_loop p count acc = Some (p, acc)" using p(5) by (subst read_loop.simps) auto
    with False less.prems p(7) show ?thesis by auto
  next
    case True
    define c where c: "c = min (4096 - s) (min (nat count) l)"
    have c0: "0 < c" "c \<le> l" "s + c \<le> 4096" "int c \<le> count" using True p(4) by (auto simp: c)
    have ch: "(let chars = s32 (PIPE_MAX_RCHUNK p); chars = (if chars > count then count else chars)
               in if chars > s32 (len p) then s32 (len p) else chars) = int c"
      using True p(3-6) by (auto simp: Let_def PIPE_MAX_RCHUNK_def PIPE_BUF_def u32_id s32_id c)
    let ?q = "p\<lparr>start := u32 (start p + int c) AND (PIPE_BUF - 1), len := u32 (len p - int c)\<rparr>"
    have q: "start ?q = int ((s + c) mod 4096)" "len ?q = int (l - c)"
      using p(3-6) c0 by (simp_all add: u32_id of_nat_mod of_nat_diff)
    have wq: "wf_pipe ?q" using p c0 q by (simp add: wf_pipe_def)
    have cq: "pipe_contents ?q = drop c (pipe_contents p)"
      using q p(1) by (simp add: pipe_contents_def p(3,5) ring_advance)
    have "nat (len ?q) < nat (len p)" using q(2) p(5) c0(1,2) by simp
    from less.hyps [OF this wq, of "count - int c" "acc @ take c (drop s b)"] c0(4) obtain q' where
      q': "read_loop ?q (count - int c) (acc @ take c (drop s b)) =
            Some (q', (acc @ take c (drop s b)) @ take (nat (count - int c)) (pipe_contents ?q))"
          "wf_pipe q'" "pipe_contents q' = drop (nat (count - int c)) (pipe_contents ?q)" "same_rest ?q q'" by auto
    have mr: "mem_read (base p) (start p) (int c) = Some (take c (drop s b))"
      using p(1-3) c0(3) by (simp add: mem_read_def)
    have "read_loop p count acc = read_loop ?q (count - int c) (acc @ take c (drop s b))"
      using True p(5) ch mr by (subst read_loop.simps) (simp add: Let_def)
    moreover have "take c (drop s b) @ take (nat (count - int c)) (drop c (pipe_contents p)) = take (nat count) (pipe_contents p)"
    proof -
      have "take c (drop s b) = take c (pipe_contents p)" using ring_prefix [of s c b l] c0 p(2,7) by simp
      moreover have "nat count = c + nat (count - int c)" using c0(4) by simp
      ultimately show ?thesis by (metis take_add)
    qed
    moreover have "drop (nat (count - int c)) (drop c (pipe_contents p)) = drop (nat count) (pipe_contents p)"
      using c0(4) by (simp add: nat_diff_distrib')
    ultimately show ?thesis using q' cq by (auto simp: same_rest_def)
  qed
qed

text \<open>Storing at the end of the ring.\<close>

definition ring_put :: "'a list \<Rightarrow> nat \<Rightarrow> 'a list \<Rightarrow> 'a list" where
  "ring_put b e xs = take e b @ xs @ drop (e + length xs) b"

lemma ring_put_nth:
  assumes "e + length xs \<le> length b" "i < length b"
  shows "ring_put b e xs ! i = (if e \<le> i \<and> i < e + length xs then xs ! (i - e) else b ! i)"
  using assms by (auto simp: ring_put_def nth_append)

lemma ring_mod:
  fixes s i :: nat
  assumes "s < 4096" "i \<le> 4096"
  shows "(s + i) mod 4096 = (if s + i < 4096 then s + i else s + i - 4096)"
  using assms by (simp add: mod_if)

lemma ring_put_contents:
  assumes b: "length b = 4096" and s: "s < 4096" and l: "l \<le> 4096" and e: "e = (s + l) mod 4096"
    and xs: "e + length xs \<le> 4096" "l + length xs \<le> 4096"
  shows "map (\<lambda>i. ring_put b e xs ! ((s + i) mod 4096)) [0..<l + length xs] =
    map (\<lambda>i. b ! ((s + i) mod 4096)) [0..<l] @ xs"
proof (rule nth_equalityI)
  fix i assume "i < length (map (\<lambda>i. ring_put b e xs ! ((s + i) mod 4096)) [0..<l + length xs])"
  then have i: "i < l + length xs" by simp
  let ?k = "(s + i) mod 4096"
  have k: "ring_put b e xs ! ?k = (if e \<le> ?k \<and> ?k < e + length xs then xs ! (?k - e) else b ! ?k)"
    using ring_put_nth [of e xs b ?k] b xs by simp
  show "map (\<lambda>i. ring_put b e xs ! ((s + i) mod 4096)) [0..<l + length xs] ! i =
      (map (\<lambda>i. b ! ((s + i) mod 4096)) [0..<l] @ xs) ! i"
  proof (cases "i < l")
    case True
    have "\<not> (e \<le> ?k \<and> ?k < e + length xs)"
      using True s l xs ring_mod [OF s, of i] unfolding e ring_mod [OF s l]
      by (cases "s + l < 4096"; cases "s + i < 4096"; simp only: if_True if_False; arith)
    with True i k show ?thesis by (simp add: nth_append)
  next
    case False
    then obtain j where j: "i = l + j" "j < length xs" using i by (metis le_add_diff_inverse not_less nat_add_left_cancel_less)
    have "?k = e + j"
      using j s l xs ring_mod [OF s, of i] unfolding e ring_mod [OF s l]
      by (cases "s + l < 4096"; cases "s + i < 4096"; simp only: if_True if_False; arith)
    with j k show ?thesis by (simp add: nth_append)
  qed
qed simp

lemma write_loop_spec:
  assumes "wf_pipe p"
  shows "\<exists>q. write_loop p buf = Some (q, drop (nat (PIPE_FREE p)) buf) \<and> wf_pipe q \<and>
    pipe_contents q = pipe_contents p @ take (nat (PIPE_FREE p)) buf \<and> same_rest p q"
  using assms
proof (induction "length buf" arbitrary: p buf rule: less_induct)
  case less
  obtain b s l where p: "base p = Some b" "length b = 4096" "start p = int s" "s < 4096" "len p = int l" "l \<le> 4096"
      "pipe_contents p = map (\<lambda>i. b ! ((s + i) mod 4096)) [0..<l]" using wf_pipeE [OF less.prems(1)] .
  have fr: "PIPE_FREE p = int (4096 - l)" using p(5,6) by (simp add: PIPE_FREE_def PIPE_BUF_def u32_id of_nat_diff)
  define e where e: "e = (s + l) mod 4096"
  have pe: "PIPE_END p = int e" using p(3-6) by (simp add: PIPE_END_def u32_id e of_nat_mod)
  have e4: "e < 4096" by (simp add: e)
  show ?case
  proof (cases "buf \<noteq> [] \<and> l < 4096")
    case False
    then have "write_loop p buf = Some (p, buf)" using fr by (subst write_loop.simps) auto
    with False less.prems fr show ?thesis by auto
  next
    case True
    define c where c: "c = min (4096 - e) (min (length buf) (4096 - l))"
    have c0: "0 < c" "c \<le> length buf" "l + c \<le> 4096" "e + c \<le> 4096" using True e4 by (auto simp: c)
    have ch: "(let count = int (length buf); free = s32 (PIPE_FREE p); chars = s32 (PIPE_MAX_WCHUNK p);
               chars = (if chars > count then count else chars) in if chars > free then free else chars) = int c"
      using True e4 by (auto simp: Let_def PIPE_MAX_WCHUNK_def pe PIPE_BUF_def fr u32_id s32_id c)
    let ?xs = "take c buf"
    have len_xs: "length ?xs = c" using c0 by simp
    let ?q = "p\<lparr>base := Some (ring_put b e ?xs), len := u32 (len p + int c)\<rparr>"
    have q: "len ?q = int (l + c)" using p(5) c0(3) by (simp add: u32_id)
    have lb: "length (ring_put b e ?xs) = 4096" using p(2) c0(4) len_xs by (simp add: ring_put_def)
    have wq: "wf_pipe ?q" using p(3,4) lb q c0 by (simp add: wf_pipe_def)
    have "nat (u32 (int l + int c)) = l + c" using q p(5) by simp
    then have cq: "pipe_contents ?q = pipe_contents p @ ?xs"
      using ring_put_contents [OF p(2,4,6) e, of ?xs] c0 by (simp add: pipe_contents_def p(1,3,5))
    have mw: "mem_write (base p) (PIPE_END p) ?xs = Some (ring_put b e ?xs)"
      using p(1,2) c0(4) len_xs by (simp add: mem_write_def pe ring_put_def)
    have step: "write_loop p buf = write_loop ?q (drop c buf)"
      using True ch mw fr by (subst write_loop.simps) (simp add: Let_def)
    have fq: "nat (PIPE_FREE ?q) = nat (PIPE_FREE p) - c" "c \<le> nat (PIPE_FREE p)"
      using q c0(3) fr by (simp_all add: PIPE_FREE_def PIPE_BUF_def u32_id)
    have "length (drop c buf) < length buf" using c0 by simp
    from less.hyps [OF this wq] step obtain q' where q':
      "write_loop p buf = Some (q', drop (nat (PIPE_FREE ?q)) (drop c buf))" "wf_pipe q'" "same_rest ?q q'"
      "pipe_contents q' = pipe_contents ?q @ take (nat (PIPE_FREE ?q)) (drop c buf)" by auto
    have "?xs @ take (nat (PIPE_FREE ?q)) (drop c buf) = take (nat (PIPE_FREE p)) buf"
      using fq take_add [of c "nat (PIPE_FREE p) - c" buf] by simp
    with q' fq cq show ?thesis by (auto simp: same_rest_def)
  qed
qed

definition pipe_get :: "pipe_inode_info \<Rightarrow> nat \<Rightarrow> (pipe_inode_info \<times> 8 word list) option" where
  "pipe_get p n = read_loop p (int n) []"

lemma pipe_free_nat: "wf_pipe p \<Longrightarrow> nat (PIPE_FREE p) = 4096 - length (pipe_contents p)"
  using wf_pipe_length [of p] by (auto simp: PIPE_FREE_def PIPE_BUF_def wf_pipe_def u32_id)

interpretation pipe_buffer: bounded_fifo wf_pipe pipe_contents 4096 write_loop pipe_get
proof
  fix p :: pipe_inode_info and xs n
  assume wf: "wf_pipe p"
  show "length (pipe_contents p) \<le> 4096" using wf wf_pipe_length [OF wf] by (simp add: wf_pipe_def)
  show "\<exists>p'. write_loop p xs = Some (p', drop (4096 - length (pipe_contents p)) xs) \<and> wf_pipe p' \<and>
      pipe_contents p' = pipe_contents p @ take (4096 - length (pipe_contents p)) xs"
    using write_loop_spec [OF wf, of xs] by (auto simp: pipe_free_nat [OF wf])
  show "\<exists>p'. pipe_get p n = Some (p', take n (pipe_contents p)) \<and> wf_pipe p' \<and> pipe_contents p' = drop n (pipe_contents p)"
    using read_loop_spec [OF wf, of "int n" "[]"] by (auto simp: pipe_get_def)
qed

section \<open>The calls\<close>

lemma wf_pipe_other [simp]:
  "wf_pipe (p\<lparr>lock := x\<rparr>) = wf_pipe p" "wf_pipe (p\<lparr>wakes := w\<rparr>) = wf_pipe p"
  "wf_pipe (p\<lparr>readers := r\<rparr>) = wf_pipe p" "wf_pipe (p\<lparr>writers := r\<rparr>) = wf_pipe p"
  "pipe_contents (p\<lparr>lock := x\<rparr>) = pipe_contents p" "pipe_contents (p\<lparr>wakes := w\<rparr>) = pipe_contents p"
  "pipe_contents (p\<lparr>readers := r\<rparr>) = pipe_contents p" "pipe_contents (p\<lparr>writers := r\<rparr>) = pipe_contents p"
  by (simp_all add: wf_pipe_def pipe_contents_def split: option.split)

lemma wake_up_simps [simp]:
  "wf_pipe (wake_up_interruptible p) = wf_pipe p" "pipe_contents (wake_up_interruptible p) = pipe_contents p"
  "lock (wake_up_interruptible p) = lock p" "len (wake_up_interruptible p) = len p"
  "rd_openers (wake_up_interruptible p) = rd_openers p" "wr_openers (wake_up_interruptible p) = wr_openers p"
  "readers (wake_up_interruptible p) = readers p" "writers (wake_up_interruptible p) = writers p"
  "same_rest q (wake_up_interruptible p) = same_rest q p"
  by (simp_all add: wake_up_interruptible_def same_rest_def)

lemma empty_contents: "wf_pipe p \<Longrightarrow> PIPE_EMPTY p \<longleftrightarrow> pipe_contents p = []"
  using wf_pipe_length [of p] by (auto simp: PIPE_EMPTY_def)

lemma read_locked_spec:
  assumes wf: "wf_pipe p" and l: "lock p = 0" and c: "0 \<le> count"
  shows "\<exists>q. read_locked p count =
      (q, if take (nat count) (pipe_contents p) \<noteq> [] then Ret (take (nat count) (pipe_contents p))
          else if writers p \<noteq> 0 then Err EAGAIN else Ret []) \<and>
    wf_pipe q \<and> pipe_contents q = drop (nat count) (pipe_contents p) \<and> same_rest p q \<and> wakes q > 0"
proof -
  let ?p = "p\<lparr>lock := u32 (lock p + 1)\<rparr>"
  obtain q where q: "read_loop ?p count [] = Some (q, take (nat count) (pipe_contents p))" "wf_pipe q"
      "pipe_contents q = drop (nat count) (pipe_contents p)" "same_rest ?p q"
    using read_loop_spec [of ?p count "[]"] wf c by auto
  let ?q = "wake_up_interruptible (q\<lparr>lock := u32 (lock q - 1)\<rparr>)"
  have "same_rest p ?q" using q(4) l by (simp add: same_rest_def u32_def)
  moreover have "writers ?q = writers p" using q(4) by (simp add: same_rest_def)
  ultimately show ?thesis
    using q by (intro exI [of _ ?q]) (simp add: read_locked_def Let_def wake_up_interruptible_def)
qed

lemma PIPE_FREE_full: "wf_pipe p \<Longrightarrow> 0 \<le> PIPE_FREE p" "wf_pipe p \<Longrightarrow> length (pipe_contents p) = 4096 \<Longrightarrow> PIPE_FREE p = 0"
  using wf_pipe_length [of p] by (auto simp: PIPE_FREE_def PIPE_BUF_def u32_def)

definition blocked_write :: "task \<Rightarrow> kfile \<Rightarrow> pipe_inode_info \<Rightarrow> writing \<Rightarrow> write_result" where
  "blocked_write cur filp p w =
     (if readers p = 0
      then \<lparr>w_pipe = p, w_sigpipe = True, w_outcome = written_or (w_written w) EPIPE\<rparr>
      else if signal_pending cur
      then \<lparr>w_pipe = p, w_sigpipe = False, w_outcome = written_or (w_written w) ERESTARTSYS\<rparr>
      else if nonblocking filp
      then \<lparr>w_pipe = p, w_sigpipe = False, w_outcome = written_or (w_written w) EAGAIN\<rparr>
      else \<lparr>w_pipe = p, w_sigpipe = False, w_outcome = Sleep w\<rparr>)"

lemma write_run_done:
  "w_buf w = [] \<Longrightarrow> write_run cur filp p w = Some \<lparr>w_pipe = p, w_sigpipe = False, w_outcome = Ret (w_written w)\<rparr>"
  by (subst write_run.simps) simp

lemma write_run_blocked:
  "w_buf w \<noteq> [] \<Longrightarrow> PIPE_FREE p < w_free w \<or> lock p \<noteq> 0 \<Longrightarrow> write_run cur filp p w = Some (blocked_write cur filp p w)"
  by (subst write_run.simps) (auto simp: blocked_write_def)

text \<open>One round of the outer loop, after which the write is complete or the pipe is full.\<close>

lemma write_run_store:
  assumes wf: "wf_pipe p" and b: "w_buf w \<noteq> []" and go: "\<not> PIPE_FREE p < w_free w" "lock p = 0"
    and k: "k = min (nat (PIPE_FREE p)) (length (w_buf w))"
  obtains q w' where "wf_pipe q" "pipe_contents q = pipe_contents p @ take k (w_buf w)" "same_rest p q"
    "w' = \<lparr>w_buf = drop k (w_buf w), w_written = w_written w + int k, w_free = 1\<rparr>"
    "write_run cur filp p w =
       (if k = length (w_buf w)
        then Some \<lparr>w_pipe = q, w_sigpipe = False, w_outcome = Ret (w_written w + int k)\<rparr>
        else Some (blocked_write cur filp q w'))"
proof -
  let ?p = "p\<lparr>lock := u32 (lock p + 1)\<rparr>"
  have f: "PIPE_FREE ?p = PIPE_FREE p" by (simp add: PIPE_FREE_def)
  obtain q where q: "write_loop ?p (w_buf w) = Some (q, drop (nat (PIPE_FREE p)) (w_buf w))" "wf_pipe q"
      "pipe_contents q = pipe_contents p @ take (nat (PIPE_FREE p)) (w_buf w)" "same_rest ?p q"
    using write_loop_spec [of ?p "w_buf w"] wf by (auto simp: f)
  have tk: "take (nat (PIPE_FREE p)) (w_buf w) = take k (w_buf w)" "drop (nat (PIPE_FREE p)) (w_buf w) = drop k (w_buf w)"
    by (auto simp: k min_def)
  let ?q = "wake_up_interruptible (q\<lparr>lock := u32 (lock q - 1)\<rparr>)"
  let ?w = "\<lparr>w_buf = drop k (w_buf w), w_written = w_written w + int k, w_free = 1\<rparr>"
  have sr: "same_rest p ?q" using q(4) go(2) by (simp add: same_rest_def u32_def)
  have kl: "k \<le> length (w_buf w)" by (simp add: k)
  have run: "write_run cur filp p w = write_run cur filp ?q ?w"
    using b go q(1) kl by (subst write_run.simps) (simp add: tk of_nat_diff)
  show thesis
  proof (rule that [of ?q ?w])
    show "write_run cur filp p w =
       (if k = length (w_buf w)
        then Some \<lparr>w_pipe = ?q, w_sigpipe = False, w_outcome = Ret (w_written w + int k)\<rparr>
        else Some (blocked_write cur filp ?q ?w))"
    proof (cases "k = length (w_buf w)")
      case True
      then show ?thesis unfolding run by (subst write_run_done) simp_all
    next
      case False
      with k kl have "k = nat (PIPE_FREE p)" "k < length (w_buf w)" by auto
      then have "length (pipe_contents ?q) = 4096"
        using q(3) tk pipe_free_nat [OF wf] pipe_buffer.bound [OF wf] by simp
      then have "PIPE_FREE ?q = 0" using PIPE_FREE_full(2) [of ?q] q(2) by simp
      with False \<open>k < length (w_buf w)\<close> show ?thesis unfolding run by (subst write_run_blocked) simp_all
    qed
  qed (use q sr tk in simp_all)
qed

text \<open>What a run of a write does to the contents, whatever it ends with.\<close>

definition write_effect :: "pipe_inode_info \<Rightarrow> writing \<Rightarrow> write_result \<Rightarrow> nat \<Rightarrow> bool" where
  "write_effect p w r k \<longleftrightarrow>
     k \<le> length (w_buf w) \<and> wf_pipe (w_pipe r) \<and> same_rest p (w_pipe r) \<and>
     pipe_contents (w_pipe r) = pipe_contents p @ take k (w_buf w) \<and>
     (case w_outcome r of
        Ret n \<Rightarrow> n = w_written w + int k
      | Err e \<Rightarrow> w_written w = 0 \<and> k = 0
      | Sleep w' \<Rightarrow> w_buf w' = drop k (w_buf w) \<and> w_buf w' \<noteq> [] \<and> w_written w' = w_written w + int k \<and>
          (k = 0 \<and> w' = w \<or> w_free w' = 1)
      | Fault \<Rightarrow> False)"

lemma blocked_effect:
  assumes "wf_pipe q" "same_rest p q" "pipe_contents q = pipe_contents p @ take k (w_buf w)" "k \<le> length (w_buf w)"
    and "w' = w \<and> k = 0 \<or> w' = \<lparr>w_buf = drop k (w_buf w), w_written = w_written w + int k, w_free = 1\<rparr>"
    and "w_buf w' \<noteq> []" "0 \<le> w_written w"
  shows "write_effect p w (blocked_write cur filp q w') k"
  using assms by (auto simp: write_effect_def blocked_write_def written_or_def)

lemma write_run_effect:
  assumes wf: "wf_pipe p" and w: "0 \<le> w_written w"
  shows "\<exists>r k. write_run cur filp p w = Some r \<and> write_effect p w r k"
proof (cases "w_buf w = []")
  case True
  then show ?thesis using wf by (auto simp: write_run_done write_effect_def)
next
  case False
  show ?thesis
  proof (cases "PIPE_FREE p < w_free w \<or> lock p \<noteq> 0")
    case True
    have "write_effect p w (blocked_write cur filp p w) 0" by (rule blocked_effect) (use wf w False in auto)
    with write_run_blocked [OF False True] show ?thesis by blast
  next
    case go: False
    define k where k: "k = min (nat (PIPE_FREE p)) (length (w_buf w))"
    obtain q w' where q: "wf_pipe q" "pipe_contents q = pipe_contents p @ take k (w_buf w)" "same_rest p q"
      "w' = \<lparr>w_buf = drop k (w_buf w), w_written = w_written w + int k, w_free = 1\<rparr>"
      "write_run cur filp p w =
         (if k = length (w_buf w)
          then Some \<lparr>w_pipe = q, w_sigpipe = False, w_outcome = Ret (w_written w + int k)\<rparr>
          else Some (blocked_write cur filp q w'))"
      using write_run_store [OF wf False _ _ k, where cur=cur and filp=filp] go by blast
    have kl: "k \<le> length (w_buf w)" using k by simp
    show ?thesis
    proof (cases "k = length (w_buf w)")
      case True
      then show ?thesis using q by (auto simp: write_effect_def)
    next
      case part: False
      have "write_effect p w (blocked_write cur filp q w') k"
        by (rule blocked_effect) (use q kl part w in auto)
      with q(5) part show ?thesis by auto
    qed
  qed
qed

section \<open>\<open>sys_pipe\<close>\<close>

lemma place_skip:
  "\<forall>x \<in> set A. x \<noteq> None \<Longrightarrow> place_files (f # fs) i (A @ rest) =
   (let (r, fds) = place_files (f # fs) (i + length A) rest in (A @ r, fds))"
proof (induction A arbitrary: i)
  case (Cons x A)
  then obtain g where "x = Some g" by auto
  with Cons show ?case by (simp add: Let_def case_prod_beta)
qed (simp add: case_prod_beta)

lemma place_none: "\<forall>x \<in> set A. x \<noteq> None \<Longrightarrow> place_files fs i A = (A, [])"
  using place_skip [of A _ _ i "[]"] by (cases fs; cases A) (auto simp: Let_def)

lemma split_free:
  assumes "\<not> (\<forall>x \<in> set xs. x \<noteq> None)"
  shows "\<exists>A B. xs = A @ None # B \<and> (\<forall>x \<in> set A. x \<noteq> None)"
proof -
  from assms have "None \<in> set xs" by auto
  from split_list_first [OF this] obtain A B where "xs = A @ None # B" "None \<notin> set A" by blast
  then show ?thesis by (metis not_Some_eq)
qed

lemma place_one:
  assumes "\<forall>x \<in> set A. x \<noteq> None" "\<forall>x \<in> set B. x \<noteq> None"
  shows "place_files [f, g] 0 (A @ None # B) = (A @ Some f # B, [length A])"
  using place_skip [OF assms(1), of f "[g]" 0 "None # B"] place_none [OF assms(2), of "[g]" "Suc (length A)"] by simp

lemma place_both:
  assumes "\<forall>x \<in> set A. x \<noteq> None" "\<forall>x \<in> set B. x \<noteq> None"
  shows "place_files [f, g] 0 (A @ None # B @ None # C) =
    (A @ Some f # B @ Some g # C, [length A, Suc (length A + length B)])"
proof -
  have "place_files [] i C = (C, [])" for i by (cases C) auto
  with place_skip [OF assms(1), of f "[g]" 0 "None # B @ None # C"]
    place_skip [OF assms(2), of g "[]" "Suc (length A)" "None # C"]
  show ?thesis by simp
qed

lemma place_two:
  "(\<forall>x \<in> set slots. x \<noteq> None) \<and> place_files [f, g] 0 slots = (slots, []) \<or>
   (\<exists>A B. slots = A @ None # B \<and> place_files [f, g] 0 slots = (A @ Some f # B, [length A])) \<or>
   (\<exists>A B C. slots = A @ None # B @ None # C \<and> (\<forall>x \<in> set A \<union> set B. x \<noteq> None) \<and>
      place_files [f, g] 0 slots = (A @ Some f # B @ Some g # C, [length A, Suc (length A + length B)]))"
proof (cases "\<forall>x \<in> set slots. x \<noteq> None")
  case True
  with place_none [OF True, of "[f, g]" 0] show ?thesis by (intro disjI1 conjI)
next
  case False
  from split_free [OF this] obtain A B where A: "slots = A @ None # B" "\<forall>x \<in> set A. x \<noteq> None" by (elim exE conjE)
  show ?thesis
  proof (cases "\<forall>x \<in> set B. x \<noteq> None")
    case True
    have "place_files [f, g] 0 slots = (A @ Some f # B, [length A])" unfolding A(1) by (rule place_one [OF A(2) True])
    with A(1) have "\<exists>A B. slots = A @ None # B \<and> place_files [f, g] 0 slots = (A @ Some f # B, [length A])"
      by (intro exI conjI)
    then show ?thesis by (rule disjI2 [OF disjI1])
  next
    case False
    from split_free [OF this] obtain B' C where B: "B = B' @ None # C" "\<forall>x \<in> set B'. x \<noteq> None" by (elim exE conjE)
    have "slots = A @ None # B' @ None # C" "\<forall>x \<in> set A \<union> set B'. x \<noteq> None" using A B by auto
    moreover have "place_files [f, g] 0 slots = (A @ Some f # B' @ Some g # C, [length A, Suc (length A + length B')])"
      unfolding calculation(1) by (rule place_both [OF A(2) B(2)])
    ultimately show ?thesis by (intro disjI2 exI conjI)
  qed
qed

lemma put_filp_spec:
  assumes "contents t f = Some (zero_file\<lparr>f_count := 1\<rparr>)"
  shows "\<exists>t'. put_filp f t = Some t' \<and> \<not> used_file t' f \<and> (\<forall>b. b \<noteq> f \<longrightarrow> contents t' b = contents t b)"
proof -
  obtain x where x: "heap t f = Some x" "body x = zero_file\<lparr>f_count := 1\<rparr>" using assms by (auto simp: contents_def)
  have "f_count (body x) = 1" by (simp only: x(2)) simp
  then have "f_count x = 1" by (simp add: body_def)
  with x(1) show ?thesis
    by (simp add: put_filp_def wr_Some used_file_def contents_def body_def u16_def)
qed

text \<open>What has to hold after the two files are found and given back.\<close>

lemma put_back:
  assumes h: "handed_out s f t" "handed_out t g u"
  shows "\<exists>v w. put_filp f u = Some v \<and> put_filp g v = Some w \<and> (\<forall>a. used_file w a = used_file s a)"
proof -
  have fg: "f \<noteq> g" using h by (auto simp: handed_out_def used_file_def)
  have uf: "used_file t f" using h(1) by (simp add: handed_out_def used_file_def)
  have cf: "contents u f = Some (zero_file\<lparr>f_count := 1\<rparr>)" using h uf fg by (auto simp: handed_out_def)
  obtain v where v: "put_filp f u = Some v" "\<not> used_file v f" "\<forall>b. b \<noteq> f \<longrightarrow> contents v b = contents u b"
    using put_filp_spec [OF cf] by blast
  have "contents v g = Some (zero_file\<lparr>f_count := 1\<rparr>)" using v(3) fg h(2) by (simp add: handed_out_def)
  from put_filp_spec [OF this] obtain w where
    w: "put_filp g v = Some w" "\<not> used_file w g" "\<forall>b. b \<noteq> g \<longrightarrow> contents w b = contents v b" by blast
  have "used_file w a = used_file s a" for a
  proof -
    consider "a = f" | "a = g" | "a \<noteq> f" "a \<noteq> g" by blast
    then show ?thesis
    proof cases
      case 1
      then show ?thesis using v(2) w(3) fg h(1) by (simp add: used_file_def handed_out_def)
    next
      case 2
      then show ?thesis using w(2) fg h by (auto simp: handed_out_def)
    next
      case 3
      have "used_file w a = used_file u a" using 3 v(3) w(3) by (simp add: used_file_def)
      then show ?thesis using 3 h by (simp add: handed_out_def)
    qed
  qed
  with v(1) w(1) show ?thesis by blast
qed

text \<open>What a successful call leaves behind.\<close>

definition pipe_end :: "int \<Rightarrow> int \<Rightarrow> fops \<Rightarrow> pipe_inode \<Rightarrow> kfile" where
  "pipe_end m fl op ino =
     zero_file\<lparr>f_count := 1, f_mode := m, f_flags := fl, f_op := Some op, f_inode := Some (pi_addr ino)\<rparr>"

definition pipe_made :: "fd_state \<Rightarrow> pipe_inode \<Rightarrow> nat \<Rightarrow> nat \<Rightarrow> fd_state \<Rightarrow> bool" where
  "pipe_made s ino a b s' \<longleftrightarrow> a < b \<and> b < length (fd_filp s) \<and> fd_filp s ! a = None \<and> fd_filp s ! b = None \<and>
     (\<forall>i < b. i \<noteq> a \<longrightarrow> fd_filp s ! i \<noteq> None) \<and>
     (\<exists>f g. f \<noteq> g \<and> \<not> used_file (fd_tab s) f \<and> \<not> used_file (fd_tab s) g \<and>
        fd_filp s' = (fd_filp s)[a := Some f, b := Some g] \<and>
        contents (fd_tab s') f = Some (pipe_end 1 O_RDONLY read_pipe_fops ino) \<and>
        contents (fd_tab s') g = Some (pipe_end 2 O_WRONLY write_pipe_fops ino))"

lemma fill_ends:
  assumes h: "handed_out s f t" "handed_out t g u" and ino: "a = pi_addr ino"
  shows "\<exists>h1 h2. wr (Some f) (\<lambda>x. x\<lparr>f_inode := Some a, f_pos := 0, f_flags := O_RDONLY,
      f_op := Some read_pipe_fops, f_mode := 1\<rparr>) (heap u) = Some h1 \<and>
    wr (Some g) (\<lambda>x. x\<lparr>f_inode := Some a, f_pos := 0, f_flags := O_WRONLY,
      f_op := Some write_pipe_fops, f_mode := 2\<rparr>) h1 = Some h2 \<and>
    contents (u\<lparr>heap := h2\<rparr>) f = Some (pipe_end 1 O_RDONLY read_pipe_fops ino) \<and>
    contents (u\<lparr>heap := h2\<rparr>) g = Some (pipe_end 2 O_WRONLY write_pipe_fops ino)"
proof -
  have fg: "f \<noteq> g" using h by (auto simp: handed_out_def used_file_def)
  have uf: "used_file t f" using h(1) by (simp add: handed_out_def used_file_def)
  have cf: "contents u f = Some (zero_file\<lparr>f_count := 1\<rparr>)" using h uf fg by (auto simp: handed_out_def)
  have cg: "contents u g = Some (zero_file\<lparr>f_count := 1\<rparr>)" using h(2) by (simp add: handed_out_def)
  obtain x where x: "heap u f = Some x" "body x = zero_file\<lparr>f_count := 1\<rparr>" using cf by (auto simp: contents_def)
  obtain y where y: "heap u g = Some y" "body y = zero_file\<lparr>f_count := 1\<rparr>" using cg by (auto simp: contents_def)
  have bx: "body (x\<lparr>f_inode := Some a, f_pos := 0, f_flags := O_RDONLY, f_op := Some read_pipe_fops, f_mode := 1\<rparr>) =
      pipe_end 1 O_RDONLY read_pipe_fops ino"
    using x(2) by (cases x) (simp add: body_def pipe_end_def zero_file_def ino)
  have bd: "body (y\<lparr>f_inode := Some a, f_pos := 0, f_flags := O_WRONLY, f_op := Some write_pipe_fops, f_mode := 2\<rparr>) =
      pipe_end 2 O_WRONLY write_pipe_fops ino"
    using y(2) by (cases y) (simp add: body_def pipe_end_def zero_file_def ino)
  show ?thesis using x(1) y(1) fg bx bd by (simp add: wr_Some contents_def)
qed

lemma used_file_contents: "contents t = contents u \<Longrightarrow> used_file t = used_file u"
  by (simp add: used_file_def fun_eq_iff)

lemma pipe_made_two:
  assumes "fd_filp s = A @ None # B @ None # C" "\<forall>x \<in> set A \<union> set B. x \<noteq> None" "f \<noteq> g"
    "\<not> used_file (fd_tab s) f" "\<not> used_file (fd_tab s) g" "fd_filp s' = A @ Some f # B @ Some g # C"
    "contents (fd_tab s') f = Some (pipe_end 1 O_RDONLY read_pipe_fops ino)"
    "contents (fd_tab s') g = Some (pipe_end 2 O_WRONLY write_pipe_fops ino)"
  shows "pipe_made s ino (length A) (Suc (length A + length B)) s'"
proof -
  have "fd_filp s ! i \<noteq> None" if "i < Suc (length A + length B)" "i \<noteq> length A" for i
  proof (cases "i < length A")
    case True
    then show ?thesis using assms(1,2) by (auto simp: nth_append)
  next
    case False
    then have "i - Suc (length A) < length B" "i = Suc (length A) + (i - Suc (length A))" using that by auto
    moreover have "fd_filp s ! (Suc (length A) + j) = B ! j" if "j < length B" for j
      using that by (simp add: assms(1) nth_append)
    ultimately show ?thesis using assms(2) by (metis UnCI nth_mem)
  qed
  moreover have "fd_filp s' = (fd_filp s)[length A := Some f, Suc (length A + length B) := Some g]"
    by (simp add: assms(1,6) list_update_append)
  ultimately show ?thesis using assms(3-5,7,8) by (auto simp: pipe_made_def assms(1) nth_append)
qed

section \<open>Sequences of calls\<close>

datatype pipe_call = CRead task kfile int | CWrite task kfile writing

definition stored :: "writing \<Rightarrow> write_result \<Rightarrow> 8 word list" where
  "stored w r =
     (case w_outcome r of
        Ret n \<Rightarrow> take (nat (n - w_written w)) (w_buf w)
      | Sleep w' \<Rightarrow> take (length (w_buf w) - length (w_buf w')) (w_buf w)
      | _ \<Rightarrow> [])"

fun pipe_calls :: "pipe_inode_info \<Rightarrow> pipe_call list \<Rightarrow> (pipe_inode_info \<times> 8 word list \<times> 8 word list) option" where
  "pipe_calls p [] = Some (p, [], [])"
| "pipe_calls p (CRead cur filp count # cs) =
     (case pipe_read cur filp p count of
        (q, Ret bs) \<Rightarrow> map_option (\<lambda>(p', acc, del). (p', acc, bs @ del)) (pipe_calls q cs)
      | (q, Fault) \<Rightarrow> None
      | (q, _) \<Rightarrow> pipe_calls q cs)"
| "pipe_calls p (CWrite cur filp w # cs) =
     (case write_run cur filp p w of
        None \<Rightarrow> None
      | Some r \<Rightarrow> map_option (\<lambda>(p', acc, del). (p', stored w r @ acc, del)) (pipe_calls (w_pipe r) cs))"

definition good_call :: "pipe_call \<Rightarrow> bool" where
  "good_call c \<longleftrightarrow> (case c of CRead cur filp count \<Rightarrow> 0 \<le> count | CWrite cur filp w \<Rightarrow> 0 \<le> w_written w)"

lemma pipe_read_effect:
  assumes wf: "wf_pipe p" and c: "0 \<le> count"
  shows "\<exists>q out. pipe_read cur filp p count = (q, out) \<and> wf_pipe q \<and> same_rest p q \<and>
    (case out of
       Ret bs \<Rightarrow> pipe_contents p = bs @ pipe_contents q \<and> (0 < count \<longrightarrow> bs = [] \<longrightarrow> pipe_contents p = [] \<and> writers p = 0)
     | Err e \<Rightarrow> pipe_contents q = pipe_contents p \<and> e \<in> {EAGAIN, ERESTARTSYS}
     | Sleep u \<Rightarrow> q = p \<and> \<not> nonblocking filp
     | Fault \<Rightarrow> False) \<and>
    (lock p = 0 \<longrightarrow> 0 < count \<longrightarrow> pipe_contents p \<noteq> [] \<longrightarrow> out = Ret (take (nat count) (pipe_contents p)))"
proof -
  have em: "PIPE_EMPTY p \<longleftrightarrow> pipe_contents p = []" by (rule empty_contents [OF wf])
  show ?thesis
  proof (cases "lock p = 0 \<and> pipe_contents p \<noteq> []")
    case True
    from read_locked_spec [OF wf _ c] True obtain q where q:
      "read_locked p count = (q, if take (nat count) (pipe_contents p) \<noteq> [] then Ret (take (nat count) (pipe_contents p))
          else if writers p \<noteq> 0 then Err EAGAIN else Ret [])"
      "wf_pipe q" "pipe_contents q = drop (nat count) (pipe_contents p)" "same_rest p q" by blast
    have "pipe_read cur filp p count = read_locked p count"
      using True em by (simp add: pipe_read_def pipe_read_wait_def)
    with q True c show ?thesis by (cases "count = 0") auto
  next
    case False
    then show ?thesis using wf em by (auto simp: pipe_read_def pipe_read_wait_def)
  qed
qed

lemma stored_effect: "write_effect p w r k \<Longrightarrow> stored w r = take k (w_buf w)"
  by (auto simp: write_effect_def stored_def split: outcome.splits)

section \<open>Properties\<close>

text \<open>
  C3: over any sequence of reads and writes, and of sleeps and restarts of writes, the bytes
  delivered to readers followed by what the pipe still holds are the bytes it held at the start
  followed by the bytes writers stored: nothing is lost, duplicated or reordered.
\<close>

theorem pipe_is_a_byte_stream:
  assumes "wf_pipe p" and "\<forall>c \<in> set cs. good_call c"
  shows "\<exists>p' acc del. pipe_calls p cs = Some (p', acc, del) \<and> wf_pipe p' \<and>
    pipe_contents p @ acc = del @ pipe_contents p'"
  using assms
proof (induction cs arbitrary: p)
  case (Cons c cs)
  show ?case
  proof (cases c)
    case (CRead cur filp count)
    then have c: "0 \<le> count" using Cons.prems(2) by (simp add: good_call_def)
    obtain q out where q: "pipe_read cur filp p count = (q, out)" "wf_pipe q"
      "(case out of
         Ret bs \<Rightarrow> pipe_contents p = bs @ pipe_contents q \<and> (0 < count \<longrightarrow> bs = [] \<longrightarrow> pipe_contents p = [] \<and> writers p = 0)
       | Err e \<Rightarrow> pipe_contents q = pipe_contents p \<and> e \<in> {EAGAIN, ERESTARTSYS}
       | Sleep u \<Rightarrow> q = p \<and> \<not> nonblocking filp
       | Fault \<Rightarrow> False)"
      using pipe_read_effect [OF Cons.prems(1) c, of cur filp] by blast
    obtain p' acc del where "pipe_calls q cs = Some (p', acc, del)" "wf_pipe p'" "pipe_contents q @ acc = del @ pipe_contents p'"
      using Cons.IH [OF q(2)] Cons.prems(2) by auto
    then show ?thesis using q CRead by (cases out) auto
  next
    case (CWrite cur filp w)
    then have w: "0 \<le> w_written w" using Cons.prems(2) by (simp add: good_call_def)
    obtain r k where r: "write_run cur filp p w = Some r" "write_effect p w r k"
      using write_run_effect [OF Cons.prems(1) w] by blast
    then have q: "wf_pipe (w_pipe r)" "pipe_contents (w_pipe r) = pipe_contents p @ take k (w_buf w)"
      by (simp_all add: write_effect_def)
    obtain p' acc del where "pipe_calls (w_pipe r) cs = Some (p', acc, del)" "wf_pipe p'"
        "pipe_contents (w_pipe r) @ acc = del @ pipe_contents p'"
      using Cons.IH [OF q(1)] Cons.prems(2) by auto
    then show ?thesis using r(1) q(2) CWrite stored_effect [OF r(2)] by auto
  qed
qed simp

definition pipe0 :: pipe_inode_info where
  "pipe0 = \<lparr>base = Some (replicate 4096 0), start = 4094, len = 0, lock = 0, rd_openers = 0, wr_openers = 0,
     readers = 1, writers = 1, wakes = 0\<rparr>"

definition task0 :: task where
  "task0 = \<lparr>pid = 1, euid = 0, egid = 0, groups = [], signal = 0, blocked = 0\<rparr>"

lemma wf_pipe0: "wf_pipe pipe0" by (simp add: wf_pipe_def pipe0_def)

lemma pipe_is_a_byte_stream_witness:
  "\<exists>p' acc del. pipe_calls pipe0
      [CWrite task0 zero_file \<lparr>w_buf = [1, 2, 3, 4], w_written = 0, w_free = 4\<rparr>, CRead task0 zero_file 3] = Some (p', acc, del) \<and>
     pipe_contents pipe0 @ acc = del @ pipe_contents p'"
  using pipe_is_a_byte_stream [OF wf_pipe0, of
    "[CWrite task0 zero_file \<lparr>w_buf = [1, 2, 3, 4], w_written = 0, w_free = 4\<rparr>, CRead task0 zero_file 3]"]
  by (auto simp: good_call_def)

text \<open>
  A read of at least one byte takes bytes from the front, in order, as many as asked for or as
  there are; it reports the end of the stream only when the pipe is empty and has no writer, never
  faults, and leaves the pipe alone when it fails or sleeps; a non-blocking read never sleeps.
\<close>

theorem pipe_read_takes_the_front:
  assumes "wf_pipe p" and "0 < count"
  shows "\<exists>q out. pipe_read cur filp p count = (q, out) \<and> wf_pipe q \<and>
    (case out of
       Ret bs \<Rightarrow> pipe_contents p = bs @ pipe_contents q \<and> (bs = [] \<longrightarrow> pipe_contents p = [] \<and> writers p = 0)
     | Err e \<Rightarrow> pipe_contents q = pipe_contents p \<and> e \<in> {EAGAIN, ERESTARTSYS}
     | Sleep u \<Rightarrow> q = p \<and> \<not> nonblocking filp
     | Fault \<Rightarrow> False) \<and>
    (lock p = 0 \<longrightarrow> pipe_contents p \<noteq> [] \<longrightarrow> out = Ret (take (nat count) (pipe_contents p)))"
proof -
  have c: "0 \<le> count" using assms(2) by simp
  show ?thesis
    using pipe_read_effect [OF assms(1) c, of cur filp] assms(2)
    by (elim exE conjE) (rule exI, rule exI, rule conjI, assumption, auto split: outcome.splits)
qed

lemma pipe_read_takes_the_front_witness:
  "\<exists>q out. pipe_read task0 zero_file pipe0 5 = (q, out) \<and> wf_pipe q"
  using pipe_read_takes_the_front [OF wf_pipe0, of 5 task0 zero_file] by auto





text \<open>
  C29: a successful \<open>sys_pipe\<close> returns the two lowest free descriptors, now referring to two
  different files that were not in use, one for reading and one for writing the same inode. A
  failing one leaves the descriptor table as it was and no file in use that was not.
\<close>

theorem sys_pipe_all_or_nothing:
  assumes inv: "pool_inv (fd_tab s, fd_pages s)" and run: "sys_pipe verify inode s = Some (s', out)"
  shows "case out of
      Ret (a, b) \<Rightarrow> (\<exists>ino. inode = Some ino \<and> pipe_made s ino a b s')
    | Err e \<Rightarrow> fd_filp s' = fd_filp s \<and> (\<forall>f. used_file (fd_tab s') f = used_file (fd_tab s) f)
    | _ \<Rightarrow> False"
proof (cases verify)
  case (Some e)
  then show ?thesis using run by (auto simp: sys_pipe_def)
next
  case None
  obtain r0 t pg where g0: "get_empty_filp (fd_pages s) (fd_tab s) = Some (r0, t, pg)"
    using run None by (auto simp: sys_pipe_def split: Option.bind_splits)
  note p0 = get_empty_filp_pool [OF inv g0]
  show ?thesis
  proof (cases r0)
    case r: None
    then show ?thesis using run p0 by (auto simp: sys_pipe_def None g0)
  next
    case f: (Some f)
    have hf: "handed_out (fd_tab s) f t" using p0 f by simp
    obtain r1 u pg' where g1: "get_empty_filp pg t = Some (r1, u, pg')"
      using run None f g0 by (auto simp: sys_pipe_def split: Option.bind_splits)
    note p1 = get_empty_filp_pool [OF conjunct1 [OF p0] g1]
    show ?thesis
    proof (cases r1)
      case r: None
      have "contents u f = Some (zero_file\<lparr>f_count := 1\<rparr>)" using hf p1 r by (simp add: handed_out_def)
      from put_filp_spec [OF this] obtain v where
        v: "put_filp f u = Some v" "\<not> used_file v f" "\<forall>b. b \<noteq> f \<longrightarrow> contents v b = contents u b" by blast
      have "used_file v b = used_file (fd_tab s) b" for b
        using v(2,3) hf p1 r by (cases "b = f") (auto simp: handed_out_def used_file_def)
      with v(1) show ?thesis using run by (auto simp: sys_pipe_def None g0 g1 f r)
    next
      case g: (Some g)
      have hg: "handed_out t g u" using p1 g by simp
      obtain v w where vw: "put_filp f u = Some v" "put_filp g v = Some w" "\<forall>a. used_file w a = used_file (fd_tab s) a"
        using put_back [OF hf hg] by blast
      note unf = sys_pipe_def None g0 g1 f g
      consider (none) "place_files [f, g] 0 (fd_filp s) = (fd_filp s, [])"
        | (one) A B where "fd_filp s = A @ None # B" "place_files [f, g] 0 (fd_filp s) = (A @ Some f # B, [length A])"
        | (two) A B C where "fd_filp s = A @ None # B @ None # C" "\<forall>x \<in> set A \<union> set B. x \<noteq> None"
            "place_files [f, g] 0 (fd_filp s) = (A @ Some f # B @ Some g # C, [length A, Suc (length A + length B)])"
        using place_two [of "fd_filp s" f g] by (elim disjE exE conjE)
      then show ?thesis
      proof cases
        case none
        then show ?thesis using run vw by (auto simp: unf)
      next
        case one
        then show ?thesis using run vw by (auto simp: unf)
      next
        case two
        show ?thesis
        proof (cases inode)
          case no: None
          have "(A @ Some f # B @ Some g # C)[length A := None, Suc (length A + length B) := None] = fd_filp s"
            by (simp add: two(1) list_update_append)
          then show ?thesis using run vw two(3) no by (auto simp: unf)
        next
          case ino: (Some ino)
          from fill_ends [OF hf hg refl [of "pi_addr ino"]] obtain h1 h2 where h:
            "wr (Some f) (\<lambda>x. x\<lparr>f_inode := Some (pi_addr ino), f_pos := 0, f_flags := O_RDONLY,
               f_op := Some read_pipe_fops, f_mode := 1\<rparr>) (heap u) = Some h1"
            "wr (Some g) (\<lambda>x. x\<lparr>f_inode := Some (pi_addr ino), f_pos := 0, f_flags := O_WRONLY,
               f_op := Some write_pipe_fops, f_mode := 2\<rparr>) h1 = Some h2"
            "contents (u\<lparr>heap := h2\<rparr>) f = Some (pipe_end 1 O_RDONLY read_pipe_fops ino)"
            "contents (u\<lparr>heap := h2\<rparr>) g = Some (pipe_end 2 O_WRONLY write_pipe_fops ino)" by blast
          have fg: "f \<noteq> g" "\<not> used_file (fd_tab s) f" "\<not> used_file (fd_tab s) g"
            using hf hg by (auto simp: handed_out_def used_file_def)
          have "s' = s\<lparr>fd_tab := u\<lparr>heap := h2\<rparr>, fd_pages := pg', fd_filp := A @ Some f # B @ Some g # C\<rparr>"
            "out = Ret (length A, Suc (length A + length B))"
            using run two(3) h(1,2) ino by (auto simp: unf)
          then show ?thesis
            using pipe_made_two [OF two(1,2) fg, of s' ino] h(3,4) ino by simp
        qed
      qed
    qed
  qed
qed


definition ring3 :: ftab where
  "ring3 = \<lparr>heap = [0 \<mapsto> zero_file\<lparr>f_next := Some 1, f_prev := Some 2\<rparr>,
      1 \<mapsto> zero_file\<lparr>f_next := Some 2, f_prev := Some 0, f_count := 4\<rparr>,
      2 \<mapsto> zero_file\<lparr>f_next := Some 0, f_prev := Some 1\<rparr>], first_file = Some 0, nr_files = 3\<rparr>"

definition inode9 :: pipe_inode where
  "inode9 = \<lparr>pi_addr = 9, pi_pipe = \<lparr>base = Some [], start = 0, len = 0, lock = 0, rd_openers = 0, wr_openers = 0,
     readers = 1, writers = 1, wakes = 0\<rparr>, pi_count = 2, pi_uid = 0, pi_gid = 0\<rparr>"

lemma pool_ring3: "pool_inv (ring3, [])"
proof -
  have "wf_ftab ring3 [0, 1, 2]" by (simp add: wf_ftab_def ring_def ring3_def)
  then show ?thesis by (auto simp: pool_inv_def)
qed

lemma sys_pipe_all_or_nothing_witness:
  "\<exists>s'. sys_pipe None (Some inode9) \<lparr>fd_tab = ring3, fd_pages = [], fd_filp = [None, Some 1, None, None]\<rparr> = Some (s', Ret (0, 2)) \<and>
     pipe_made \<lparr>fd_tab = ring3, fd_pages = [], fd_filp = [None, Some 1, None, None]\<rparr> inode9 0 2 s'"
proof -
  let ?s = "\<lparr>fd_tab = ring3, fd_pages = [], fd_filp = [None, Some 1, None, None]\<rparr>"
  have "\<exists>s'. sys_pipe None (Some inode9) ?s = Some (s', Ret (0, 2))"
    by (simp add: sys_pipe_def get_empty_filp_def filp_repeat.simps take_file_def remove_file_free_def put_last_free_def
        ring3_def zero_file_def rd_def wr_def numeral_3_eq_3 inode9_def)
  then obtain s' where r: "sys_pipe None (Some inode9) ?s = Some (s', Ret (0, 2))" ..
  from sys_pipe_all_or_nothing [OF _ r] pool_ring3 r show ?thesis by auto
qed

end
