(* ===== verification/Fifo_Props.thy ===== *)
theory Fifo_Props
  imports Fifo Pipe_Props
begin

text \<open>
  The counts of a named pipe, over all interleavings of the runs of Fifo.thy. Each run changes the
  four counts by what its own slot gains or loses (\<open>balanced\<close>); from that, the counts of a reachable
  state are the numbers of its users (\<open>fifo_inv\<close>), and openers that wait for each other always find
  one among them that can go on. The one run that breaks the balance is the one that gets no page.
\<close>

section \<open>Who counts as a reader, a writer, an opener\<close>

fun rd_ref :: "user option \<Rightarrow> bool" where
  "rd_ref None = False"
| "rd_ref (Some (Opened f)) = (f_mode f \<in> {1, 3})"
| "rd_ref (Some (Opening f w)) = (f_mode f \<in> {1, 3})"

fun wr_ref :: "user option \<Rightarrow> bool" where
  "wr_ref None = False"
| "wr_ref (Some (Opened f)) = (f_mode f \<in> {2, 3})"
| "wr_ref (Some (Opening f w)) = (f_mode f = 2 \<or> f_mode f = 3 \<and> w \<noteq> RwWrOpeners)"

fun rd_wait :: "user option \<Rightarrow> bool" where
  "rd_wait (Some (Opening f RdWriter)) = True"
| "rd_wait _ = False"

fun wr_wait :: "user option \<Rightarrow> bool" where
  "wr_wait (Some (Opening f WrReader)) = True"
| "wr_wait _ = False"

definition ok_file :: "kfile \<Rightarrow> bool" where
  "ok_file f \<longleftrightarrow> f_mode f = 1 \<and> f_op f \<in> {Some connecting_fifo_fops, Some read_fifo_fops} \<or>
     f_mode f = 2 \<and> f_op f = Some write_fifo_fops \<or> f_mode f = 3 \<and> f_op f = Some rdwr_fifo_fops"

fun wait_mode :: "fifo_wait \<Rightarrow> int \<Rightarrow> bool" where
  "wait_mode RdWriter m = (m = 1)"
| "wait_mode (RdOpeners _) m = (m = 1)"
| "wait_mode WrReader m = (m = 2)"
| "wait_mode (WrOpeners _) m = (m = 2)"
| "wait_mode RwWrOpeners m = (m = 3)"
| "wait_mode RwRdOpeners m = (m = 3)"
| "wait_mode GetPage m = True"

fun ok_user :: "user option \<Rightarrow> bool" where
  "ok_user None = True"
| "ok_user (Some (Opened f)) = ok_file f"
| "ok_user (Some (Opening f w)) = (ok_file f \<and> wait_mode w (f_mode f))"

definition slot :: "open_run \<Rightarrow> user option" where
  "slot run = (case run of (filp, p, out) \<Rightarrow>
     (case out of Sleep w \<Rightarrow> Some (Opening filp w) | Ret _ \<Rightarrow> Some (Opened filp) | _ \<Rightarrow> None))"

abbreviation ib :: "bool \<Rightarrow> int" where "ib \<equiv> of_bool"

text \<open>A run moves each count by what its slot gains or loses.\<close>

definition balanced :: "user option \<Rightarrow> pipe_inode_info \<Rightarrow> open_run \<Rightarrow> bool" where
  "balanced u p run \<longleftrightarrow> ok_user (slot run) \<and>
     readers (fst (snd run)) = u32 (readers p + ib (rd_ref (slot run)) - ib (rd_ref u)) \<and>
     writers (fst (snd run)) = u32 (writers p + ib (wr_ref (slot run)) - ib (wr_ref u)) \<and>
     rd_openers (fst (snd run)) = u32 (rd_openers p + ib (rd_wait (slot run)) - ib (rd_wait u)) \<and>
     wr_openers (fst (snd run)) = u32 (wr_openers p + ib (wr_wait (slot run)) - ib (wr_wait u))"

lemma wake_counts [simp]:
  "readers (wake_up_interruptible p) = readers p" "writers (wake_up_interruptible p) = writers p"
  "rd_openers (wake_up_interruptible p) = rd_openers p" "wr_openers (wake_up_interruptible p) = wr_openers p"
  "base (wake_up_interruptible p) = base p"
  by (simp_all add: wake_up_interruptible_def)

lemma count_ops [simp]:
  "readers (add_reader p) = u32 (readers p + 1)" "readers (drop_reader p) = u32 (readers p - 1)"
  "writers (add_writer p) = u32 (writers p + 1)" "writers (drop_writer p) = u32 (writers p - 1)"
  "rd_openers (drop_rd_opener p) = u32 (rd_openers p - 1)" "wr_openers (drop_wr_opener p) = u32 (wr_openers p - 1)"
  by (simp_all add: add_reader_def drop_reader_def add_writer_def drop_writer_def drop_rd_opener_def drop_wr_opener_def Let_def)

lemma count_frames [simp]:
  "writers (add_reader p) = writers p" "rd_openers (add_reader p) = rd_openers p" "wr_openers (add_reader p) = wr_openers p"
  "writers (drop_reader p) = writers p" "rd_openers (drop_reader p) = rd_openers p" "wr_openers (drop_reader p) = wr_openers p"
  "readers (add_writer p) = readers p" "rd_openers (add_writer p) = rd_openers p" "wr_openers (add_writer p) = wr_openers p"
  "readers (drop_writer p) = readers p" "rd_openers (drop_writer p) = rd_openers p" "wr_openers (drop_writer p) = wr_openers p"
  "readers (drop_rd_opener p) = readers p" "writers (drop_rd_opener p) = writers p" "wr_openers (drop_rd_opener p) = wr_openers p"
  "readers (drop_wr_opener p) = readers p" "writers (drop_wr_opener p) = writers p" "rd_openers (drop_wr_opener p) = rd_openers p"
  by (simp_all add: add_reader_def drop_reader_def add_writer_def drop_writer_def drop_rd_opener_def drop_wr_opener_def Let_def)

text \<open>The ends of the three ways, from the counts they start with.\<close>

definition counts_ok :: "pipe_inode_info \<Rightarrow> bool" where
  "counts_ok p \<longleftrightarrow> u32 (readers p) = readers p \<and> u32 (writers p) = writers p \<and>
     u32 (rd_openers p) = rd_openers p \<and> u32 (wr_openers p) = wr_openers p"

lemma ok_file_set [simp]: "f_mode f = 1 \<Longrightarrow> ok_file (f\<lparr>f_op := Some read_fifo_fops\<rparr>)"
  by (simp add: ok_file_def)

lemma rd_openers_balanced:
  assumes c: "counts_ok p" and f: "ok_file f" "f_mode f = 1"
  shows "balanced (Some (Opening f (RdOpeners r))) p (fifo_rd_openers f p retval)"
proof (cases "wr_openers p = 0")
  case False
  then show ?thesis using c f by (simp add: fifo_rd_openers_def balanced_def slot_def counts_ok_def)
next
  case True
  show ?thesis
  proof (cases retval)
    case None
    with True show ?thesis using c f
      by (cases "writers p = 0"; cases "base p") (simp_all add: fifo_rd_openers_def fifo_end_def balanced_def slot_def counts_ok_def)
  next
    case (Some e)
    with True show ?thesis using c f
      by (simp add: fifo_rd_openers_def fifo_end_def balanced_def slot_def counts_ok_def)
  qed
qed

lemma wr_openers_balanced:
  assumes c: "counts_ok p" and f: "ok_file f" "f_mode f = 2"
  shows "balanced (Some (Opening f (WrOpeners r))) p (fifo_wr_openers f p retval)"
proof (cases "rd_openers p = 0")
  case False
  then show ?thesis using c f by (simp add: fifo_wr_openers_def balanced_def slot_def counts_ok_def)
next
  case True
  with c f show ?thesis
    by (cases retval; cases "base p") (simp_all add: fifo_wr_openers_def fifo_end_def balanced_def slot_def counts_ok_def)
qed

lemma u32_u32: "u32 (u32 a + b) = u32 (a + b)" "u32 (u32 a + b - c) = u32 (a + b - c)"
proof -
  show "u32 (u32 a + b) = u32 (a + b)" for b by (simp add: u32_def mod_add_left_eq)
  from this [of "b - c"] show "u32 (u32 a + b - c) = u32 (a + b - c)" by (simp add: algebra_simps)
qed

lemma balanced_shift:
  assumes "balanced v q run"
    and "readers q = u32 (readers p + (ib (rd_ref v) - ib (rd_ref u)))"
    and "writers q = u32 (writers p + (ib (wr_ref v) - ib (wr_ref u)))"
    and "rd_openers q = u32 (rd_openers p + (ib (rd_wait v) - ib (rd_wait u)))"
    and "wr_openers q = u32 (wr_openers p + (ib (wr_wait v) - ib (wr_wait u)))"
  shows "balanced u p run"
  using assms(1) unfolding balanced_def assms(2-5) u32_u32(2) by (simp add: algebra_simps)

lemma counts_ok_u32:
  "\<lbrakk>readers q = u32 a; writers q = u32 b; rd_openers q = u32 c; wr_openers q = u32 d\<rbrakk> \<Longrightarrow> counts_ok q"
  by (simp add: counts_ok_def u32_def)

lemma rd_writer_balanced:
  assumes c: "counts_ok p" and f: "ok_file f" "f_mode f = 1"
  shows "balanced (Some (Opening f RdWriter)) p (fifo_rd_writer cur f p)"
proof -
  let ?q = "drop_rd_opener p"
  have q: "counts_ok ?q" using c by (simp add: counts_ok_def u32_def)
  have "balanced (Some (Opening f RdWriter)) p (fifo_rd_openers f ?q r)" for r
    by (rule balanced_shift [OF rd_openers_balanced [OF q f, of None]]) (use c in \<open>simp_all add: counts_ok_def f\<close>)
  moreover have "balanced (Some (Opening f RdWriter)) p (f, p, Sleep RdWriter)"
    using c f by (simp add: balanced_def slot_def counts_ok_def)
  ultimately show ?thesis by (simp add: fifo_rd_writer_def)
qed

lemma wr_reader_balanced:
  assumes c: "counts_ok p" and f: "ok_file f" "f_mode f = 2"
  shows "balanced (Some (Opening f WrReader)) p (fifo_wr_reader cur f p)"
proof -
  let ?q = "drop_wr_opener p"
  have q: "counts_ok ?q" using c by (simp add: counts_ok_def u32_def)
  have "balanced (Some (Opening f WrReader)) p (fifo_wr_openers f ?q r)" for r
    by (rule balanced_shift [OF wr_openers_balanced [OF q f, of None]]) (use c in \<open>simp_all add: counts_ok_def f\<close>)
  moreover have "balanced (Some (Opening f WrReader)) p (f, p, Sleep WrReader)"
    using c f by (simp add: balanced_def slot_def counts_ok_def)
  ultimately show ?thesis by (simp add: fifo_wr_reader_def)
qed

lemma rw_balanced:
  assumes c: "counts_ok p" and f: "ok_file f" "f_mode f = 3"
  shows "balanced (Some (Opening f RwRdOpeners)) p (fifo_rw_rd_openers f p)"
    and "balanced (Some (Opening f RwWrOpeners)) p (fifo_rw_wr_openers f p)"
proof -
  have main: "balanced (Some (Opening f RwRdOpeners)) q (fifo_rw_rd_openers f q)" if "counts_ok q" for q
    using that f by (cases "rd_openers q = 0"; cases "base q")
      (simp_all add: fifo_rw_rd_openers_def fifo_end_def balanced_def slot_def counts_ok_def)
  from main [OF c] show "balanced (Some (Opening f RwRdOpeners)) p (fifo_rw_rd_openers f p)" .
  have q: "counts_ok (add_writer p)" using c by (simp add: counts_ok_def u32_def)
  have "balanced (Some (Opening f RwWrOpeners)) p (fifo_rw_rd_openers f (add_writer p))"
    by (rule balanced_shift [OF main [OF q]]) (use c in \<open>simp_all add: counts_ok_def f\<close>)
  moreover have "balanced (Some (Opening f RwWrOpeners)) p (f, p, Sleep RwWrOpeners)"
    using c f by (simp add: balanced_def slot_def counts_ok_def)
  ultimately show "balanced (Some (Opening f RwWrOpeners)) p (fifo_rw_wr_openers f p)"
    by (simp add: fifo_rw_wr_openers_def)
qed

lemma got_page_balanced:
  assumes c: "counts_ok p" and f: "ok_file f" and pg: "page \<noteq> None"
  shows "balanced (Some (Opening f GetPage)) p (fifo_got_page f p page)"
proof -
  have "f_mode f = 1 \<or> f_mode f = 2 \<or> f_mode f = 3" using f by (auto simp: ok_file_def)
  then show ?thesis using c f pg
    by (cases "base p"; cases page) (auto simp: fifo_got_page_def balanced_def slot_def counts_ok_def)
qed

lemma resume_balanced:
  assumes "counts_ok p" "ok_user (Some (Opening f w))" "w = GetPage \<Longrightarrow> page \<noteq> None"
  shows "balanced (Some (Opening f w)) p (fifo_resume cur f p page w)"
  using assms rd_writer_balanced rd_openers_balanced wr_reader_balanced wr_openers_balanced rw_balanced got_page_balanced
  by (cases w) simp_all

lemma open_rd_balanced:
  assumes c: "counts_ok p" and m: "f_mode f = 1"
  shows "balanced None p (fifo_open cur f p)"
proof -
  let ?f = "f\<lparr>f_op := Some connecting_fifo_fops\<rparr>" and ?p = "add_reader p"
  have f: "ok_file ?f" "f_mode ?f = 1" using m by (simp_all add: ok_file_def)
  have nb: "nonblocking ?f = nonblocking f" by (simp add: nonblocking_def)
  let ?q = "?p\<lparr>rd_openers := u32 (rd_openers ?p + 1)\<rparr>"
  have q: "counts_ok ?p" "counts_ok ?q" using c by (simp_all add: counts_ok_def u32_def)
  have "balanced None p (fifo_rd_writer cur ?f ?q)"
    by (rule balanced_shift [OF rd_writer_balanced [OF q(2) f]]) (use c in \<open>simp_all add: counts_ok_def m\<close>)
  moreover have "balanced None p (fifo_rd_openers ?f ?p None)"
    by (rule balanced_shift [OF rd_openers_balanced [OF q(1) f, of None]]) (use c in \<open>simp_all add: counts_ok_def m\<close>)
  ultimately show ?thesis using m by (simp add: fifo_open_def Let_def nb)
qed

lemma open_wr_balanced:
  assumes c: "counts_ok p" and m: "f_mode f = 2"
  shows "balanced None p (fifo_open cur f p)"
proof -
  let ?f = "f\<lparr>f_op := Some write_fifo_fops\<rparr>" and ?p = "add_writer p"
  have f: "ok_file ?f" "f_mode ?f = 2" using m by (simp_all add: ok_file_def)
  let ?q = "?p\<lparr>wr_openers := u32 (wr_openers ?p + 1)\<rparr>"
  have q: "counts_ok ?p" "counts_ok ?q" using c by (simp_all add: counts_ok_def u32_def)
  have "balanced None p (fifo_wr_reader cur ?f ?q)"
    by (rule balanced_shift [OF wr_reader_balanced [OF q(2) f]]) (use c in \<open>simp_all add: counts_ok_def m\<close>)
  moreover have "balanced None p (fifo_wr_openers ?f ?p None)"
    by (rule balanced_shift [OF wr_openers_balanced [OF q(1) f, of None]]) (use c in \<open>simp_all add: counts_ok_def m\<close>)
  moreover have "balanced None p (fifo_end f p (Some ENXIO))"
    using c by (simp add: fifo_end_def balanced_def slot_def counts_ok_def)
  ultimately show ?thesis using m by (simp add: fifo_open_def Let_def)
qed

lemma open_balanced:
  assumes c: "counts_ok p"
  shows "balanced None p (fifo_open cur f p)"
proof -
  consider "f_mode f = 1" | "f_mode f = 2" | "f_mode f = 3" | "f_mode f \<notin> {1, 2, 3}" by blast
  then show ?thesis
  proof cases
    case 3
    let ?f = "f\<lparr>f_op := Some rdwr_fifo_fops\<rparr>"
    have f: "ok_file ?f" "f_mode ?f = 3" using 3 by (simp_all add: ok_file_def)
    have q: "counts_ok (add_reader p)" using c by (simp add: counts_ok_def u32_def)
    have "balanced None p (fifo_rw_wr_openers ?f (add_reader p))"
      by (rule balanced_shift [OF rw_balanced(2) [OF q f]]) (use c in \<open>simp_all add: counts_ok_def 3\<close>)
    with 3 show ?thesis by (simp add: fifo_open_def)
  next
    case 4
    then show ?thesis using c by (simp add: fifo_open_def fifo_end_def balanced_def slot_def counts_ok_def)
  qed (use open_rd_balanced [OF c] open_wr_balanced [OF c] in blast)+
qed

section \<open>The invariant\<close>

definition cnt :: "(user option \<Rightarrow> bool) \<Rightarrow> user option list \<Rightarrow> int" where
  "cnt P us = int (length (filter P us))"

lemma cnt_update:
  assumes "i < length us"
  shows "cnt P (us[i := u]) = cnt P us + ib (P u) - ib (P (us ! i))"
  using assms
proof (induction us arbitrary: i)
  case (Cons v us)
  then show ?case by (cases i) (auto simp: cnt_def)
qed simp

lemma cnt_range: "0 \<le> cnt P us" "cnt P us \<le> int (length us)"
  by (simp_all add: cnt_def)

definition fifo_inv :: "fifo_sys \<Rightarrow> bool" where
  "fifo_inv s \<longleftrightarrow> length (fs_users s) \<le> 1024 \<and> (\<forall>u \<in> set (fs_users s). ok_user u) \<and>
     readers (fs_pipe s) = cnt rd_ref (fs_users s) \<and> writers (fs_pipe s) = cnt wr_ref (fs_users s) \<and>
     rd_openers (fs_pipe s) = cnt rd_wait (fs_users s) \<and> wr_openers (fs_pipe s) = cnt wr_wait (fs_users s)"

lemma u32_cnt: "length us \<le> 1024 \<Longrightarrow> u32 (cnt P us) = cnt P us"
  using cnt_range [of P us] by (intro u32_id) auto

lemma inv_counts_ok: "fifo_inv s \<Longrightarrow> counts_ok (fs_pipe s)"
  by (simp add: fifo_inv_def counts_ok_def u32_cnt)

lemma inv_set_slot:
  assumes inv: "fifo_inv s" and i: "i < length (fs_users s)" and b: "balanced (fs_users s ! i) (fs_pipe s) run"
    and s': "fs_users s' = (fs_users s)[i := slot run]" "fs_pipe s' = fst (snd run)"
  shows "fifo_inv s'"
proof -
  have step: "u32 (cnt P (fs_users s) + ib (P (slot run)) - ib (P (fs_users s ! i))) = cnt P (fs_users s')" for P
    using inv i by (simp add: s'(1) u32_cnt fifo_inv_def flip: cnt_update)
  have "\<forall>u \<in> set (fs_users s'). ok_user u"
    using inv b set_update_subset_insert [of "fs_users s" i "slot run"] by (auto simp: fifo_inv_def balanced_def s'(1))
  with inv b step show ?thesis by (simp add: fifo_inv_def balanced_def s')
qed

lemma record_run_slot:
  "fs_users (record_run i run s) = (fs_users s)[i := slot run]" "fs_pipe (record_run i run s) = fst (snd run)"
  by (cases run; simp add: record_run_def slot_def split: outcome.split)+

lemma release_counts [simp]:
  "readers (pipe_read_release p) = u32 (readers p - 1)" "writers (pipe_read_release p) = writers p"
  "readers (pipe_write_release p) = readers p" "writers (pipe_write_release p) = u32 (writers p - 1)"
  "readers (pipe_rdwr_release p) = u32 (readers p - 1)" "writers (pipe_rdwr_release p) = u32 (writers p - 1)"
  "rd_openers (pipe_read_release p) = rd_openers p" "wr_openers (pipe_read_release p) = wr_openers p"
  "rd_openers (pipe_write_release p) = rd_openers p" "wr_openers (pipe_write_release p) = wr_openers p"
  "rd_openers (pipe_rdwr_release p) = rd_openers p" "wr_openers (pipe_rdwr_release p) = wr_openers p"
  by (simp_all add: pipe_read_release_def pipe_write_release_def pipe_rdwr_release_def)

lemma close_balanced:
  assumes c: "counts_ok (fs_pipe s)" and f: "ok_file f"
  shows "\<exists>q. close_fifo i f s = Some (s\<lparr>fs_pipe := q, fs_users := (fs_users s)[i := None]\<rparr>) \<and>
    balanced (Some (Opened f)) (fs_pipe s) (f, q, Err EBADF)"
  using f unfolding ok_file_def
  by (elim disjE) (use c in \<open>auto simp: close_fifo_def balanced_def slot_def counts_ok_def\<close>)

lemma fifo_step_inv:
  assumes "fifo_step s s'" "fifo_inv s"
  shows "fifo_inv s'"
  using assms
proof (induction rule: fifo_step.induct)
  case (fifo_opens i s cur filp)
  then show ?case using open_balanced [OF inv_counts_ok, of s cur filp]
    by (intro inv_set_slot [OF _ _ _ record_run_slot]) auto
next
  case (fifo_resumes i s filp w page cur)
  then have "ok_user (Some (Opening filp w))" by (metis fifo_inv_def nth_mem)
  with fifo_resumes resume_balanced [OF inv_counts_ok, of s filp w page cur] show ?case
    by (intro inv_set_slot [OF _ _ _ record_run_slot]) auto
next
  case (fifo_closes i s filp s')
  then have "ok_file filp" by (metis fifo_inv_def nth_mem ok_user.simps(2))
  from close_balanced [OF inv_counts_ok [OF fifo_closes(4)] this, of i] fifo_closes(3) obtain q where
    q: "s' = s\<lparr>fs_pipe := q, fs_users := (fs_users s)[i := None]\<rparr>" "balanced (Some (Opened filp)) (fs_pipe s) (filp, q, Err EBADF)"
    by auto
  show ?case
    by (rule inv_set_slot [OF fifo_closes(4,1), of "(filp, q, Err EBADF)"]) (use q fifo_closes(2) in \<open>simp_all add: slot_def\<close>)
qed

definition fifo_unused :: "nat \<Rightarrow> pipe_inode_info \<Rightarrow> fifo_sys" where
  "fifo_unused n p = \<lparr>fs_pipe = init_fifo p, fs_users = replicate n None\<rparr>"

lemma fifo_unused_inv: "n \<le> 1024 \<Longrightarrow> fifo_inv (fifo_unused n p)"
  by (simp add: fifo_inv_def fifo_unused_def init_fifo_def cnt_def)

lemma reachable_inv: "fifo_step\<^sup>*\<^sup>* s s' \<Longrightarrow> fifo_inv s \<Longrightarrow> fifo_inv s'"
  by (induction rule: rtranclp_induct) (auto intro: fifo_step_inv)

lemma cnt_nonzero: "cnt P us \<noteq> 0 \<longleftrightarrow> (\<exists>j < length us. P (us ! j))"
  by (auto simp: cnt_def filter_empty_conv in_set_conv_nth intro: bexI [OF _ nth_mem])

lemma wr_wait_cases: "wr_wait u \<longleftrightarrow> (\<exists>g. u = Some (Opening g WrReader))"
  by (cases u rule: wr_wait.cases) auto

lemma rd_wait_cases: "rd_wait u \<longleftrightarrow> (\<exists>g. u = Some (Opening g RdWriter))"
  by (cases u rule: rd_wait.cases) auto

lemma fifo_end_pipe [simp]: "fst (snd (fifo_end f p r)) = p"
  by (simp add: fifo_end_def split: option.split)

lemma wr_reader_leaves:
  "readers p \<noteq> 0 \<Longrightarrow> wr_openers (fst (snd (fifo_wr_reader cur f p))) = u32 (wr_openers p - 1)"
  by (simp add: fifo_wr_reader_def fifo_wr_openers_def)

lemma rd_writer_leaves:
  "writers p \<noteq> 0 \<Longrightarrow> rd_openers (fst (snd (fifo_rd_writer cur f p))) = u32 (rd_openers p - 1)"
  by (simp add: fifo_rd_writer_def fifo_rd_openers_def)

definition openers_drop :: "fifo_sys \<Rightarrow> nat \<Rightarrow> bool" where
  "openers_drop s j \<longleftrightarrow> j < length (fs_users s) \<and> (\<exists>g w. fs_users s ! j = Some (Opening g w) \<and>
     (\<forall>cur page. let q = fst (snd (fifo_resume cur g (fs_pipe s) page w))
       in rd_openers q + wr_openers q = rd_openers (fs_pipe s) + wr_openers (fs_pipe s) - 1))"

lemma wr_opener_drops:
  assumes inv: "fifo_inv s" and r: "readers (fs_pipe s) \<noteq> 0" and w: "wr_openers (fs_pipe s) \<noteq> 0"
  shows "\<exists>j g. fs_users s ! j = Some (Opening g WrReader) \<and> openers_drop s j"
proof -
  from w inv obtain j g where j: "j < length (fs_users s)" "fs_users s ! j = Some (Opening g WrReader)"
    unfolding fifo_inv_def by (metis cnt_nonzero wr_wait_cases)
  have "rd_openers (fst (snd (fifo_wr_reader cur g (fs_pipe s)))) = rd_openers (fs_pipe s)" for cur
    using r by (simp add: fifo_wr_reader_def fifo_wr_openers_def)
  moreover have "u32 (wr_openers (fs_pipe s) - 1) = wr_openers (fs_pipe s) - 1"
    using inv w cnt_range [of wr_wait "fs_users s"] by (intro u32_id) (auto simp: fifo_inv_def)
  ultimately have "openers_drop s j"
    using j wr_reader_leaves [OF r] by (auto simp: openers_drop_def Let_def)
  with j show ?thesis by blast
qed

lemma rd_opener_drops:
  assumes inv: "fifo_inv s" and w: "writers (fs_pipe s) \<noteq> 0" and r: "rd_openers (fs_pipe s) \<noteq> 0"
  shows "\<exists>j g. fs_users s ! j = Some (Opening g RdWriter) \<and> openers_drop s j"
proof -
  from r inv obtain j g where j: "j < length (fs_users s)" "fs_users s ! j = Some (Opening g RdWriter)"
    unfolding fifo_inv_def by (metis cnt_nonzero rd_wait_cases)
  have "wr_openers (fst (snd (fifo_rd_writer cur g (fs_pipe s)))) = wr_openers (fs_pipe s)" for cur
    using w by (simp add: fifo_rd_writer_def fifo_rd_openers_def)
  moreover have "u32 (rd_openers (fs_pipe s) - 1) = rd_openers (fs_pipe s) - 1"
    using inv r cnt_range [of rd_wait "fs_users s"] by (intro u32_id) (auto simp: fifo_inv_def)
  ultimately have "openers_drop s j"
    using j rd_writer_leaves [OF w] by (auto simp: openers_drop_def Let_def)
  with j show ?thesis by blast
qed

lemma holds_ref:
  assumes "fifo_inv s" "i < length (fs_users s)" "fs_users s ! i = u"
  shows "rd_ref u \<Longrightarrow> readers (fs_pipe s) \<noteq> 0" "wr_ref u \<Longrightarrow> writers (fs_pipe s) \<noteq> 0"
  using assms unfolding fifo_inv_def by (metis cnt_nonzero)+

lemma sleeper_blocks:
  assumes "ok_user (Some (Opening f w))" "snd (snd (fifo_resume cur f p page w)) = Sleep w" "w \<notin> {RdWriter, WrReader, GetPage}"
  shows "rd_ref (Some (Opening f w)) \<and> wr_openers p \<noteq> 0 \<or> wr_ref (Some (Opening f w)) \<and> rd_openers p \<noteq> 0"
  using assms
  by (cases w) (auto simp: fifo_rd_openers_def fifo_wr_openers_def fifo_rw_wr_openers_def fifo_rw_rd_openers_def fifo_end_def
    split: if_splits option.splits)

section \<open>Properties\<close>


abbreviation rd_file :: kfile where "rd_file \<equiv> zero_file\<lparr>f_mode := 1\<rparr>"
abbreviation wr_file :: kfile where "wr_file \<equiv> zero_file\<lparr>f_mode := 2\<rparr>"

text \<open>A reader opens and sleeps; then a writer opens, finds the reader, and waits for it to go on.\<close>

definition meet1 :: fifo_sys where
  "meet1 = record_run 0 (fifo_open task0 rd_file (init_fifo pipe0)) (fifo_unused 2 pipe0)"
definition meet2 :: fifo_sys where
  "meet2 = record_run 1 (fifo_open task0 wr_file (fs_pipe meet1)) meet1"

lemmas fifo_eval = record_run_def fifo_open_def fifo_unused_def init_fifo_def fifo_rd_writer_def fifo_rd_openers_def
  fifo_wr_openers_def fifo_wr_reader_def fifo_end_def add_reader_def add_writer_def wake_up_interruptible_def
  nonblocking_def zero_file_def task0_def pipe0_def signal_pending_def u32_def Let_def numeral_2_eq_2

lemma meet1_users: "fs_users meet1 ! 0 = Some (Opening (rd_file\<lparr>f_op := Some connecting_fifo_fops\<rparr>) RdWriter)"
  "fs_users meet1 ! 1 = None" "length (fs_users meet1) = 2" "readers (fs_pipe meet1) = 1" "rd_openers (fs_pipe meet1) = 1"
  "writers (fs_pipe meet1) = 0" "wr_openers (fs_pipe meet1) = 0"
  by (simp_all add: meet1_def fifo_eval)

lemma meet1_reachable: "fifo_step\<^sup>*\<^sup>* (fifo_unused 2 pipe0) meet1"
  unfolding meet1_def
  using fifo_opens [of 0 "fifo_unused 2 pipe0" task0 rd_file] by (intro r_into_rtranclp) (simp add: fifo_unused_def)

lemma meet2_users: "fs_users meet2 ! 1 = Some (Opening (wr_file\<lparr>f_op := Some write_fifo_fops\<rparr>) (WrOpeners None))"
  "length (fs_users meet2) = 2" "rd_openers (fs_pipe meet2) = 1"
  using meet1_users(3-) by (simp_all add: meet2_def record_run_def fifo_open_def fifo_wr_openers_def nonblocking_def zero_file_def Let_def)

lemma meet2_reachable: "fifo_step\<^sup>*\<^sup>* (fifo_unused 2 pipe0) meet2"
  unfolding meet2_def
  using meet1_users(2,3) by (intro rtranclp.rtrancl_into_rtrancl [OF meet1_reachable] fifo_opens) simp_all


text \<open>
  C18: no deadlock among openers: when a task that has met its partner goes back to sleep because
  of the opener counts, there is another sleeping task whose next run takes one off these counts,
  whatever that task's signals are.
\<close>

theorem fifo_openers_make_progress:
  assumes "fifo_step\<^sup>*\<^sup>* (fifo_unused n p) s" "n \<le> 1024"
    and "i < length (fs_users s)" "fs_users s ! i = Some (Opening f w)" "w \<notin> {RdWriter, WrReader, GetPage}"
    and "snd (snd (fifo_resume cur f (fs_pipe s) page w)) = Sleep w"
  shows "\<exists>j. j \<noteq> i \<and> openers_drop s j"
proof -
  have inv: "fifo_inv s" by (rule reachable_inv [OF assms(1) fifo_unused_inv [OF assms(2)]])
  then have ok: "ok_user (Some (Opening f w))" using assms(3,4) by (metis fifo_inv_def nth_mem)
  from sleeper_blocks [OF ok assms(6,5)] show ?thesis
  proof
    assume "rd_ref (Some (Opening f w)) \<and> wr_openers (fs_pipe s) \<noteq> 0"
    then obtain j g where "fs_users s ! j = Some (Opening g WrReader)" "openers_drop s j"
      using wr_opener_drops [OF inv] holds_ref(1) [OF inv assms(3,4)] by blast
    then show ?thesis using assms(4,5) by (intro exI [of _ j]) auto
  next
    assume "wr_ref (Some (Opening f w)) \<and> rd_openers (fs_pipe s) \<noteq> 0"
    then obtain j g where "fs_users s ! j = Some (Opening g RdWriter)" "openers_drop s j"
      using rd_opener_drops [OF inv] holds_ref(2) [OF inv assms(3,4)] by blast
    then show ?thesis using assms(4,5) by (intro exI [of _ j]) auto
  qed
qed

lemma fifo_openers_make_progress_witness: "\<exists>j. j \<noteq> 1 \<and> openers_drop meet2 j"
proof (rule fifo_openers_make_progress [OF meet2_reachable])
  show "fs_users meet2 ! 1 = Some (Opening (wr_file\<lparr>f_op := Some write_fifo_fops\<rparr>) (WrOpeners None))"
    by (rule meet2_users)
  show "snd (snd (fifo_resume task0 (wr_file\<lparr>f_op := Some write_fifo_fops\<rparr>) (fs_pipe meet2) None (WrOpeners None))) =
    Sleep (WrOpeners None)"
    using meet2_users(3) by (simp add: fifo_wr_openers_def)
qed (simp_all add: meet2_users)

text \<open>
  C30: when the page for the buffer cannot be had, \<open>fifo_open\<close> fails with \<open>ENOMEM\<close> and leaves its
  task counted as a reader or writer, although the file is not open.
\<close>

theorem fifo_open_without_memory_leaks:
  assumes "fifo_step\<^sup>*\<^sup>* (fifo_unused n p) s" "n \<le> 1024"
    and "i < length (fs_users s)" "fs_users s ! i = Some (Opening f GetPage)" "base (fs_pipe s) = None"
  shows "let run = fifo_resume cur f (fs_pipe s) None GetPage; s' = record_run i run s
    in snd (snd run) = Err ENOMEM \<and>
       readers (fs_pipe s') + writers (fs_pipe s') > cnt rd_ref (fs_users s') + cnt wr_ref (fs_users s')"
proof -
  have inv: "fifo_inv s" by (rule reachable_inv [OF assms(1) fifo_unused_inv [OF assms(2)]])
  then have "ok_user (Some (Opening f GetPage))" using assms(3,4) by (metis fifo_inv_def nth_mem)
  then have "rd_ref (Some (Opening f GetPage)) \<or> wr_ref (Some (Opening f GetPage))" by (auto simp: ok_file_def)
  then show ?thesis
    using inv assms(3-5) by (auto simp: Let_def record_run_def fifo_got_page_def cnt_update fifo_inv_def)
qed

text \<open>A reader that does not want to wait for a writer comes to the call of \<open>__get_free_page\<close>.\<close>

abbreviation nb_file :: kfile where "nb_file \<equiv> zero_file\<lparr>f_mode := 1, f_flags := O_NONBLOCK\<rparr>"
definition alone :: fifo_sys where
  "alone = record_run 0 (fifo_open task0 nb_file (init_fifo pipe0)) (fifo_unused 1 pipe0)"

lemma fifo_open_without_memory_leaks_witness:
  "let run = fifo_resume task0 (nb_file\<lparr>f_op := Some connecting_fifo_fops\<rparr>) (fs_pipe alone) None GetPage;
       s' = record_run 0 run alone
   in snd (snd run) = Err ENOMEM \<and>
      readers (fs_pipe s') + writers (fs_pipe s') > cnt rd_ref (fs_users s') + cnt wr_ref (fs_users s')"
proof (rule fifo_open_without_memory_leaks)
  show "fifo_step\<^sup>*\<^sup>* (fifo_unused 1 pipe0) alone"
    unfolding alone_def
    using fifo_opens [of 0 "fifo_unused 1 pipe0" task0 nb_file] by (intro r_into_rtranclp) (simp add: fifo_unused_def)
  show "fs_users alone ! 0 = Some (Opening (nb_file\<lparr>f_op := Some connecting_fifo_fops\<rparr>) GetPage)" "base (fs_pipe alone) = None"
    by (simp_all add: alone_def fifo_eval O_NONBLOCK_def)
qed (simp_all add: alone_def fifo_eval)

end
