(* ===== verification/Runs.thy ===== *)
theory Runs
  imports KPrelude "HOL-Library.Multiset"
begin

text \<open>
  Systems of calls that sleep: the shared state and the collection of the calls that are asleep; a step is
  one run of one call, from its start or from a sleep to the next sleep or the end. The locale
  \<open>run_system\<close> takes an invariant from the runs to the system.
\<close>

text \<open>
  The system of all calls on a mechanism. \<open>enter\<close> relates a state to the first runs possible in it,
  \<open>resume\<close> a state and a sleeper to the runs that can follow. A run that touches memory it must not
  touch has no successor.
\<close>

record ('s, 'w) world =
  kern :: 's
  sleepers :: "'w multiset"

definition asleep :: "('w, 'r) outcome \<Rightarrow> 'w multiset" where
  "asleep out = (case out of Sleep w \<Rightarrow> {#w#} | _ \<Rightarrow> {#})"

definition after_run :: "'s \<times> ('w, 'r) outcome \<Rightarrow> 'w multiset \<Rightarrow> ('s, 'w) world" where
  "after_run r W = \<lparr>kern = fst r, sleepers = asleep (snd r) + W\<rparr>"

inductive run_step ::
  "('s \<Rightarrow> 's \<times> ('w, 'r) outcome \<Rightarrow> bool) \<Rightarrow> ('s \<Rightarrow> 'w \<Rightarrow> 's \<times> ('w, 'r) outcome \<Rightarrow> bool) \<Rightarrow>
   ('s, 'w) world \<Rightarrow> ('s, 'w) world \<Rightarrow> bool" for enter resume where
  call_enters: "enter (kern w) r \<Longrightarrow> snd r \<noteq> Fault \<Longrightarrow> run_step enter resume w (after_run r (sleepers w))"
| call_resumes: "sleepers w = add_mset p W \<Longrightarrow> resume (kern w) p r \<Longrightarrow> snd r \<noteq> Fault \<Longrightarrow>
    run_step enter resume w (after_run r W)"

locale run_system =
  fixes enter :: "'s \<Rightarrow> 's \<times> ('w, 'r) outcome \<Rightarrow> bool"
    and resume :: "'s \<Rightarrow> 'w \<Rightarrow> 's \<times> ('w, 'r) outcome \<Rightarrow> bool"
    and inv :: "'s \<Rightarrow> 'w multiset \<Rightarrow> bool"
  assumes enter_keeps: "inv s W \<Longrightarrow> enter s r \<Longrightarrow> snd r \<noteq> Fault \<Longrightarrow> inv (fst r) (asleep (snd r) + W)"
    and resume_keeps: "inv s (add_mset p W) \<Longrightarrow> resume s p r \<Longrightarrow> snd r \<noteq> Fault \<Longrightarrow> inv (fst r) (asleep (snd r) + W)"
begin

lemma reachable_keeps:
  "(run_step enter resume)\<^sup>*\<^sup>* w w' \<Longrightarrow> inv (kern w) (sleepers w) \<Longrightarrow> inv (kern w') (sleepers w')"
proof (induction rule: rtranclp_induct)
  case (step y z)
  then have y: "inv (kern y) (sleepers y)" by simp
  from step(2) show ?case
    by (cases rule: run_step.cases) (use y enter_keeps resume_keeps in \<open>auto simp: after_run_def\<close>)
qed

end

lemma asleep_simps [simp]:
  "asleep (Ret x) = {#}" "asleep (Err e) = {#}" "asleep Fault = {#}" "asleep (Sleep w) = {#w#}"
  by (simp_all add: asleep_def)

end
