(* ===== verification/Ipc_Util.thy ===== *)
theory Ipc_Util
  imports Runs
begin

text \<open>
  ipc/util.c and include/linux/ipc.h: what the System V mechanisms share. Message queues and
  semaphore sets are both kept in a table of pointers with two reserved values, are found by key
  with the same loop, and are named to user programs by an identifier made of the table index and
  a sequence number. The loops are given once, over the table and a function that reads the key of
  an entry; the theories Msg and Sem use them on their own tables.

  The calls of both mechanisms sleep; the theory Runs has the systems of such calls.

  The last section is the specification of the identifiers: a table of sequence numbers in which
  entries come and go, and the locale \<open>ident_table\<close> of everything that behaves like it, with the
  lemma that an identifier that was removed is not handed out again before the sequence number has
  gone all the way round.
\<close>

section \<open>Model\<close>

record ipc_perm =
  key :: int
  uid :: int
  gid :: int
  cuid :: int
  cgid :: int
  mode :: int
  seq :: int

definition IPC_PRIVATE :: int where "IPC_PRIVATE = 0"
definition IPC_CREAT :: int where "IPC_CREAT = 512"
definition IPC_EXCL :: int where "IPC_EXCL = 1024"
definition IPC_NOWAIT :: int where "IPC_NOWAIT = 2048"
definition S_IRWXUGO :: int where "S_IRWXUGO = 511"
definition S_IRUGO :: int where "S_IRUGO = 292"
definition S_IWUGO :: int where "S_IWUGO = 146"

text \<open>A flag test \<open>x & FLAG\<close>.\<close>

definition has_flag :: "int \<Rightarrow> int \<Rightarrow> bool" where
  "has_flag x f \<longleftrightarrow> x AND f \<noteq> 0"

text \<open>\<open>flag\<close> is a \<open>short\<close>; the shifts of a signed operand keep the sign.\<close>

definition ipcperms :: "task \<Rightarrow> ipc_perm \<Rightarrow> int \<Rightarrow> int" where
  "ipcperms cur ipcp flag =
     (if suser cur then 0
      else (let requested_mode = drop_bit 6 flag OR drop_bit 3 flag OR flag;
                granted_mode =
                  (if euid cur = cuid ipcp \<or> euid cur = uid ipcp then drop_bit 6 (mode ipcp)
                   else if in_group_p cur (cgid ipcp) \<or> in_group_p cur (gid ipcp) then drop_bit 3 (mode ipcp)
                   else mode ipcp)
            in if requested_mode AND NOT granted_mode AND 7 \<noteq> 0 then -1 else 0))"

text \<open>The entries of \<open>msgque\<close> and \<open>semary\<close>, and their common length.\<close>

datatype 'a ipc_slot = IPC_UNUSED | IPC_NOID | Ident 'a

definition MNI :: nat where "MNI = 128"

text \<open>
  \<open>findkey\<close>, from index \<open>i\<close> on; \<open>key_at\<close> reads the key of the structure an entry points to. It
  sleeps on an entry that is being set up and goes on with the same index afterwards.
\<close>

function findkey_from :: "('a \<Rightarrow> int option) \<Rightarrow> 'a ipc_slot list \<Rightarrow> nat \<Rightarrow> int \<Rightarrow> nat \<Rightarrow> (nat, nat option) outcome" where
  "findkey_from key_at tab max_id k i =
     (if max_id < i then Ret None
      else (case aget tab (int i) of
              None \<Rightarrow> Fault
            | Some IPC_NOID \<Rightarrow> Sleep i
            | Some IPC_UNUSED \<Rightarrow> findkey_from key_at tab max_id k (Suc i)
            | Some (Ident a) \<Rightarrow>
                (case key_at a of
                   None \<Rightarrow> Fault
                 | Some k' \<Rightarrow> if k = k' then Ret (Some i) else findkey_from key_at tab max_id k (Suc i))))"
  by pat_completeness auto
termination by (relation "measure (\<lambda>(key_at, tab, max_id, k, i). Suc max_id - i)") auto

declare findkey_from.simps [simp del]

text \<open>The search for a free entry.\<close>

fun first_unused :: "'a ipc_slot list \<Rightarrow> nat \<Rightarrow> nat option" where
  "first_unused [] i = None"
| "first_unused (sl # tab) i = (case sl of IPC_UNUSED \<Rightarrow> Some i | _ \<Rightarrow> first_unused tab (Suc i))"

text \<open>\<open>while (max_id && (tab[--max_id] == IPC_UNUSED));\<close>\<close>

fun lower_max :: "'a ipc_slot list \<Rightarrow> nat \<Rightarrow> nat option" where
  "lower_max tab 0 = Some 0"
| "lower_max tab (Suc m) =
     (case aget tab (int m) of
        None \<Rightarrow> None
      | Some IPC_UNUSED \<Rightarrow> lower_max tab m
      | Some _ \<Rightarrow> Some m)"

text \<open>
  \<open>sys_ipc\<close>: which call of which mechanism the multiplexed call is, with its arguments. A pointer
  is a number; the \<open>ipc_kludge\<close> of \<open>MSGRCV\<close> is read from user memory by \<open>kludge\<close>.
\<close>

datatype ipc_call =
    Semop int nat int | Semget int int int | Semctl int int int nat
  | Msgsnd int nat int int | Msgrcv int nat int int int | Msgget int int | Msgctl int int nat
  | Shmat int nat int int | Shmdt nat | Shmget int int int | Shmctl int int nat

definition sys_ipc :: "(nat \<Rightarrow> nat \<times> int) \<Rightarrow> int \<Rightarrow> int \<Rightarrow> int \<Rightarrow> int \<Rightarrow> nat \<Rightarrow> ipc_call option" where
  "sys_ipc kludge call fst_arg snd_arg third ptr =
     (if call \<le> 3
      then if call = 1 then Some (Semop fst_arg ptr snd_arg)
           else if call = 2 then Some (Semget fst_arg snd_arg third)
           else if call = 3 then Some (Semctl fst_arg snd_arg third ptr)
           else None
      else if call \<le> 14
      then if call = 11 then Some (Msgsnd fst_arg ptr snd_arg third)
           else if call = 12
           then (if ptr = 0 then None
                 else (case kludge ptr of (msgp, msgtyp) \<Rightarrow> Some (Msgrcv fst_arg msgp snd_arg msgtyp third)))
           else if call = 13 then Some (Msgget fst_arg snd_arg)
           else if call = 14 then Some (Msgctl fst_arg snd_arg ptr)
           else None
      else if call \<le> 24
      then if call = 21 then Some (Shmat fst_arg ptr snd_arg third)
           else if call = 22 then Some (Shmdt ptr)
           else if call = 23 then Some (Shmget fst_arg snd_arg third)
           else if call = 24 then Some (Shmctl fst_arg snd_arg ptr)
           else None
      else None)"

section \<open>Permissions\<close>

text \<open>The class of a task with respect to an object, and the bits its mode grants to a class.\<close>

datatype ipc_class = Owner | Group | Other

definition ipc_class_of :: "task \<Rightarrow> ipc_perm \<Rightarrow> ipc_class" where
  "ipc_class_of cur p =
     (if euid cur = cuid p \<or> euid cur = uid p then Owner
      else if in_group_p cur (cgid p) \<or> in_group_p cur (gid p) then Group else Other)"

fun class_shift :: "ipc_class \<Rightarrow> nat" where
  "class_shift Owner = 6"
| "class_shift Group = 3"
| "class_shift Other = 0"

lemma and7_zero: "x AND (7 :: int) = 0 \<longleftrightarrow> (\<forall>b < 3. \<not> bit x b)"
proof -
  have "bit (7 :: int) n \<longleftrightarrow> n < 3" for n
    using bit_mask_iff [of 3 n, where 'a = int] by (simp add: mask_eq_exp_minus_1)
  then show ?thesis by (auto simp: bit_eq_iff bit_and_iff)
qed

text \<open>
  C31: \<open>ipcperms\<close> grants access to the superuser, and to another task exactly when every one of the
  three bits that the flags ask for, in any of their three groups, is set in the group of the mode
  that belongs to the task's class.
\<close>

theorem ipcperms_checks_the_class:
  "ipcperms cur p flag = 0 \<longleftrightarrow>
     suser cur \<or> {b. b < 3 \<and> (bit flag b \<or> bit flag (b + 3) \<or> bit flag (b + 6))} \<subseteq>
                   {b. bit (mode p) (b + class_shift (ipc_class_of cur p))}"
proof -
  let ?g = "drop_bit (class_shift (ipc_class_of cur p)) (mode p)"
  have "ipcperms cur p flag = 0 \<longleftrightarrow>
    suser cur \<or> (drop_bit 6 flag OR drop_bit 3 flag OR flag) AND NOT ?g AND 7 = 0"
    by (simp add: ipcperms_def ipc_class_of_def Let_def)
  also have "(drop_bit 6 flag OR drop_bit 3 flag OR flag) AND NOT ?g AND 7 =
      ((drop_bit 6 flag OR drop_bit 3 flag OR flag) AND NOT ?g) AND 7"
    by (simp add: and.assoc)
  also have "\<dots> = 0 \<longleftrightarrow> {b. b < 3 \<and> (bit flag b \<or> bit flag (b + 3) \<or> bit flag (b + 6))} \<subseteq>
      {b. bit (mode p) (b + class_shift (ipc_class_of cur p))}"
    unfolding and7_zero by (simp add: bit_and_iff bit_or_iff bit_not_iff bit_drop_bit_eq add.commute) blast
  finally show ?thesis .
qed

section \<open>The tables\<close>

lemma first_unused_range: "first_unused tab j = Some i \<Longrightarrow> j \<le> i \<and> i < j + length tab \<and> tab ! (i - j) = IPC_UNUSED"
proof (induction tab j rule: first_unused.induct)
  case (2 sl tab j)
  then show ?case by (cases sl) (auto simp: nth_Cons' split: if_splits)
qed simp

lemma first_unused_none: "first_unused tab j = None \<longleftrightarrow> IPC_UNUSED \<notin> set tab"
  by (induction tab j rule: first_unused.induct) (auto split: ipc_slot.split)

lemma lower_max_spec:
  assumes "m \<le> length tab"
  shows "\<exists>n. lower_max tab m = Some n \<and> n \<le> m \<and> (0 < m \<longrightarrow> n < m) \<and> (\<forall>i. n < i \<and> i < m \<longrightarrow> tab ! i = IPC_UNUSED)"
  using assms
proof (induction m)
  case (Suc m)
  then obtain n where n: "lower_max tab m = Some n" "n \<le> m" "\<forall>i. n < i \<and> i < m \<longrightarrow> tab ! i = IPC_UNUSED" by auto
  then show ?case using Suc.prems by (cases "tab ! m") (auto simp: aget_def less_Suc_eq)
qed simp

text \<open>\<open>findkey\<close> finds a used entry with the key at or after its start, or there is none up to the maximum.\<close>

lemma findkey_from_spec:
  assumes "max_id < length tab"
  shows "case findkey_from key_at tab max_id k i of
      Ret (Some j) \<Rightarrow> i \<le> j \<and> j \<le> max_id \<and> (\<exists>a. tab ! j = Ident a \<and> key_at a = Some k)
    | Ret None \<Rightarrow> \<forall>j a. i \<le> j \<and> j \<le> max_id \<and> tab ! j = Ident a \<longrightarrow> key_at a \<noteq> Some k
    | Sleep j \<Rightarrow> i \<le> j \<and> j \<le> max_id \<and> tab ! j = IPC_NOID
    | Fault \<Rightarrow> \<exists>j a. i \<le> j \<and> j \<le> max_id \<and> tab ! j = Ident a \<and> key_at a = None
    | Err e \<Rightarrow> False"
  using assms
proof (induction key_at tab max_id k i rule: findkey_from.induct)
  case (1 key_at tab max_id k i)
  show ?case
  proof (cases "max_id < i")
    case True
    then show ?thesis by (auto simp: findkey_from.simps)
  next
    case False
    with 1(3) have g: "aget tab (int i) = Some (tab ! i)" by (simp add: aget_def)
    note step = findkey_from.simps [of key_at tab max_id k i]
    have shift: "case findkey_from key_at tab max_id k (Suc i) of
        Ret (Some j) \<Rightarrow> i \<le> j \<and> j \<le> max_id \<and> (\<exists>a. tab ! j = Ident a \<and> key_at a = Some k)
      | Ret None \<Rightarrow> \<forall>j a. i \<le> j \<and> j \<le> max_id \<and> tab ! j = Ident a \<longrightarrow> key_at a \<noteq> Some k
      | Sleep j \<Rightarrow> i \<le> j \<and> j \<le> max_id \<and> tab ! j = IPC_NOID
      | Fault \<Rightarrow> \<exists>j a. i \<le> j \<and> j \<le> max_id \<and> tab ! j = Ident a \<and> key_at a = None
      | Err e \<Rightarrow> False"
      if "case findkey_from key_at tab max_id k (Suc i) of
        Ret (Some j) \<Rightarrow> Suc i \<le> j \<and> j \<le> max_id \<and> (\<exists>a. tab ! j = Ident a \<and> key_at a = Some k)
      | Ret None \<Rightarrow> \<forall>j a. Suc i \<le> j \<and> j \<le> max_id \<and> tab ! j = Ident a \<longrightarrow> key_at a \<noteq> Some k
      | Sleep j \<Rightarrow> Suc i \<le> j \<and> j \<le> max_id \<and> tab ! j = IPC_NOID
      | Fault \<Rightarrow> \<exists>j a. Suc i \<le> j \<and> j \<le> max_id \<and> tab ! j = Ident a \<and> key_at a = None
      | Err e \<Rightarrow> False" "\<forall>a. tab ! i = Ident a \<longrightarrow> key_at a \<noteq> Some k"
      using that by (auto simp: le_Suc_eq Suc_le_eq nat_less_le split: outcome.splits option.splits)
    show ?thesis
    proof (cases "tab ! i")
      case IPC_UNUSED
      then show ?thesis using 1(1) [OF False g] 1(3) shift step g False by simp
    next
      case IPC_NOID
      then show ?thesis using step g False by simp
    next
      case (Ident a)
      show ?thesis
      proof (cases "key_at a")
        case None
        then show ?thesis using step g False Ident by auto
      next
        case (Some k')
        then show ?thesis using 1(2) [OF False g Ident Some] 1(3) shift step g False Ident by auto
      qed
    qed
  qed
qed

section \<open>Identifiers\<close>

text \<open>
  The specification: a sequence number, and the number each used entry was given. Entries are made
  with the current sequence number; a removal moves it on. \<open>ids_name\<close> is the meaning of an
  identifier.
\<close>

record id_table =
  next_seq :: int
  entry_seq :: "nat \<Rightarrow> int option"

inductive id_step :: "id_table \<Rightarrow> id_table \<Rightarrow> bool" where
  id_keep: "id_step t t"
| id_create: "entry_seq t i = None \<Longrightarrow> id_step t (t\<lparr>entry_seq := (entry_seq t)(i \<mapsto> next_seq t)\<rparr>)"
| id_remove: "entry_seq t i = Some q \<Longrightarrow>
    id_step t (t\<lparr>next_seq := u16 (next_seq t + 1), entry_seq := (entry_seq t)(i := None)\<rparr>)"

definition ids_name :: "id_table \<Rightarrow> int \<Rightarrow> bool" where
  "ids_name t ident \<longleftrightarrow> 0 \<le> ident \<and> entry_seq t (nat (ident mod 128)) = Some (ident div 128)"

text \<open>Runs, with the number of times the sequence number moves.\<close>

inductive moving :: "('s \<Rightarrow> 's \<Rightarrow> bool) \<Rightarrow> ('s \<Rightarrow> id_table) \<Rightarrow> nat \<Rightarrow> 's \<Rightarrow> 's \<Rightarrow> bool" for step ids where
  moving_refl: "moving step ids 0 s s"
| moving_step: "moving step ids n s t \<Longrightarrow> step t u \<Longrightarrow>
    moving step ids (n + (if next_seq (ids u) = next_seq (ids t) then 0 else 1)) s u"

text \<open>What has become of entry \<open>i\<close>, made with number \<open>q\<close>, after \<open>n\<close> removals: it is still there, or it
  is free or was made anew with a later number.\<close>

definition replaced :: "int \<Rightarrow> nat \<Rightarrow> nat \<Rightarrow> id_table \<Rightarrow> bool" where
  "replaced q i n t \<longleftrightarrow> next_seq t = u16 (q + int n) \<and> 0 < n \<and>
     (\<forall>q'. entry_seq t i = Some q' \<longrightarrow> (\<exists>m. 0 < m \<and> m \<le> n \<and> q' = u16 (q + int m)))"

definition still_there :: "int \<Rightarrow> nat \<Rightarrow> nat \<Rightarrow> id_table \<Rightarrow> bool" where
  "still_there q i n t \<longleftrightarrow> next_seq t = u16 (q + int n) \<and> entry_seq t i = Some q"

lemma u16_shift: "u16 (u16 a + b) = u16 (a + b)"
  by (simp add: u16_def mod_add_left_eq)

lemma u16_move: "u16 (x + 1) = x \<longleftrightarrow> False" if "0 \<le> x" "x < 65536"
proof -
  have "u16 (x + 1) = (if x = 65535 then 0 else x + 1)" using that by (auto simp: u16_def)
  then show ?thesis by auto
qed

lemma replaced_mono: "replaced q i n t \<Longrightarrow> entry_seq t' i = None \<or> entry_seq t' i = entry_seq t i \<Longrightarrow>
    next_seq t' = u16 (q + int (n + d)) \<Longrightarrow> replaced q i (n + d) t'"
  unfolding replaced_def by (metis add_gr_0 le_add1 option.distinct(1) order_trans)

lemma id_step_replaced:
  assumes "id_step t t'" "replaced q i n t"
  shows "replaced q i (n + (if next_seq t' = next_seq t then 0 else 1)) t'"
  using assms
proof (cases rule: id_step.cases)
  case (id_create j)
  then show ?thesis using assms(2) by (auto simp: replaced_def)
next
  case (id_remove j q')
  have "next_seq t = u16 (q + int n)" using assms(2) by (simp add: replaced_def)
  then have "next_seq t' = u16 (q + int (n + 1))" "next_seq t' \<noteq> next_seq t"
    using u16_move [of "next_seq t"] u16_shift [of "q + int n" 1] id_remove by (auto simp: algebra_simps)
  then show ?thesis using replaced_mono [OF assms(2), of t' 1] id_remove by simp
qed (simp add: replaced_def)

lemma id_step_still_there:
  assumes "id_step t t'" "still_there q i n t"
  shows "still_there q i (n + (if next_seq t' = next_seq t then 0 else 1)) t' \<or>
    replaced q i (n + (if next_seq t' = next_seq t then 0 else 1)) t'"
  using assms
proof (cases rule: id_step.cases)
  case (id_create j)
  then show ?thesis using assms(2) by (auto simp: still_there_def)
next
  case (id_remove j q')
  have "next_seq t = u16 (q + int n)" using assms(2) by (simp add: still_there_def)
  then have "next_seq t' = u16 (q + int (n + 1))" "next_seq t' \<noteq> next_seq t"
    using u16_move [of "next_seq t"] u16_shift [of "q + int n" 1] id_remove by (auto simp: algebra_simps)
  then show ?thesis using assms(2) id_remove by (cases "i = j") (auto simp: still_there_def replaced_def)
qed (simp add: still_there_def)

lemma replaced_not_named:
  assumes "replaced q (nat (ident mod 128)) n t" "n < 65536" "ident div 128 = q" "0 \<le> q" "q < 65536"
  shows "\<not> ids_name t ident"
proof
  assume "ids_name t ident"
  then obtain m where m: "0 < m" "m \<le> n" "q = u16 (q + int m)"
    using assms unfolding ids_name_def replaced_def by auto
  then have "(q + int m) mod 65536 = q mod 65536" using assms(4,5) by (simp add: u16_def)
  then have "65536 dvd int m" by (simp add: mod_eq_dvd_iff)
  then show False using m(1,2) assms(2) by (auto dest: zdvd_imp_le)
qed

text \<open>
  Everything whose steps are steps of the specification, seen through \<open>ids\<close>.
\<close>

locale ident_table =
  fixes step :: "'s \<Rightarrow> 's \<Rightarrow> bool" and ids :: "'s \<Rightarrow> id_table"
  assumes refines: "step s s' \<Longrightarrow> id_step (ids s) (ids s')"
begin

lemma moving_replaced:
  "moving step ids n s t \<Longrightarrow> replaced q i k (ids s) \<Longrightarrow> replaced q i (k + n) (ids t)"
proof (induction rule: moving.induct)
  case (moving_step n s t u)
  then show ?case using id_step_replaced [OF refines [OF moving_step(2)], of q i "k + n"] by (simp only: add.assoc)
qed simp

lemma moving_still_there:
  "moving step ids n s t \<Longrightarrow> still_there q i 0 (ids s) \<Longrightarrow> still_there q i n (ids t) \<or> replaced q i n (ids t)"
proof (induction rule: moving.induct)
  case (moving_step n s t u)
  then show ?case
    using id_step_replaced [OF refines [OF moving_step(2)]] id_step_still_there [OF refines [OF moving_step(2)]] by blast
qed simp

lemma stale_identifier:
  assumes new: "ids_name (ids s) ident" "ident div 128 = next_seq (ids s)" "next_seq (ids s) < 65536"
    and gone: "moving step ids n s t" "\<not> ids_name (ids t) ident"
    and later: "moving step ids m t u" "n + m < 65536"
  shows "\<not> ids_name (ids u) ident"
proof -
  let ?q = "ident div 128" and ?i = "nat (ident mod 128)"
  have q: "0 \<le> ?q" "?q < 65536" using new by (auto simp: ids_name_def)
  have "still_there ?q ?i 0 (ids s)" using new q by (simp add: still_there_def ids_name_def u16_id)
  from moving_still_there [OF gone(1) this] gone(2) new(1) have "replaced ?q ?i n (ids t)"
    by (auto simp: still_there_def ids_name_def)
  from moving_replaced [OF later(1) this] show ?thesis
    using replaced_not_named [of ?q ident "n + m" "ids u"] later(2) q by simp
qed

end

end
