(* ===== verification/Msg.thy ===== *)
theory Msg
  imports Ipc_Util "HOL-Library.Monad_Syntax"
begin

text \<open>
  ipc/msg.c: message queues.

  The queues and the messages live in two heaps; \<open>msg_first\<close>, \<open>msg_last\<close> and \<open>msg_next\<close> are pointers
  as in the source, so that sending and receiving are the source's stores. Freeing removes the
  address from its heap, and following a pointer to a freed address is \<open>Fault\<close>. A wait queue is
  the number of tasks in it.

  A system call is given as runs between the points where it may sleep. \<open>msg_wait\<close> names these
  points with what the call keeps in its local variables: the two wait queues of a message queue,
  the wait for an entry that is being set up, the two calls of \<open>kmalloc\<close>, and the wait of \<open>freeque\<close>
  for the sleepers to go away. The answer of \<open>kmalloc\<close>, the time and the contents of user memory
  are arguments.
\<close>

section \<open>Data\<close>

type_synonym qaddr = nat
type_synonym maddr = nat

record msg =
  msg_next :: "maddr option"
  msg_type :: int
  msg_spot :: "8 word list"
  msg_ts :: int

type_synonym mheap = "maddr \<Rightarrow> msg option"

record msqid_ds =
  msg_perm :: ipc_perm
  msg_first :: "maddr option"
  msg_last :: "maddr option"
  msg_stime :: int
  msg_rtime :: int
  msg_ctime :: int
  wwait :: nat
  rwait :: nat
  msg_cbytes :: int
  msg_qnum :: int
  msg_qbytes :: int
  msg_lspid :: int
  msg_lrpid :: int

record msginfo =
  msgpool :: int
  msgmap :: int
  msgmax :: int
  msgmnb :: int
  msgmni :: int
  msgssz :: int
  msgtql :: int
  msgseg :: int

text \<open>The variables of the file.\<close>

record msg_sys =
  msgque :: "qaddr ipc_slot list"
  queues :: "qaddr \<Rightarrow> msqid_ds option"
  msgs :: mheap
  msgbytes :: int
  msghdrs :: int
  msg_seq :: int
  used_queues :: int
  max_msqid :: nat

definition MSGMAX :: int where "MSGMAX = 4056"
definition MSGMNB :: int where "MSGMNB = 16384"
definition MSG_NOERROR :: int where "MSG_NOERROR = 4096"
definition MSG_EXCEPT :: int where "MSG_EXCEPT = 8192"

definition msg_init :: "msg_sys \<Rightarrow> msg_sys" where
  "msg_init s = s\<lparr>msgque := replicate MNI IPC_UNUSED, msgbytes := 0, msghdrs := 0, msg_seq := 0,
     max_msqid := 0, used_queues := 0\<rparr>"

text \<open>User memory: a message buffer with the answer of \<open>verify_area\<close> for it, and the part of a user's
  \<open>msqid_ds\<close> that \<open>IPC_SET\<close> reads.\<close>

record user_msgbuf =
  um_verify :: "errno option"
  um_type :: int
  um_text :: "8 word list"

record user_msqid =
  uq_verify :: "errno option"
  uq_uid :: int
  uq_gid :: int
  uq_mode :: int
  uq_qbytes :: int

text \<open>Calls in progress.\<close>

record snd_call =
  sn_msqid :: int
  sn_msq :: qaddr
  sn_sz :: int
  sn_type :: int
  sn_text :: "8 word list"
  sn_flg :: int

record rcv_call =
  rc_msqid :: int
  rc_msq :: qaddr
  rc_sz :: int
  rc_typ :: int
  rc_flg :: int

record get_call =
  gt_key :: int
  gt_flg :: int

datatype msg_wait =
    SndWait snd_call | SndAlloc snd_call | RcvWait rcv_call
  | FindKey get_call nat | NewAlloc get_call nat | Freeing qaddr

datatype msg_ret =
    Sent int | Received int int "8 word list" | Got int | Info msginfo int | Stat msqid_ds int | Zero

type_synonym msg_run = "msg_sys \<times> (msg_wait, msg_ret) outcome"

section \<open>Sending\<close>

definition slot_of :: "msg_sys \<Rightarrow> int \<Rightarrow> qaddr ipc_slot option" where
  "slot_of s msqid = aget (msgque s) (msqid mod 128)"

definition put_queue :: "qaddr \<Rightarrow> msqid_ds \<Rightarrow> msg_sys \<Rightarrow> msg_sys" where
  "put_queue q msq s = s\<lparr>queues := (queues s)(q \<mapsto> msq)\<rparr>"

text \<open>From the label \<open>slept\<close> to the call of \<open>kmalloc\<close>.\<close>

definition msgsnd_slept :: "task \<Rightarrow> msg_sys \<Rightarrow> snd_call \<Rightarrow> msg_run" where
  "msgsnd_slept cur s c =
     (case queues s (sn_msq c) of
        None \<Rightarrow> (s, Fault)
      | Some msq \<Rightarrow>
          if seq (msg_perm msq) \<noteq> sn_msqid c div 128 then (s, Err EIDRM)
          else if ipcperms cur (msg_perm msq) S_IWUGO \<noteq> 0 then (s, Err EACCES)
          else if sn_sz c + msg_cbytes msq > msg_qbytes msq
          then if has_flag (sn_flg c) IPC_NOWAIT then (s, Err EAGAIN)
               else if signal_pending cur then (s, Err EINTR)
               else (put_queue (sn_msq c) (msq\<lparr>wwait := wwait msq + 1\<rparr>) s, Sleep (SndWait c))
          else (s, Sleep (SndAlloc c)))"

text \<open>The message goes to the end of the queue.\<close>

definition append_msg :: "mheap \<Rightarrow> msqid_ds \<Rightarrow> maddr \<Rightarrow> (mheap \<times> msqid_ds) option" where
  "append_msg h msq a =
     (if msg_first msq = None then Some (h, msq\<lparr>msg_first := Some a, msg_last := Some a\<rparr>)
      else do { l \<leftarrow> msg_last msq; m \<leftarrow> h l;
                Some (h(l \<mapsto> m\<lparr>msg_next := Some a\<rparr>), msq\<lparr>msg_last := Some a\<rparr>) })"

definition msgsnd_store :: "task \<Rightarrow> int \<Rightarrow> msg_sys \<Rightarrow> snd_call \<Rightarrow> msqid_ds \<Rightarrow> maddr \<Rightarrow> msg_run" where
  "msgsnd_store cur now s c msq a =
     (let m = \<lparr>msg_next = None, msg_type = sn_type c, msg_spot = take (nat (sn_sz c)) (sn_text c), msg_ts = s16 (sn_sz c)\<rparr>
      in case append_msg ((msgs s)(a \<mapsto> m)) msq a of
           None \<Rightarrow> (s, Fault)
         | Some (h, msq) \<Rightarrow>
             (put_queue (sn_msq c)
                (msq\<lparr>msg_cbytes := u16 (msg_cbytes msq + sn_sz c), msg_qnum := u16 (msg_qnum msq + 1),
                     msg_lspid := u16 (pid cur), msg_stime := now\<rparr>)
                (s\<lparr>msgs := h, msgbytes := s32 (msgbytes s + sn_sz c), msghdrs := s32 (msghdrs s + 1)\<rparr>),
              Ret (Sent (sn_sz c))))"

text \<open>From the call of \<open>kmalloc\<close> on.\<close>

definition msgsnd_alloc :: "task \<Rightarrow> int \<Rightarrow> msg_sys \<Rightarrow> snd_call \<Rightarrow> maddr option \<Rightarrow> msg_run" where
  "msgsnd_alloc cur now s c msgh =
     (case msgh of
        None \<Rightarrow> (s, Err ENOMEM)
      | Some a \<Rightarrow>
          (case slot_of s (sn_msqid c) of
             Some (Ident _) \<Rightarrow>
               (case queues s (sn_msq c) of
                  None \<Rightarrow> (s, Fault)
                | Some msq \<Rightarrow>
                    if seq (msg_perm msq) \<noteq> sn_msqid c div 128 then (s, Err EIDRM)
                    else msgsnd_store cur now s c msq a)
           | Some _ \<Rightarrow> (s, Err EIDRM)
           | None \<Rightarrow> (s, Fault)))"

definition sys_msgsnd :: "task \<Rightarrow> msg_sys \<Rightarrow> int \<Rightarrow> user_msgbuf option \<Rightarrow> int \<Rightarrow> int \<Rightarrow> msg_run" where
  "sys_msgsnd cur s msqid msgp msgsz msgflg =
     (if msgsz > MSGMAX \<or> msgsz < 0 \<or> msqid < 0 then (s, Err EINVAL)
      else (case msgp of
              None \<Rightarrow> (s, Err EFAULT)
            | Some u \<Rightarrow>
                (case um_verify u of
                   Some err \<Rightarrow> (s, Err err)
                 | None \<Rightarrow>
                     if um_type u < 1 then (s, Err EINVAL)
                     else (case slot_of s msqid of
                             None \<Rightarrow> (s, Fault)
                           | Some (Ident q) \<Rightarrow>
                               msgsnd_slept cur s \<lparr>sn_msqid = msqid, sn_msq = q, sn_sz = msgsz, sn_type = um_type u,
                                 sn_text = um_text u, sn_flg = msgflg\<rparr>
                           | Some _ \<Rightarrow> (s, Err EINVAL)))))"

section \<open>Receiving\<close>

text \<open>The loops over the messages of a queue.\<close>

partial_function (option) first_msg :: "(msg \<Rightarrow> bool) \<Rightarrow> mheap \<Rightarrow> maddr option \<Rightarrow> maddr option option" where
  "first_msg P h p =
     (case p of
        None \<Rightarrow> Some None
      | Some a \<Rightarrow> Option.bind (h a) (\<lambda>m. if P m then Some (Some a) else first_msg P h (msg_next m)))"

partial_function (option) least_msg :: "mheap \<Rightarrow> maddr option \<Rightarrow> maddr option \<Rightarrow> maddr option option" where
  "least_msg h leastp p =
     (case p of
        None \<Rightarrow> Some leastp
      | Some a \<Rightarrow>
          Option.bind (h a) (\<lambda>m. Option.bind (Option.bind leastp h) (\<lambda>l.
            least_msg h (if msg_type m < msg_type l then Some a else leastp) (msg_next m))))"

definition find_msg :: "mheap \<Rightarrow> msqid_ds \<Rightarrow> int \<Rightarrow> int \<Rightarrow> maddr option option" where
  "find_msg h msq msgtyp msgflg =
     (if msgtyp = 0 then Some (msg_first msq)
      else if msgtyp > 0
      then if has_flag msgflg MSG_EXCEPT then first_msg (\<lambda>m. msg_type m \<noteq> msgtyp) h (msg_first msq)
           else first_msg (\<lambda>m. msg_type m = msgtyp) h (msg_first msq)
      else do { leastp \<leftarrow> least_msg h (msg_first msq) (msg_first msq);
                (case leastp of
                   None \<Rightarrow> Some None
                 | Some a \<Rightarrow> do { l \<leftarrow> h a; Some (if msg_type l \<le> s32 (- msgtyp) then Some a else None) }) })"

definition unlink_msg :: "mheap \<Rightarrow> msqid_ds \<Rightarrow> maddr \<Rightarrow> (mheap \<times> msqid_ds) option" where
  "unlink_msg h msq nmsg = do {
     nm \<leftarrow> h nmsg;
     (h, msq) \<leftarrow>
       (if Some nmsg = msg_first msq then Some (h, msq\<lparr>msg_first := msg_next nm\<rparr>)
        else do { tmsg \<leftarrow> first_msg (\<lambda>m. msg_next m = Some nmsg) h (msg_first msq);
                  t \<leftarrow> tmsg; tm \<leftarrow> h t;
                  Some (h(t \<mapsto> tm\<lparr>msg_next := msg_next nm\<rparr>),
                        if Some nmsg = msg_last msq then msq\<lparr>msg_last := Some t\<rparr> else msq) });
     let msq = msq\<lparr>msg_qnum := u16 (msg_qnum msq - 1)\<rparr>;
     Some (h, if msg_qnum msq = 0 then msq\<lparr>msg_last := None, msg_first := None\<rparr> else msq) }"

definition msgrcv_take :: "task \<Rightarrow> int \<Rightarrow> msg_sys \<Rightarrow> rcv_call \<Rightarrow> msqid_ds \<Rightarrow> maddr \<Rightarrow> msg_run" where
  "msgrcv_take cur now s c msq nmsg =
     (case msgs s nmsg of
        None \<Rightarrow> (s, Fault)
      | Some nm \<Rightarrow>
          if rc_sz c < msg_ts nm \<and> \<not> has_flag (rc_flg c) MSG_NOERROR then (s, Err E2BIG)
          else (let msgsz = (if rc_sz c > msg_ts nm then msg_ts nm else rc_sz c)
                in case unlink_msg (msgs s) msq nmsg of
                     None \<Rightarrow> (s, Fault)
                   | Some (h, msq) \<Rightarrow>
                       (put_queue (rc_msq c)
                          (msq\<lparr>msg_rtime := now, msg_lrpid := u16 (pid cur), msg_cbytes := u16 (msg_cbytes msq - msg_ts nm)\<rparr>)
                          (s\<lparr>msgs := h(nmsg := None), msgbytes := s32 (msgbytes s - msg_ts nm), msghdrs := s32 (msghdrs s - 1)\<rparr>),
                        Ret (Received msgsz (msg_type nm) (take (nat msgsz) (msg_spot nm))))))"

text \<open>One round of \<open>while (!nmsg)\<close>.\<close>

definition msgrcv_round :: "task \<Rightarrow> int \<Rightarrow> msg_sys \<Rightarrow> rcv_call \<Rightarrow> msg_run" where
  "msgrcv_round cur now s c =
     (case queues s (rc_msq c) of
        None \<Rightarrow> (s, Fault)
      | Some msq \<Rightarrow>
          if seq (msg_perm msq) \<noteq> rc_msqid c div 128 then (s, Err EIDRM)
          else if ipcperms cur (msg_perm msq) S_IRUGO \<noteq> 0 then (s, Err EACCES)
          else (case find_msg (msgs s) msq (rc_typ c) (rc_flg c) of
                  None \<Rightarrow> (s, Fault)
                | Some (Some nmsg) \<Rightarrow> msgrcv_take cur now s c msq nmsg
                | Some None \<Rightarrow>
                    if has_flag (rc_flg c) IPC_NOWAIT then (s, Err ENOMSG)
                    else if signal_pending cur then (s, Err EINTR)
                    else (put_queue (rc_msq c) (msq\<lparr>rwait := rwait msq + 1\<rparr>) s, Sleep (RcvWait c))))"

text \<open>\<open>msgp\<close> is NULL, or comes with the answer of \<open>verify_area\<close>.\<close>

definition sys_msgrcv ::
  "task \<Rightarrow> int \<Rightarrow> msg_sys \<Rightarrow> int \<Rightarrow> errno option option \<Rightarrow> int \<Rightarrow> int \<Rightarrow> int \<Rightarrow> msg_run" where
  "sys_msgrcv cur now s msqid msgp msgsz msgtyp msgflg =
     (if msqid < 0 \<or> msgsz < 0 then (s, Err EINVAL)
      else (case msgp of
              None \<Rightarrow> (s, Err EFAULT)
            | Some (Some err) \<Rightarrow> (s, Err err)
            | Some None \<Rightarrow>
                (case slot_of s msqid of
                   None \<Rightarrow> (s, Fault)
                 | Some (Ident q) \<Rightarrow>
                     msgrcv_round cur now s \<lparr>rc_msqid = msqid, rc_msq = q, rc_sz = msgsz, rc_typ = msgtyp, rc_flg = msgflg\<rparr>
                 | Some _ \<Rightarrow> (s, Err EINVAL))))"

section \<open>Creating\<close>

definition key_at :: "msg_sys \<Rightarrow> qaddr \<Rightarrow> int option" where
  "key_at s q = map_option (\<lambda>msq. key (msg_perm msq)) (queues s q)"

definition findkey :: "msg_sys \<Rightarrow> int \<Rightarrow> nat \<Rightarrow> (nat, nat option) outcome" where
  "findkey s k i = findkey_from (key_at s) (msgque s) (max_msqid s) k i"

definition newque :: "msg_sys \<Rightarrow> get_call \<Rightarrow> msg_run" where
  "newque s c =
     (case first_unused (msgque s) 0 of
        None \<Rightarrow> (s, Err ENOSPC)
      | Some i \<Rightarrow> (s\<lparr>msgque := (msgque s)[i := IPC_NOID]\<rparr>, Sleep (NewAlloc c i)))"

definition new_msqid :: "task \<Rightarrow> int \<Rightarrow> msg_sys \<Rightarrow> get_call \<Rightarrow> msqid_ds" where
  "new_msqid cur now s c =
     \<lparr>msg_perm = \<lparr>key = gt_key c, uid = euid cur, gid = egid cur, cuid = euid cur, cgid = egid cur,
        mode = gt_flg c AND S_IRWXUGO, seq = msg_seq s\<rparr>,
      msg_first = None, msg_last = None, msg_stime = 0, msg_rtime = 0, msg_ctime = now, wwait = 0, rwait = 0,
      msg_cbytes = 0, msg_qnum = 0, msg_qbytes = MSGMNB, msg_lspid = 0, msg_lrpid = 0\<rparr>"

definition newque_alloc :: "task \<Rightarrow> int \<Rightarrow> msg_sys \<Rightarrow> get_call \<Rightarrow> nat \<Rightarrow> qaddr option \<Rightarrow> msg_run" where
  "newque_alloc cur now s c i msq =
     (case msq of
        None \<Rightarrow> (s\<lparr>msgque := (msgque s)[i := IPC_UNUSED]\<rparr>, Err ENOMEM)
      | Some q \<Rightarrow>
          (put_queue q (new_msqid cur now s c)
             (s\<lparr>max_msqid := (if i > max_msqid s then i else max_msqid s),
                msgque := (msgque s)[i := Ident q], used_queues := s32 (used_queues s + 1)\<rparr>),
           Ret (Got (msg_seq s * 128 + int i))))"

definition msgget_found :: "task \<Rightarrow> msg_sys \<Rightarrow> get_call \<Rightarrow> nat \<Rightarrow> msg_run" where
  "msgget_found cur s c i =
     (if has_flag (gt_flg c) IPC_CREAT \<and> has_flag (gt_flg c) IPC_EXCL then (s, Err EEXIST)
      else (case aget (msgque s) (int i) of
              None \<Rightarrow> (s, Fault)
            | Some (Ident q) \<Rightarrow>
                (case queues s q of
                   None \<Rightarrow> (s, Fault)
                 | Some msq \<Rightarrow>
                     if ipcperms cur (msg_perm msq) (s16 (gt_flg c)) \<noteq> 0 then (s, Err EACCES)
                     else (s, Ret (Got (seq (msg_perm msq) * 128 + int i))))
            | Some _ \<Rightarrow> (s, Err EIDRM)))"

definition msgget_find :: "task \<Rightarrow> msg_sys \<Rightarrow> get_call \<Rightarrow> nat \<Rightarrow> msg_run" where
  "msgget_find cur s c i =
     (case findkey s (gt_key c) i of
        Sleep j \<Rightarrow> (s, Sleep (FindKey c j))
      | Ret None \<Rightarrow> if \<not> has_flag (gt_flg c) IPC_CREAT then (s, Err ENOENT) else newque s c
      | Ret (Some j) \<Rightarrow> msgget_found cur s c j
      | Err e \<Rightarrow> (s, Err e)
      | Fault \<Rightarrow> (s, Fault))"

definition sys_msgget :: "task \<Rightarrow> msg_sys \<Rightarrow> int \<Rightarrow> int \<Rightarrow> msg_run" where
  "sys_msgget cur s k msgflg =
     (if k = IPC_PRIVATE then newque s \<lparr>gt_key = k, gt_flg = msgflg\<rparr>
      else msgget_find cur s \<lparr>gt_key = k, gt_flg = msgflg\<rparr> 0)"

section \<open>Removing and the other controls\<close>

partial_function (option) free_msgs :: "mheap \<Rightarrow> int \<Rightarrow> maddr option \<Rightarrow> (mheap \<times> int) option" where
  "free_msgs h hdrs p =
     (case p of
        None \<Rightarrow> Some (h, hdrs)
      | Some a \<Rightarrow> Option.bind (h a) (\<lambda>m. free_msgs (h(a := None)) (s32 (hdrs - 1)) (msg_next m)))"

lemma msg_loops_code [code]:
  "first_msg P h None = Some None"
  "first_msg P h (Some a) = Option.bind (h a) (\<lambda>m. if P m then Some (Some a) else first_msg P h (msg_next m))"
  "least_msg h leastp None = Some leastp"
  "least_msg h leastp (Some a) = Option.bind (h a) (\<lambda>m. Option.bind (Option.bind leastp h) (\<lambda>l.
     least_msg h (if msg_type m < msg_type l then Some a else leastp) (msg_next m)))"
  "free_msgs h hdrs None = Some (h, hdrs)"
  "free_msgs h hdrs (Some a) = Option.bind (h a) (\<lambda>m. free_msgs (h(a := None)) (s32 (hdrs - 1)) (msg_next m))"
  by (subst first_msg.simps least_msg.simps free_msgs.simps; simp)+

text \<open>\<open>freeque\<close> from the loop that waits for the sleepers on.\<close>

definition freeque_wait :: "msg_sys \<Rightarrow> qaddr \<Rightarrow> msg_run" where
  "freeque_wait s q =
     (case queues s q of
        None \<Rightarrow> (s, Fault)
      | Some msq \<Rightarrow>
          if rwait msq \<noteq> 0 \<or> wwait msq \<noteq> 0 then (s, Sleep (Freeing q))
          else (case free_msgs (msgs s) (msghdrs s) (msg_first msq) of
                  None \<Rightarrow> (s, Fault)
                | Some (h, hdrs) \<Rightarrow> (s\<lparr>msgs := h, msghdrs := hdrs, queues := (queues s)(q := None)\<rparr>, Ret Zero)))"

definition freeque :: "msg_sys \<Rightarrow> nat \<Rightarrow> msg_run" where
  "freeque s i =
     (case aget (msgque s) (int i) of
        Some (Ident q) \<Rightarrow>
          (case (queues s q, if i = max_msqid s then lower_max (msgque s) (max_msqid s) else Some (max_msqid s)) of
             (Some msq, Some max') \<Rightarrow>
               freeque_wait
                 (put_queue q (msq\<lparr>msg_perm := (msg_perm msq)\<lparr>seq := u16 (seq (msg_perm msq) + 1)\<rparr>\<rparr>)
                    (s\<lparr>msg_seq := u16 (msg_seq s + 1), msgbytes := s32 (msgbytes s - msg_cbytes msq), max_msqid := max',
                       msgque := (msgque s)[i := IPC_UNUSED], used_queues := s32 (used_queues s - 1)\<rparr>)) q
           | _ \<Rightarrow> (s, Fault))
      | _ \<Rightarrow> (s, Fault))"

definition msginfo_of :: "msg_sys \<Rightarrow> bool \<Rightarrow> msginfo" where
  "msginfo_of s in_use =
     (let i = \<lparr>msgpool = 2048, msgmap = MSGMNB, msgmax = MSGMAX, msgmnb = MSGMNB, msgmni = 128, msgssz = 16,
               msgtql = MSGMNB, msgseg = 65535\<rparr>
      in if in_use then i\<lparr>msgpool := used_queues s, msgmap := msghdrs s, msgtql := msgbytes s\<rparr> else i)"

definition set_perm :: "ipc_perm \<Rightarrow> int \<Rightarrow> int \<Rightarrow> int \<Rightarrow> ipc_perm" where
  "set_perm p u g m = p\<lparr>uid := u, gid := g, mode := (mode p AND NOT S_IRWXUGO) OR (S_IRWXUGO AND m)\<rparr>"

text \<open>The second half of \<open>sys_msgctl\<close>, on a queue that is there.\<close>

definition msgctl_queue :: "task \<Rightarrow> int \<Rightarrow> msg_sys \<Rightarrow> int \<Rightarrow> int \<Rightarrow> user_msqid option \<Rightarrow> msg_run" where
  "msgctl_queue cur now s msqid cmd buf =
     (case slot_of s msqid of
        None \<Rightarrow> (s, Fault)
      | Some (Ident q) \<Rightarrow>
          (case queues s q of
             None \<Rightarrow> (s, Fault)
           | Some msq \<Rightarrow>
               let ipcp = msg_perm msq in
               if seq ipcp \<noteq> msqid div 128 then (s, Err EIDRM)
               else if cmd = 2
               then (if ipcperms cur ipcp S_IRUGO \<noteq> 0 then (s, Err EACCES) else (s, Ret (Stat msq 0)))
               else if cmd = 0 \<or> cmd = 1
               then if \<not> suser cur \<and> euid cur \<noteq> cuid ipcp \<and> euid cur \<noteq> uid ipcp then (s, Err EPERM)
                    else if cmd = 0 then freeque s (nat (msqid mod 128))
                    else (case buf of
                            None \<Rightarrow> (s, Fault)
                          | Some u \<Rightarrow>
                              if uq_qbytes u > MSGMNB \<and> \<not> suser cur then (s, Err EPERM)
                              else (put_queue q (msq\<lparr>msg_qbytes := uq_qbytes u,
                                      msg_perm := set_perm ipcp (uq_uid u) (uq_gid u) (uq_mode u), msg_ctime := now\<rparr>) s,
                                    Ret Zero))
               else (s, Err EINVAL))
      | Some _ \<Rightarrow> (s, Err EINVAL))"

definition sys_msgctl :: "task \<Rightarrow> int \<Rightarrow> msg_sys \<Rightarrow> int \<Rightarrow> int \<Rightarrow> user_msqid option \<Rightarrow> msg_run" where
  "sys_msgctl cur now s msqid cmd buf =
     (if msqid < 0 \<or> cmd < 0 then (s, Err EINVAL)
      else if cmd = 3 \<or> cmd = 12
      then (case buf of
              None \<Rightarrow> (s, Err EFAULT)
            | Some u \<Rightarrow>
                (case uq_verify u of
                   Some err \<Rightarrow> (s, Err err)
                 | None \<Rightarrow> (s, Ret (Info (msginfo_of s (cmd = 12)) (int (max_msqid s))))))
      else if cmd = 11
      then (case buf of
              None \<Rightarrow> (s, Err EFAULT)
            | Some u \<Rightarrow>
                (case uq_verify u of
                   Some err \<Rightarrow> (s, Err err)
                 | None \<Rightarrow>
                     if msqid > int (max_msqid s) then (s, Err EINVAL)
                     else (case aget (msgque s) msqid of
                             None \<Rightarrow> (s, Fault)
                           | Some (Ident q) \<Rightarrow>
                               (case queues s q of
                                  None \<Rightarrow> (s, Fault)
                                | Some msq \<Rightarrow>
                                    if ipcperms cur (msg_perm msq) S_IRUGO \<noteq> 0 then (s, Err EACCES)
                                    else (s, Ret (Stat msq (msqid + seq (msg_perm msq) * 128))))
                           | Some _ \<Rightarrow> (s, Err EINVAL))))
      else if cmd = 1
      then (if buf = None then (s, Err EFAULT) else msgctl_queue cur now s msqid cmd buf)
      else if cmd = 2
      then (case buf of
              None \<Rightarrow> (s, Err EFAULT)
            | Some u \<Rightarrow>
                (case uq_verify u of
                   Some err \<Rightarrow> (s, Err err)
                 | None \<Rightarrow> msgctl_queue cur now s msqid cmd buf))
      else msgctl_queue cur now s msqid cmd buf)"

section \<open>All calls together\<close>

text \<open>
  The run after a sleep. A task that was in a wait queue first takes itself off it
  (\<open>remove_wait_queue\<close>), which writes to the message queue.
\<close>

definition leave :: "(msqid_ds \<Rightarrow> msqid_ds) \<Rightarrow> qaddr \<Rightarrow> msg_sys \<Rightarrow> msg_sys option" where
  "leave f q s = map_option (\<lambda>msq. put_queue q (f msq) s) (queues s q)"

fun msg_resume :: "task \<Rightarrow> int \<Rightarrow> nat option \<Rightarrow> msg_sys \<Rightarrow> msg_wait \<Rightarrow> msg_run" where
  "msg_resume cur now mem s (SndWait c) =
     (case leave (\<lambda>q. q\<lparr>wwait := wwait q - 1\<rparr>) (sn_msq c) s of
        None \<Rightarrow> (s, Fault) | Some s \<Rightarrow> msgsnd_slept cur s c)"
| "msg_resume cur now mem s (SndAlloc c) = msgsnd_alloc cur now s c mem"
| "msg_resume cur now mem s (RcvWait c) =
     (case leave (\<lambda>q. q\<lparr>rwait := rwait q - 1\<rparr>) (rc_msq c) s of
        None \<Rightarrow> (s, Fault) | Some s \<Rightarrow> msgrcv_round cur now s c)"
| "msg_resume cur now mem s (FindKey c i) = msgget_find cur s c i"
| "msg_resume cur now mem s (NewAlloc c i) = newque_alloc cur now s c i mem"
| "msg_resume cur now mem s (Freeing q) = freeque_wait s q"

datatype msg_call =
    CSnd int "user_msgbuf option" int int | CRcv int "errno option option" int int int
  | CGet int int | CCtl int int "user_msqid option"

fun msg_enter :: "task \<Rightarrow> int \<Rightarrow> msg_sys \<Rightarrow> msg_call \<Rightarrow> msg_run" where
  "msg_enter cur now s (CSnd msqid msgp sz flg) = sys_msgsnd cur s msqid msgp sz flg"
| "msg_enter cur now s (CRcv msqid msgp sz typ flg) = sys_msgrcv cur now s msqid msgp sz typ flg"
| "msg_enter cur now s (CGet k flg) = sys_msgget cur s k flg"
| "msg_enter cur now s (CCtl msqid cmd buf) = sys_msgctl cur now s msqid cmd buf"

text \<open>
  The runs of the system. \<open>kmalloc\<close> gives an address not in use. No queue gets so many messages that
  its \<open>ushort\<close> count wraps around.
\<close>

definition fresh_mem :: "msg_sys \<Rightarrow> nat option \<Rightarrow> bool" where
  "fresh_mem s mem \<longleftrightarrow> (case mem of None \<Rightarrow> True | Some a \<Rightarrow> queues s a = None \<and> msgs s a = None)"

definition count_room :: "msg_sys \<Rightarrow> msg_wait \<Rightarrow> bool" where
  "count_room s p \<longleftrightarrow>
     (case p of
        SndAlloc c \<Rightarrow> (case queues s (sn_msq c) of None \<Rightarrow> True | Some msq \<Rightarrow> msg_qnum msq < 65535)
      | _ \<Rightarrow> True)"

definition msg_enters :: "msg_sys \<Rightarrow> msg_run \<Rightarrow> bool" where
  "msg_enters s r \<longleftrightarrow> (\<exists>cur now c. r = msg_enter cur now s c)"

definition msg_resumes :: "msg_sys \<Rightarrow> msg_wait \<Rightarrow> msg_run \<Rightarrow> bool" where
  "msg_resumes s p r \<longleftrightarrow>
     (\<exists>cur now mem. fresh_mem s mem \<and> count_room s p \<and> r = msg_resume cur now mem s p)"

abbreviation msg_step :: "(msg_sys, msg_wait) world \<Rightarrow> (msg_sys, msg_wait) world \<Rightarrow> bool" where
  "msg_step \<equiv> run_step msg_enters msg_resumes"

end
