(* ===== verification/Msg_Queue.thy ===== *)
theory Msg_Queue
  imports Msg
begin

text \<open>
  The list of messages of a queue, and what the pointer operations of Msg.thy do to it.

  \<open>seg h p xs q\<close>: following \<open>msg_next\<close> from \<open>p\<close> one meets exactly the addresses \<open>xs\<close> and then comes to
  \<open>q\<close>. On a queue whose messages are such a list ending in NULL, \<open>append_msg\<close> adds at the end,
  \<open>first_msg\<close> and \<open>least_msg\<close> find what their loops look for, and \<open>unlink_msg\<close> takes one message out.
\<close>

section \<open>Lists in the heap\<close>

fun seg :: "mheap \<Rightarrow> maddr option \<Rightarrow> maddr list \<Rightarrow> maddr option \<Rightarrow> bool" where
  "seg h p [] q = (p = q)"
| "seg h p (a # as) q = (p = Some a \<and> h a \<noteq> None \<and> seg h (msg_next (the (h a))) as q)"

lemma seg_append: "seg h p (xs @ ys) q \<longleftrightarrow> (\<exists>r. seg h p xs r \<and> seg h r ys q)"
  by (induction xs arbitrary: p) auto

lemma seg_dom: "seg h p xs q \<Longrightarrow> a \<in> set xs \<Longrightarrow> h a \<noteq> None"
  by (induction xs arbitrary: p) auto

lemma seg_frame: "seg h p xs q \<Longrightarrow> (\<And>a. a \<in> set xs \<Longrightarrow> h' a = h a) \<Longrightarrow> seg h' p xs q"
  by (induction xs arbitrary: p) auto

lemma seg_upd [simp]: "a \<notin> set xs \<Longrightarrow> seg (h(a := v)) p xs q = seg h p xs q"
  by (induction xs arbitrary: p) auto

lemma seg_redirect:
  assumes "distinct xs" "xs \<noteq> []" "seg h p xs q"
  shows "seg (h(last xs \<mapsto> (the (h (last xs)))\<lparr>msg_next := r\<rparr>)) p xs r"
proof -
  obtain ys b where xs: "xs = ys @ [b]" using assms(2) by (metis append_butlast_last_id)
  from assms(3) obtain t where "seg h p ys t" "t = Some b" by (auto simp: xs seg_append)
  with assms(1) show ?thesis by (auto simp: xs seg_append)
qed

text \<open>What a message says, apart from its link.\<close>

definition body :: "mheap \<Rightarrow> maddr \<Rightarrow> int \<times> 8 word list \<times> int" where
  "body h a = (case h a of Some m \<Rightarrow> (msg_type m, msg_spot m, msg_ts m) | None \<Rightarrow> (0, [], 0))"

abbreviation mtype :: "mheap \<Rightarrow> maddr \<Rightarrow> int" where "mtype h a \<equiv> fst (body h a)"
abbreviation mtext :: "mheap \<Rightarrow> maddr \<Rightarrow> 8 word list" where "mtext h a \<equiv> fst (snd (body h a))"
abbreviation msize :: "mheap \<Rightarrow> maddr \<Rightarrow> int" where "msize h a \<equiv> snd (snd (body h a))"

lemma body_link [simp]: "h a = Some m \<Longrightarrow> body (h(a \<mapsto> m\<lparr>msg_next := r\<rparr>)) = body h"
  by (auto simp: body_def)

lemma body_other [simp]: "b \<noteq> a \<Longrightarrow> body (h(a := v)) b = body h b"
  by (simp add: body_def)

text \<open>A queue and the list of its messages.\<close>

definition queue_ok :: "mheap \<Rightarrow> msqid_ds \<Rightarrow> maddr list \<Rightarrow> bool" where
  "queue_ok h msq xs \<longleftrightarrow> distinct xs \<and> seg h (msg_first msq) xs None \<and>
     msg_last msq = (if xs = [] then None else Some (last xs)) \<and>
     msg_qnum msq = int (length xs) \<and> length xs < 65536 \<and> msg_cbytes msq = u16 (sum_list (map (msize h) xs))"

lemma queue_frame:
  assumes "queue_ok h msq xs" "\<And>a. a \<in> set xs \<Longrightarrow> h' a = h a" "msg_first msq' = msg_first msq"
    "msg_last msq' = msg_last msq" "msg_qnum msq' = msg_qnum msq" "msg_cbytes msq' = msg_cbytes msq"
  shows "queue_ok h' msq' xs"
proof -
  have "map (msize h') xs = map (msize h) xs" using assms(2) by (simp add: body_def)
  with assms show ?thesis unfolding queue_ok_def using seg_frame by metis
qed

section \<open>Sending\<close>

lemma append_msg_spec:
  assumes "queue_ok h msq xs" "h a = None" "msg_next m = None"
  obtains h' msq' where "append_msg (h(a \<mapsto> m)) msq a = Some (h', msq')"
    "seg h' (msg_first msq') (xs @ [a]) None" "msg_last msq' = Some a"
    "body h' = body (h(a \<mapsto> m))" "\<And>b. b \<notin> set (xs @ [a]) \<Longrightarrow> h' b = h b" "dom h' = insert a (dom h)"
    "msq' = msq\<lparr>msg_first := msg_first msq', msg_last := Some a\<rparr>"
proof (cases "xs = []")
  case True
  with assms(1) have "msg_first msq = None" by (simp add: queue_ok_def)
  with True assms(3) show ?thesis
    by (intro that [of "h(a \<mapsto> m)" "msq\<lparr>msg_first := Some a, msg_last := Some a\<rparr>"]) (auto simp: append_msg_def)
next
  case False
  let ?h = "h(a \<mapsto> m)"
  let ?l = "last xs"
  have q: "distinct xs" "seg h (msg_first msq) xs None" "msg_last msq = Some ?l"
    using assms(1) False by (simp_all add: queue_ok_def)
  have a: "a \<notin> set xs" using seg_dom [OF q(2)] assms(2) by blast
  obtain f where f: "msg_first msq = Some f" using q(2) False by (cases xs) auto
  obtain ml where ml: "h ?l = Some ml" using seg_dom [OF q(2), of ?l] False by auto
  have ne: "?l \<noteq> a" using a False by (metis last_in_set)
  let ?h' = "?h(?l \<mapsto> ml\<lparr>msg_next := Some a\<rparr>)"
  have "seg (?h(?l \<mapsto> (the (?h ?l))\<lparr>msg_next := Some a\<rparr>)) (msg_first msq) xs (Some a)"
    by (rule seg_redirect [OF q(1) False, of _ _ None]) (use q(2) a in simp)
  then have s: "seg ?h' (msg_first msq) (xs @ [a]) None"
    using ne ml assms(3) by (simp add: seg_append)
  show ?thesis
  proof (rule that)
    show "append_msg ?h msq a = Some (?h', msq\<lparr>msg_last := Some a\<rparr>)"
      using f q(3) ml ne by (simp add: append_msg_def)
    show "dom ?h' = insert a (dom h)" using ml by auto
    show "\<And>b. b \<notin> set (xs @ [a]) \<Longrightarrow> ?h' b = h b" using False by auto
    show "body ?h' = body ?h" using ml ne by (intro body_link) simp
  qed (use s in simp_all)
qed

lemma append_msg_queue:
  assumes "queue_ok h msq xs" "h a = None" "msg_next m = None" "length xs < 65535"
    and "append_msg (h(a \<mapsto> m)) msq a = Some (h', msq')"
  shows "queue_ok h' (msq'\<lparr>msg_cbytes := u16 (msg_cbytes msq' + msg_ts m), msg_qnum := u16 (msg_qnum msq' + 1)\<rparr>) (xs @ [a])"
    and "body h' = body (h(a \<mapsto> m))" "\<And>b. b \<notin> set (xs @ [a]) \<Longrightarrow> h' b = h b" "dom h' = insert a (dom h)"
proof -
  obtain h2 msq2 where *: "append_msg (h(a \<mapsto> m)) msq a = Some (h2, msq2)"
    "seg h2 (msg_first msq2) (xs @ [a]) None" "msg_last msq2 = Some a"
    "body h2 = body (h(a \<mapsto> m))" "\<And>b. b \<notin> set (xs @ [a]) \<Longrightarrow> h2 b = h b" "dom h2 = insert a (dom h)"
    "msq2 = msq\<lparr>msg_first := msg_first msq2, msg_last := Some a\<rparr>"
    using append_msg_spec [OF assms(1-3)] by blast
  with assms(5) have eq: "h2 = h'" "msq2 = msq'" by auto
  from *(4-6) eq show "body h' = body (h(a \<mapsto> m))" "\<And>b. b \<notin> set (xs @ [a]) \<Longrightarrow> h' b = h b" "dom h' = insert a (dom h)"
    by auto
  have q: "distinct xs" "seg h (msg_first msq) xs None" "msg_qnum msq = int (length xs)"
    "msg_cbytes msq = u16 (sum_list (map (msize h) xs))"
    using assms(1) by (simp_all add: queue_ok_def)
  have a: "a \<notin> set xs" using seg_dom [OF q(2)] assms(2) by blast
  have same: "msg_qnum msq' = msg_qnum msq" "msg_cbytes msq' = msg_cbytes msq"
    using *(7) eq by (metis msqid_ds.select_convs msqid_ds.surjective msqid_ds.update_convs(2,3))+
  have "sum_list (map (msize h') xs) = sum_list (map (msize h) xs)"
    using a *(4) eq by (intro arg_cong [of _ _ sum_list] map_cong) (auto simp: body_def)
  moreover have "msize h' a = msg_ts m" using *(4) eq by (simp add: body_def)
  ultimately show "queue_ok h' (msq'\<lparr>msg_cbytes := u16 (msg_cbytes msq' + msg_ts m), msg_qnum := u16 (msg_qnum msq' + 1)\<rparr>) (xs @ [a])"
    using *(2,3) eq q a assms(4) same by (simp add: queue_ok_def u16_id u16_shift)
qed

section \<open>Receiving\<close>

lemma first_msg_spec:
  "seg h p xs None \<Longrightarrow> first_msg P h p = Some (find (\<lambda>a. P (the (h a))) xs)"
proof (induction xs arbitrary: p)
  case Nil
  then show ?case by (simp add: first_msg.simps)
next
  case (Cons a xs)
  then obtain m where "h a = Some m" by auto
  with Cons show ?case by (subst first_msg.simps) simp
qed

fun least_of :: "('a \<Rightarrow> int) \<Rightarrow> 'a \<Rightarrow> 'a list \<Rightarrow> 'a" where
  "least_of f l [] = l"
| "least_of f l (x # xs) = least_of f (if f x < f l then x else l) xs"

lemma least_msg_spec:
  "seg h p xs None \<Longrightarrow> h l \<noteq> None \<Longrightarrow> least_msg h (Some l) p = Some (Some (least_of (mtype h) l xs))"
proof (induction xs arbitrary: p l)
  case Nil
  then show ?case by (simp add: least_msg.simps)
next
  case (Cons a xs)
  then obtain m n where "h a = Some m" "h l = Some n" by auto
  moreover from this have "mtype h a = msg_type m" "mtype h l = msg_type n" by (simp_all add: body_def)
  ultimately show ?case using Cons by (subst least_msg.simps) simp
qed

text \<open>The least element found is the leftmost one.\<close>

lemma least_of_split:
  "\<exists>pre post. l # xs = pre @ least_of f l xs # post \<and> (\<forall>x \<in> set pre. f (least_of f l xs) < f x) \<and>
     (\<forall>x \<in> set post. f (least_of f l xs) \<le> f x)"
proof (induction xs arbitrary: l)
  case (Cons x xs)
  show ?case
  proof (cases "f x < f l")
    case True
    define n where "n = least_of f x xs"
    obtain pre post where *: "x # xs = pre @ n # post" "\<forall>y \<in> set pre. f n < f y" "\<forall>y \<in> set post. f n \<le> f y"
      using Cons.IH [of x] unfolding n_def by blast
    have "f n \<le> f x" using * by (cases pre) auto
    with True have "f n < f l" by simp
    moreover have "least_of f l (x # xs) = n" using True by (simp add: n_def)
    ultimately show ?thesis using * by (metis append_Cons set_ConsD)
  next
    case False
    define n where "n = least_of f l xs"
    have n: "least_of f l (x # xs) = n" using False by (simp add: n_def)
    obtain pre post where *: "l # xs = pre @ n # post" "\<forall>y \<in> set pre. f n < f y" "\<forall>y \<in> set post. f n \<le> f y"
      using Cons.IH [of l] unfolding n_def by blast
    show ?thesis
    proof (cases pre)
      case Nil
      with * have "l # x # xs = [] @ n # x # xs" "\<forall>y \<in> set (x # xs). f n \<le> f y" using False by auto
      then show ?thesis unfolding n by (metis empty_iff list.set(1))
    next
      case (Cons b pre')
      with * have "l # x # xs = (l # x # pre') @ n # post" "\<forall>y \<in> set (l # x # pre'). f n < f y" using False by auto
      with *(3) show ?thesis unfolding n by blast
    qed
  qed
qed (auto intro: exI [of _ "[]"])

text \<open>Which types a receive wants, and which message of a list is the one it takes.\<close>

definition wanted :: "int \<Rightarrow> int \<Rightarrow> int \<Rightarrow> bool" where
  "wanted msgtyp msgflg t \<longleftrightarrow>
     (if msgtyp = 0 then True
      else if msgtyp > 0 then (if has_flag msgflg MSG_EXCEPT then t \<noteq> msgtyp else t = msgtyp)
      else t \<le> s32 (- msgtyp))"

definition picks :: "int \<Rightarrow> int \<Rightarrow> (maddr \<Rightarrow> int) \<Rightarrow> maddr list \<Rightarrow> maddr \<Rightarrow> maddr list \<Rightarrow> bool" where
  "picks msgtyp msgflg f pre n post \<longleftrightarrow> wanted msgtyp msgflg (f n) \<and>
     (if msgtyp \<ge> 0 then (\<forall>a \<in> set pre. \<not> wanted msgtyp msgflg (f a))
      else (\<forall>a \<in> set pre. f n < f a) \<and> (\<forall>a \<in> set post. f n \<le> f a))"

lemma find_split:
  "find P xs = Some n \<Longrightarrow> \<exists>pre post. xs = pre @ n # post \<and> P n \<and> (\<forall>a \<in> set pre. \<not> P a)"
proof (induction xs)
  case (Cons x xs)
  show ?case
  proof (cases "P x")
    case True
    with Cons.prems have "x # xs = [] @ n # xs \<and> P n" by simp
    then show ?thesis by (metis empty_iff list.set(1))
  next
    case False
    with Cons.prems Cons.IH obtain pre post where "xs = pre @ n # post \<and> P n \<and> (\<forall>a \<in> set pre. \<not> P a)" by auto
    then have "x # xs = (x # pre) @ n # post \<and> P n \<and> (\<forall>a \<in> set (x # pre). \<not> P a)" using False by simp
    then show ?thesis by blast
  qed
qed simp

lemma find_same:
  assumes "\<And>a. a \<in> set xs \<Longrightarrow> P a = Q a"
  shows "find P xs = find Q xs"
  using assms by (induction xs) auto

lemma find_msg_spec:
  assumes q: "queue_ok h msq xs"
  shows "case find_msg h msq msgtyp msgflg of
      None \<Rightarrow> False
    | Some None \<Rightarrow> \<forall>a \<in> set xs. \<not> wanted msgtyp msgflg (mtype h a)
    | Some (Some n) \<Rightarrow> \<exists>pre post. xs = pre @ n # post \<and> picks msgtyp msgflg (mtype h) pre n post"
proof -
  have s: "seg h (msg_first msq) xs None" using q by (simp add: queue_ok_def)
  have same: "msg_type (the (h a)) = mtype h a" if "a \<in> set xs" for a
    using seg_dom [OF s that] by (auto simp: body_def)
  consider "msgtyp = 0" | "msgtyp > 0" | "msgtyp < 0" by linarith
  then show ?thesis
  proof cases
    case 1
    show ?thesis
    proof (cases xs)
      case (Cons n post)
      have "find_msg h msq msgtyp msgflg = Some (Some n)" using s 1 Cons by (simp add: find_msg_def)
      moreover have "picks msgtyp msgflg (mtype h) [] n post" using 1 by (simp add: picks_def wanted_def)
      moreover have "xs = [] @ n # post" using Cons by simp
      ultimately show ?thesis by (simp only: option.case) blast
    qed (use s 1 in \<open>simp add: find_msg_def\<close>)
  next
    case 2
    have f: "find_msg h msq msgtyp msgflg = Some (find (\<lambda>a. wanted msgtyp msgflg (mtype h a)) xs)"
    proof (cases "has_flag msgflg MSG_EXCEPT")
      case True
      have "find (\<lambda>a. msg_type (the (h a)) \<noteq> msgtyp) xs = find (\<lambda>a. wanted msgtyp msgflg (mtype h a)) xs"
        by (rule find_same) (use True 2 same in \<open>simp add: wanted_def\<close>)
      with True 2 first_msg_spec [OF s, of "\<lambda>m. msg_type m \<noteq> msgtyp"] show ?thesis by (simp add: find_msg_def)
    next
      case False
      have "find (\<lambda>a. msg_type (the (h a)) = msgtyp) xs = find (\<lambda>a. wanted msgtyp msgflg (mtype h a)) xs"
        by (rule find_same) (use False 2 same in \<open>simp add: wanted_def\<close>)
      with False 2 first_msg_spec [OF s, of "\<lambda>m. msg_type m = msgtyp"] show ?thesis by (simp add: find_msg_def)
    qed
    show ?thesis
    proof (cases "find (\<lambda>a. wanted msgtyp msgflg (mtype h a)) xs")
      case None
      then have "\<forall>a \<in> set xs. \<not> wanted msgtyp msgflg (mtype h a)" by (simp add: find_None_iff)
      with f None show ?thesis by (simp only: option.case)
    next
      case (Some n)
      from find_split [OF this] obtain pre post where
        "xs = pre @ n # post" "wanted msgtyp msgflg (mtype h n)" "\<forall>a \<in> set pre. \<not> wanted msgtyp msgflg (mtype h a)" by blast
      with 2 have "xs = pre @ n # post \<and> picks msgtyp msgflg (mtype h) pre n post" by (simp add: picks_def)
      with f Some show ?thesis by (simp only: option.case) blast
    qed
  next
    case 3
    show ?thesis
    proof (cases xs)
      case Nil
      then show ?thesis using s 3 by (simp add: find_msg_def least_msg.simps)
    next
      case (Cons l ys)
      let ?n = "least_of (mtype h) l (l # ys)"
      have f: "msg_first msq = Some l" "h l \<noteq> None" using s Cons by auto
      have lm: "least_msg h (msg_first msq) (msg_first msq) = Some (Some ?n)"
        using least_msg_spec [OF s, of l] f Cons by simp
      have n: "?n = least_of (mtype h) l ys" by simp
      from least_of_split [of l ys "mtype h"] obtain pre post where
        *: "xs = pre @ ?n # post" "\<forall>x \<in> set pre. mtype h ?n < mtype h x" "\<forall>x \<in> set post. mtype h ?n \<le> mtype h x"
        unfolding n Cons by blast
      from *(1) have "?n \<in> set xs" by (metis in_set_conv_decomp)
      from same [OF this] seg_dom [OF s this] obtain m where m: "h ?n = Some m" "msg_type m = mtype h ?n" by auto
      have fm: "find_msg h msq msgtyp msgflg = Some (if mtype h ?n \<le> s32 (- msgtyp) then Some ?n else None)"
        using 3 lm m by (simp add: find_msg_def)
      show ?thesis
      proof (cases "mtype h ?n \<le> s32 (- msgtyp)")
        case True
        have "picks msgtyp msgflg (mtype h) pre ?n post" using True 3 *(2,3) by (simp add: picks_def wanted_def)
        with True *(1) fm show ?thesis by (simp only: option.case if_True) blast
      next
        case False
        have "mtype h ?n \<le> mtype h a" if "a \<in> set xs" for a
          using that * by (metis Un_iff insert_iff less_imp_le list.simps(15) order_refl set_append)
        then have "\<forall>a \<in> set xs. \<not> wanted msgtyp msgflg (mtype h a)" using False 3 by (force simp: wanted_def)
        with False fm show ?thesis by (simp only: option.case if_False)
      qed
    qed
  qed
qed

text \<open>The predecessor search of \<open>unlink_msg\<close> finds the message before.\<close>

lemma seg_next: "seg h p (pre @ b # n # post) q \<Longrightarrow> msg_next (the (h b)) = Some n"
  by (auto simp: seg_append)

lemma seg_next_unique:
  assumes "seg h p xs None" "distinct xs" "a \<in> set xs" "msg_next (the (h a)) = Some n"
  shows "\<exists>pre post. xs = pre @ a # n # post"
proof -
  obtain pre ys where xs: "xs = pre @ a # ys" using assms(3) by (metis in_set_conv_decomp)
  then have "seg h (Some n) ys None" using assms(1,4) by (auto simp: seg_append)
  then obtain post where "ys = n # post" by (cases ys) auto
  with xs show ?thesis by blast
qed

lemma find_prev:
  assumes "seg h p (pre @ b # n # post) None" "distinct (pre @ b # n # post)"
  shows "find (\<lambda>a. msg_next (the (h a)) = Some n) (pre @ b # n # post) = Some b"
proof -
  have "msg_next (the (h a)) \<noteq> Some n" if "a \<in> set pre" for a
  proof
    assume "msg_next (the (h a)) = Some n"
    moreover have "a \<in> set (pre @ b # n # post)" using that by simp
    ultimately obtain u v where "pre @ b # n # post = u @ a # n # v" using seg_next_unique [OF assms] by blast
    then have eq: "(pre @ [b]) @ n # post = (u @ [a]) @ n # v" by simp
    have "n \<notin> set (pre @ [b])" "n \<notin> set post" using assms(2) by auto
    with eq have "pre @ [b] = u @ [a]"
      using append_Cons_eq_iff [of n "pre @ [b]" post "u @ [a]" v] by simp
    with that assms(2) show False by auto
  qed
  then have "find (\<lambda>a. msg_next (the (h a)) = Some n) pre = None" by (simp add: find_None_iff)
  with seg_next [OF assms(1)] show ?thesis by (induction pre) (auto split: if_splits)
qed

definition link_taken :: "mheap \<Rightarrow> maddr list \<Rightarrow> maddr \<Rightarrow> mheap" where
  "link_taken h pre n =
     (if pre = [] then h else h(last pre \<mapsto> (the (h (last pre)))\<lparr>msg_next := msg_next (the (h n))\<rparr>))"

lemma link_taken_seg:
  assumes "seg h p (pre @ n # post) None" "distinct (pre @ n # post)"
  shows "seg (link_taken h pre n) (if pre = [] then msg_next (the (h n)) else p) (pre @ post) None"
proof (cases "pre = []")
  case False
  from assms(1) have s: "seg h p pre (Some n)" "seg h (msg_next (the (h n))) post None" by (auto simp: seg_append)
  have "last pre \<notin> set post" using False assms(2) by (metis Int_iff distinct_append empty_iff insert_iff last_in_set list.simps(15) set_append Un_iff)
  then have "seg (link_taken h pre n) (msg_next (the (h n))) post None" using s(2) False by (simp add: link_taken_def)
  moreover have "seg (link_taken h pre n) p pre (msg_next (the (h n)))"
    using seg_redirect [of pre h p "Some n" "msg_next (the (h n))"] assms(2) False s(1) by (simp add: link_taken_def)
  ultimately show ?thesis using False by (auto simp: seg_append)
qed (use assms in \<open>auto simp: link_taken_def\<close>)

lemma unlink_msg_spec:
  assumes q: "queue_ok h msq (pre @ n # post)"
  shows "unlink_msg h msq n = Some (link_taken h pre n,
     msq\<lparr>msg_first := (if pre = [] then msg_next (the (h n)) else msg_first msq),
         msg_last := (if pre @ post = [] then None else Some (last (pre @ post))),
         msg_qnum := int (length (pre @ post))\<rparr>)"
proof -
  let ?xs = "pre @ n # post"
  have d: "distinct ?xs" and s: "seg h (msg_first msq) ?xs None" and l: "msg_last msq = Some (last ?xs)"
    and c: "msg_qnum msq = int (length ?xs)" "length ?xs < 65536"
    using q by (simp_all add: queue_ok_def)
  obtain nm where nm: "h n = Some nm" using seg_dom [OF s, of n] by auto
  have cnt: "u16 (msg_qnum msq - 1) = int (length (pre @ post))" using c by (simp add: u16_id)
  show ?thesis
  proof (cases pre rule: rev_cases)
    case Nil
    then have f: "msg_first msq = Some n" using s by simp
    show ?thesis
    proof (cases post)
      case Nil2: Nil
      have "msg_next nm = None" using s nm Nil Nil2 by simp
      then show ?thesis using f nm cnt Nil Nil2 by (simp add: unlink_msg_def link_taken_def)
    next
      case (Cons b bs)
      then show ?thesis using f nm cnt Nil l by (simp add: unlink_msg_def link_taken_def)
    qed
  next
    case (snoc ps b)
    have f: "msg_first msq \<noteq> Some n" using s d snoc by (cases ps) auto
    have fp: "first_msg (\<lambda>m. msg_next m = Some n) h (msg_first msq) = Some (Some b)"
      using first_msg_spec [OF s] find_prev [of h "msg_first msq" ps b n post] s d snoc by simp
    obtain bm where bm: "h b = Some bm" using seg_dom [OF s, of b] snoc by auto
    show ?thesis
    proof (cases post)
      case Nil
      then show ?thesis using f fp bm nm cnt snoc l by (simp add: unlink_msg_def link_taken_def)
    next
      case (Cons e es)
      then have "last ?xs \<noteq> n" using d by auto
      then show ?thesis using f fp bm nm cnt snoc l Cons by (simp add: unlink_msg_def link_taken_def)
    qed
  qed
qed

lemma sum_list_remove: "sum_list (map f (pre @ n # post)) = sum_list (map f (pre @ post)) + (f n :: int)"
  by simp

lemma link_taken_frame:
  assumes "queue_ok h msq (pre @ n # post)"
  shows "body (link_taken h pre n) = body h" "dom (link_taken h pre n) = dom h"
    "\<And>b. b \<notin> set pre \<Longrightarrow> link_taken h pre n b = h b"
proof -
  have s: "seg h (msg_first msq) (pre @ n # post) None" using assms by (simp add: queue_ok_def)
  have "h (last pre) \<noteq> None" if "pre \<noteq> []" using seg_dom [OF s, of "last pre"] that by simp
  then show "body (link_taken h pre n) = body h" "dom (link_taken h pre n) = dom h"
    by (cases "pre = []"; force simp: link_taken_def)+
  show "link_taken h pre n b = h b" if "b \<notin> set pre" for b using that by (auto simp: link_taken_def)
qed

text \<open>The queue after a message has been taken out, its size taken off, and the message freed.\<close>

lemma taken_queue:
  assumes q: "queue_ok h msq (pre @ n # post)"
    and u: "unlink_msg h msq n = Some (h', msq')"
  shows "queue_ok (h'(n := None)) (msq'\<lparr>msg_cbytes := u16 (msg_cbytes msq' - msize h n)\<rparr>) (pre @ post)"
    and "h' = link_taken h pre n" "msg_cbytes msq' = msg_cbytes msq"
proof -
  from u unlink_msg_spec [OF q] have h': "h' = link_taken h pre n" and m: "msq' = msq\<lparr>msg_first := (if pre = [] then msg_next (the (h n)) else msg_first msq),
         msg_last := (if pre @ post = [] then None else Some (last (pre @ post))),
         msg_qnum := int (length (pre @ post))\<rparr>" by simp_all
  show "h' = link_taken h pre n" "msg_cbytes msq' = msg_cbytes msq" using h' m by simp_all
  have q': "distinct (pre @ n # post)" "seg h (msg_first msq) (pre @ n # post) None"
    "msg_cbytes msq = u16 (sum_list (map (msize h) (pre @ n # post)))" "length (pre @ n # post) < 65536"
    using q by (simp_all add: queue_ok_def)
  have ne: "a \<noteq> n" if "a \<in> set (pre @ post)" for a using that q'(1) by auto
  have "sum_list (map (msize (h'(n := None))) (pre @ post)) = sum_list (map (msize h) (pre @ post))"
    using ne link_taken_frame(1) [OF q] h' by (intro arg_cong [of _ _ sum_list] map_cong) simp_all
  moreover have "u16 (u16 (sum_list (map (msize h) (pre @ post)) + msize h n) - msize h n) =
      u16 (sum_list (map (msize h) (pre @ post)))"
    using u16_shift [of "sum_list (map (msize h) (pre @ post)) + msize h n" "- msize h n"] by simp
  moreover have "seg (h'(n := None)) (msg_first msq') (pre @ post) None"
    using link_taken_seg [OF q'(2,1)] ne by (subst seg_upd) (auto simp: h' m)
  ultimately show "queue_ok (h'(n := None)) (msq'\<lparr>msg_cbytes := u16 (msg_cbytes msq' - msize h n)\<rparr>) (pre @ post)"
    using q'(1,3,4) by (simp add: queue_ok_def m sum_list_remove add.commute add.left_commute)
qed

text \<open>Freeing all messages of a queue.\<close>

lemma free_msgs_spec:
  assumes "seg h p xs None" "distinct xs"
  shows "\<exists>hdrs'. free_msgs h hdrs p = Some (h |` (- set xs), hdrs')"
  using assms
proof (induction xs arbitrary: h p hdrs)
  case Nil
  then show ?case by (simp add: free_msgs.simps)
next
  case (Cons a xs)
  then obtain m where m: "h a = Some m" by auto
  have "seg (h(a := None)) (msg_next m) xs None" using Cons.prems m by simp
  from Cons.IH [OF this] Cons.prems(2) obtain hdrs' where
    "free_msgs (h(a := None)) (s32 (hdrs - 1)) (msg_next m) = Some ((h(a := None)) |` (- set xs), hdrs')"
    unfolding distinct.simps by blast
  moreover have "(h(a := None)) |` (- set xs) = h |` (- set (a # xs))" by (auto simp: restrict_map_def)
  ultimately show ?case using m Cons.prems by (subst free_msgs.simps) simp
qed

end
