(* ===== verification/Msg_Inv.thy ===== *)
theory Msg_Inv
  imports Msg_Queue
begin

text \<open>
  The system of all calls on message queues: its invariant, that every run keeps it, and the table
  of identifiers as the specification of Ipc_Util sees it.

  The invariant has three parts: the table (which entries are used, by whom), the wait queues
  (their lengths are the numbers of sleepers), and the messages (every queue is a list, the lists
  do not meet, and no message is in none of them).
\<close>

section \<open>The invariant\<close>

fun onw :: "qaddr \<Rightarrow> msg_wait \<Rightarrow> bool" where
  "onw q (SndWait c) = (sn_msq c = q)"
| "onw q _ = False"

fun onr :: "qaddr \<Rightarrow> msg_wait \<Rightarrow> bool" where
  "onr q (RcvWait c) = (rc_msq c = q)"
| "onr q _ = False"

fun frees :: "qaddr \<Rightarrow> msg_wait \<Rightarrow> bool" where
  "frees q (Freeing r) = (r = q)"
| "frees q _ = False"

fun news :: "nat \<Rightarrow> msg_wait \<Rightarrow> bool" where
  "news i (NewAlloc c j) = (j = i)"
| "news i _ = False"

definition number :: "('w \<Rightarrow> bool) \<Rightarrow> 'w multiset \<Rightarrow> nat" where
  "number P W = size (filter_mset P W)"

lemma number_add [simp]: "number P (add_mset p W) = (if P p then Suc (number P W) else number P W)"
  by (simp add: number_def)

lemma number_empty [simp]: "number P {#} = 0"
  by (simp add: number_def)

definition table_ok :: "msg_sys \<Rightarrow> msg_wait multiset \<Rightarrow> bool" where
  "table_ok s W \<longleftrightarrow> length (msgque s) = 128 \<and> max_msqid s < 128 \<and>
     (\<forall>j < 128. \<forall>q. msgque s ! j = Ident q \<longrightarrow> j \<le> max_msqid s \<and> queues s q \<noteq> None \<and> number (frees q) W = 0) \<and>
     (\<forall>i < 128. \<forall>j < 128. \<forall>q. msgque s ! i = Ident q \<and> msgque s ! j = Ident q \<longrightarrow> i = j) \<and>
     (\<forall>j. number (news j) W = (if j < 128 \<and> msgque s ! j = IPC_NOID then 1 else 0)) \<and>
     (\<forall>q. number (frees q) W = (if queues s q \<noteq> None \<and> (\<forall>j < 128. msgque s ! j \<noteq> Ident q) then 1 else 0))"

definition writers_on :: "msg_sys \<Rightarrow> qaddr \<Rightarrow> nat" where
  "writers_on s q = (case queues s q of None \<Rightarrow> 0 | Some msq \<Rightarrow> wwait msq)"

definition readers_on :: "msg_sys \<Rightarrow> qaddr \<Rightarrow> nat" where
  "readers_on s q = (case queues s q of None \<Rightarrow> 0 | Some msq \<Rightarrow> rwait msq)"

definition waits_ok :: "msg_sys \<Rightarrow> msg_wait multiset \<Rightarrow> bool" where
  "waits_ok s W \<longleftrightarrow> (\<forall>q. number (onw q) W = writers_on s q \<and> number (onr q) W = readers_on s q)"

definition holds :: "msg_sys \<Rightarrow> qaddr \<Rightarrow> maddr list \<Rightarrow> bool" where
  "holds s q xs \<longleftrightarrow> (case queues s q of None \<Rightarrow> xs = [] | Some msq \<Rightarrow> queue_ok (msgs s) msq xs)"

definition layout :: "msg_sys \<Rightarrow> (qaddr \<Rightarrow> maddr list) \<Rightarrow> bool" where
  "layout s L \<longleftrightarrow> (\<forall>q. holds s q (L q)) \<and> (\<forall>q r. q \<noteq> r \<longrightarrow> set (L q) \<inter> set (L r) = {}) \<and>
     dom (msgs s) = (\<Union>q. set (L q))"

text \<open>A call that sends keeps the size that its first checks let through.\<close>

fun sane :: "msg_wait \<Rightarrow> bool" where
  "sane (SndWait c) = (0 \<le> sn_sz c \<and> sn_sz c \<le> MSGMAX)"
| "sane (SndAlloc c) = (0 \<le> sn_sz c \<and> sn_sz c \<le> MSGMAX)"
| "sane _ = True"

definition msg_inv :: "msg_sys \<Rightarrow> msg_wait multiset \<Rightarrow> bool" where
  "msg_inv s W \<longleftrightarrow> table_ok s W \<and> waits_ok s W \<and> (\<exists>L. layout s L) \<and> (\<forall>p \<in># W. sane p)"

section \<open>Changes that keep it\<close>

definition same_queue :: "msqid_ds \<Rightarrow> msqid_ds \<Rightarrow> bool" where
  "same_queue m m' \<longleftrightarrow> msg_first m' = msg_first m \<and> msg_last m' = msg_last m \<and> msg_qnum m' = msg_qnum m \<and>
     msg_cbytes m' = msg_cbytes m"

lemma put_queue_fields [simp]:
  "msgque (put_queue q m s) = msgque s" "msgs (put_queue q m s) = msgs s" "max_msqid (put_queue q m s) = max_msqid s"
  "queues (put_queue q m s) = (queues s)(q \<mapsto> m)" "msg_seq (put_queue q m s) = msg_seq s"
  by (simp_all add: put_queue_def)

lemma on_put [simp]:
  "writers_on (put_queue q m s) r = (if r = q then wwait m else writers_on s r)"
  "readers_on (put_queue q m s) r = (if r = q then rwait m else readers_on s r)"
  by (simp_all add: writers_on_def readers_on_def)

lemma holds_put: "holds (put_queue q m s) r xs = (if r = q then queue_ok (msgs s) m xs else holds s r xs)"
  by (simp add: holds_def split: option.split)

lemma holds_queue: "queues s q = Some m \<Longrightarrow> holds s q xs = queue_ok (msgs s) m xs"
  by (simp add: holds_def)

lemma layout_put:
  assumes "layout s L" "queues s q = Some m" "same_queue m m'"
  shows "layout (put_queue q m' s) L"
proof -
  have "queue_ok (msgs s) m (L q)" using assms(1,2) by (simp add: layout_def holds_queue [symmetric])
  then have "queue_ok (msgs s) m' (L q)" using queue_frame assms(3) by (simp add: same_queue_def)
  with assms(1) show ?thesis by (simp add: layout_def holds_put)
qed

text \<open>A change of one queue that leaves its list alone, with the sleepers changed to match.\<close>

lemma inv_put:
  assumes "msg_inv s W" "queues s q = Some m" "same_queue m m'"
    and "\<And>j. number (news j) W' = number (news j) W" "\<And>r. number (frees r) W' = number (frees r) W"
    and "number (onw q) W' = wwait m'" "number (onr q) W' = rwait m'"
    and "\<And>r. r \<noteq> q \<Longrightarrow> number (onw r) W' = number (onw r) W \<and> number (onr r) W' = number (onr r) W"
    and "\<forall>p \<in># W'. sane p"
  shows "msg_inv (put_queue q m' s) W'"
proof -
  have "table_ok (put_queue q m' s) W'" using assms(1,2,4,5) by (simp add: msg_inv_def table_ok_def)
  moreover have "waits_ok (put_queue q m' s) W'"
    using assms(1) assms(6-8) by (simp add: msg_inv_def waits_ok_def)
  moreover have "\<exists>L. layout (put_queue q m' s) L"
    using assms(1) layout_put [OF _ assms(2,3)] unfolding msg_inv_def by blast
  ultimately show ?thesis using assms(9) by (simp add: msg_inv_def)
qed

lemma inv_sane: "msg_inv s W \<Longrightarrow> p \<in># W \<Longrightarrow> sane p"
  by (simp add: msg_inv_def)

lemma inv_waits:
  "msg_inv s W \<Longrightarrow> number (onw q) W = writers_on s q" "msg_inv s W \<Longrightarrow> number (onr q) W = readers_on s q"
  by (simp_all add: msg_inv_def waits_ok_def)

text \<open>Sleepers that the invariant does not count.\<close>

fun free_sleeper :: "msg_wait \<Rightarrow> bool" where
  "free_sleeper (SndAlloc c) = True"
| "free_sleeper (FindKey c i) = True"
| "free_sleeper _ = False"

lemma inv_free_sleeper: "free_sleeper p \<Longrightarrow> msg_inv s (add_mset p W) \<longleftrightarrow> sane p \<and> msg_inv s W"
  by (cases p) (auto simp: msg_inv_def table_ok_def waits_ok_def)

lemma inv_sleep_w:
  assumes "msg_inv s W" "queues s (sn_msq c) = Some m" "sane (SndWait c)"
  shows "msg_inv (put_queue (sn_msq c) (m\<lparr>wwait := wwait m + 1\<rparr>) s) (add_mset (SndWait c) W)"
  by (rule inv_put [OF assms(1,2)]) (use inv_waits [OF assms(1)] inv_sane [OF assms(1)] assms in \<open>auto simp: same_queue_def writers_on_def readers_on_def\<close>)

lemma inv_sleep_r:
  assumes "msg_inv s W" "queues s (rc_msq c) = Some m"
  shows "msg_inv (put_queue (rc_msq c) (m\<lparr>rwait := rwait m + 1\<rparr>) s) (add_mset (RcvWait c) W)"
  by (rule inv_put [OF assms(1,2)]) (use inv_waits [OF assms(1)] inv_sane [OF assms(1)] assms in \<open>auto simp: same_queue_def writers_on_def readers_on_def\<close>)

lemma inv_leave_w:
  assumes "msg_inv s (add_mset (SndWait c) W)"
  obtains m where "leave (\<lambda>q. q\<lparr>wwait := wwait q - 1\<rparr>) (sn_msq c) s = Some (put_queue (sn_msq c) (m\<lparr>wwait := wwait m - 1\<rparr>) s)"
    "queues s (sn_msq c) = Some m" "msg_inv (put_queue (sn_msq c) (m\<lparr>wwait := wwait m - 1\<rparr>) s) W"
proof -
  obtain m where m: "queues s (sn_msq c) = Some m" "wwait m = Suc (number (onw (sn_msq c)) W)" "rwait m = number (onr (sn_msq c)) W"
    using inv_waits [OF assms, of "sn_msq c"] by (cases "queues s (sn_msq c)") (auto simp: writers_on_def readers_on_def)
  have "msg_inv (put_queue (sn_msq c) (m\<lparr>wwait := wwait m - 1\<rparr>) s) W"
    by (rule inv_put [OF assms m(1)]) (use m(2,3) inv_sane [OF assms] in \<open>auto simp: same_queue_def\<close>)
  with m(1) show ?thesis by (intro that) (simp_all add: leave_def)
qed

lemma inv_leave_r:
  assumes "msg_inv s (add_mset (RcvWait c) W)"
  obtains m where "leave (\<lambda>q. q\<lparr>rwait := rwait q - 1\<rparr>) (rc_msq c) s = Some (put_queue (rc_msq c) (m\<lparr>rwait := rwait m - 1\<rparr>) s)"
    "queues s (rc_msq c) = Some m" "msg_inv (put_queue (rc_msq c) (m\<lparr>rwait := rwait m - 1\<rparr>) s) W"
proof -
  obtain m where m: "queues s (rc_msq c) = Some m" "rwait m = Suc (number (onr (rc_msq c)) W)" "wwait m = number (onw (rc_msq c)) W"
    using inv_waits [OF assms, of "rc_msq c"] by (cases "queues s (rc_msq c)") (auto simp: writers_on_def readers_on_def)
  have "msg_inv (put_queue (rc_msq c) (m\<lparr>rwait := rwait m - 1\<rparr>) s) W"
    by (rule inv_put [OF assms m(1)]) (use m(2,3) inv_sane [OF assms] in \<open>auto simp: same_queue_def\<close>)
  with m(1) show ?thesis by (intro that) (simp_all add: leave_def)
qed

section \<open>Changes of the lists\<close>

text \<open>One list is replaced; the messages of the others stay where and as they are.\<close>

lemma layout_dom: "layout s L \<Longrightarrow> b \<in> set (L r) \<Longrightarrow> msgs s b \<noteq> None"
  unfolding layout_def by (metis UNIV_I UN_I domIff)

lemma layout_replace:
  assumes L: "layout s L" and s': "queues s' = (queues s)(q := m')" "msgs s' = h'"
    and q: "holds s' q xs'" and frame: "\<And>a. a \<notin> set (L q) \<union> set xs' \<Longrightarrow> h' a = msgs s a"
    and new: "\<And>r. r \<noteq> q \<Longrightarrow> set xs' \<inter> set (L r) = {}" and d: "dom h' = dom (msgs s) - set (L q) \<union> set xs'"
  shows "layout s' (L(q := xs'))"
proof -
  have disj: "set (L r) \<inter> set (L t) = {}" if "r \<noteq> t" for r t using L that by (simp add: layout_def)
  have "holds s' r (L r)" if "r \<noteq> q" for r
  proof (cases "queues s r")
    case None
    moreover have "holds s r (L r)" using L by (simp add: layout_def)
    ultimately show ?thesis using s' that by (simp add: holds_def)
  next
    case (Some m)
    have "queue_ok (msgs s) m (L r)" using L Some by (simp add: layout_def flip: holds_queue)
    then have "queue_ok h' m (L r)"
      by (rule queue_frame) (use frame new [OF that] disj [OF that] in auto)
    with Some s' that show ?thesis by (simp add: holds_def)
  qed
  moreover have "dom h' = (\<Union>r. set ((L(q := xs')) r))"
  proof -
    have "dom (msgs s) = (\<Union>r. set (L r))" using L by (simp add: layout_def)
    then have "dom h' = (\<Union>r. set (L r)) - set (L q) \<union> set xs'" using d by simp
    also have "\<dots> = (\<Union>r. set ((L(q := xs')) r))" using disj by (auto split: if_splits) blast
    finally show ?thesis .
  qed
  moreover have "set ((L(q := xs')) r) \<inter> set ((L(q := xs')) t) = {}" if "r \<noteq> t" for r t
    using disj [OF that] new that by (auto split: if_splits)
  ultimately show ?thesis using q s'(2) by (simp add: layout_def)
qed

lemma table_same:
  assumes "table_ok s W" "msgque s' = msgque s" "max_msqid s' = max_msqid s" "\<And>q. (queues s' q = None) = (queues s q = None)"
  shows "table_ok s' W"
  using assms by (simp add: table_ok_def)

lemma waits_same:
  assumes "waits_ok s W" "\<And>q. writers_on s' q = writers_on s q" "\<And>q. readers_on s' q = readers_on s q"
  shows "waits_ok s' W"
  using assms by (simp add: waits_ok_def)

lemma holds_same: "queues s' = queues s \<Longrightarrow> msgs s' = msgs s \<Longrightarrow> holds s' q xs = holds s q xs"
  by (cases "queues s q") (simp_all add: holds_def)

lemma layout_same: "layout s L \<Longrightarrow> queues s' = queues s \<Longrightarrow> msgs s' = msgs s \<Longrightarrow> layout s' L"
  by (simp add: layout_def holds_same [of s' s])

lemma on_same:
  "queues s' = queues s \<Longrightarrow> writers_on s' q = writers_on s q" "queues s' = queues s \<Longrightarrow> readers_on s' q = readers_on s q"
  by (simp_all add: writers_on_def readers_on_def)

lemma inv_store:
  assumes inv: "msg_inv s W" and m: "queues s (sn_msq c) = Some msq" and a: "msgs s a = None"
    and room: "msg_qnum msq < 65535" and sane: "sane (SndAlloc c)"
  shows "snd (msgsnd_store cur now s c msq a) = Ret (Sent (sn_sz c)) \<and> msg_inv (fst (msgsnd_store cur now s c msq a)) W"
proof -
  let ?m = "\<lparr>msg_next = None, msg_type = sn_type c, msg_spot = take (nat (sn_sz c)) (sn_text c), msg_ts = s16 (sn_sz c)\<rparr>"
  let ?q = "sn_msq c"
  obtain L where L: "layout s L" using inv by (auto simp: msg_inv_def)
  have q: "queue_ok (msgs s) msq (L ?q)" using L m by (simp add: layout_def flip: holds_queue)
  have len: "length (L ?q) < 65535" using q room by (simp add: queue_ok_def)
  obtain h' msq' where ap: "append_msg ((msgs s)(a \<mapsto> ?m)) msq a = Some (h', msq')" and
      ms: "msq' = msq\<lparr>msg_first := msg_first msq', msg_last := Some a\<rparr>"
    by (rule append_msg_spec [OF q a, of ?m]) auto
  note new = append_msg_queue [OF q a _ len ap]
  have ts: "s16 (sn_sz c) = sn_sz c" using sane by (simp add: s16_id MSGMAX_def)
  let ?msq = "msq'\<lparr>msg_cbytes := u16 (msg_cbytes msq' + sn_sz c), msg_qnum := u16 (msg_qnum msq' + 1),
                     msg_lspid := u16 (pid cur), msg_stime := now\<rparr>"
  let ?s = "put_queue ?q ?msq (s\<lparr>msgs := h', msgbytes := s32 (msgbytes s + sn_sz c), msghdrs := s32 (msghdrs s + 1)\<rparr>)"
  have r: "msgsnd_store cur now s c msq a = (?s, Ret (Sent (sn_sz c)))" using ap by (simp add: msgsnd_store_def)
  have qq: "queue_ok h' ?msq (L ?q @ [a])"
    by (rule queue_frame [OF new(1)]) (simp_all add: ts)
  have notin: "a \<notin> set (L r)" for r using layout_dom [OF L] a by blast
  have "layout ?s (L(?q := L ?q @ [a]))"
  proof (rule layout_replace [OF L, of _ _ "Some ?msq"])
    show "dom h' = dom (msgs s) - set (L ?q) \<union> set (L ?q @ [a])" using new(4) L by (auto simp: layout_def)
    show "set (L ?q @ [a]) \<inter> set (L r) = {}" if "r \<noteq> ?q" for r using L that notin by (auto simp: layout_def)
    show "h' b = msgs s b" if "b \<notin> set (L ?q) \<union> set (L ?q @ [a])" for b using new(3) that by simp
  qed (use qq in \<open>simp_all add: holds_put\<close>)
  moreover have "table_ok ?s W" by (rule table_same [of s]) (use inv m in \<open>auto simp: msg_inv_def\<close>)
  moreover have "wwait msq' = wwait msq" "rwait msq' = rwait msq"
    using ms by (metis msqid_ds.select_convs(7,8) msqid_ds.surjective msqid_ds.update_convs(2,3))+
  then have "waits_ok ?s W" using inv m
    by (auto simp: msg_inv_def writers_on_def readers_on_def intro!: waits_same [of s W ?s])
  ultimately show ?thesis using inv by (auto simp: msg_inv_def r)
qed

lemma inv_take:
  assumes inv: "msg_inv s W" and m: "queues s (rc_msq c) = Some msq" and L: "layout s L"
    and xs: "L (rc_msq c) = pre @ n # post"
  shows "snd (msgrcv_take cur now s c msq n) \<noteq> Fault \<and> msg_inv (fst (msgrcv_take cur now s c msq n)) W"
proof -
  let ?q = "rc_msq c"
  have q: "queue_ok (msgs s) msq (pre @ n # post)" using L m xs by (metis layout_def holds_queue)
  obtain nm where nm: "msgs s n = Some nm" using layout_dom [OF L, of n ?q] xs by auto
  have ts: "msize (msgs s) n = msg_ts nm" using nm by (simp add: body_def)
  obtain h' msq' where u: "unlink_msg (msgs s) msq n = Some (h', msq')" using unlink_msg_spec [OF q] by simp
  note new = taken_queue [OF q u]
  let ?msq = "msq'\<lparr>msg_rtime := now, msg_lrpid := u16 (pid cur), msg_cbytes := u16 (msg_cbytes msq' - msg_ts nm)\<rparr>"
  let ?h = "h'(n := None)"
  let ?s = "put_queue ?q ?msq (s\<lparr>msgs := ?h, msgbytes := s32 (msgbytes s - msg_ts nm), msghdrs := s32 (msghdrs s - 1)\<rparr>)"
  have qq: "queue_ok ?h ?msq (pre @ post)" by (rule queue_frame [OF new(1)]) (simp_all add: ts)
  have "layout ?s (L(?q := pre @ post))"
  proof (rule layout_replace [OF L, of _ _ "Some ?msq"])
    have "distinct (pre @ n # post)" using q by (simp add: queue_ok_def)
    moreover have "set (pre @ n # post) \<subseteq> dom (msgs s)" using layout_dom [OF L, of _ ?q] xs by auto
    ultimately show "dom ?h = dom (msgs s) - set (L ?q) \<union> set (pre @ post)"
      using link_taken_frame(2) [OF q] unfolding new(2) xs by auto
    show "set (pre @ post) \<inter> set (L r) = {}" if "r \<noteq> ?q" for r
    proof -
      have "set (L ?q) \<inter> set (L r) = {}" using L that by (simp add: layout_def)
      then show ?thesis by (auto simp: xs)
    qed
    show "?h b = msgs s b" if "b \<notin> set (L ?q) \<union> set (pre @ post)" for b
      using link_taken_frame(3) [OF q, of b] that xs by (simp add: new(2))
  qed (use qq in \<open>simp_all add: holds_put\<close>)
  moreover have "table_ok ?s W" by (rule table_same [of s]) (use inv m in \<open>auto simp: msg_inv_def\<close>)
  moreover have "wwait msq' = wwait msq" "rwait msq' = rwait msq" using u unlink_msg_spec [OF q] by auto
  then have "waits_ok ?s W" using inv m
    by (auto simp: msg_inv_def writers_on_def readers_on_def intro!: waits_same [of s W ?s])
  ultimately have "msg_inv ?s W" using inv by (auto simp: msg_inv_def)
  then show ?thesis using inv nm u by (simp add: msgrcv_take_def Let_def)
qed

section \<open>Changes of the table\<close>

lemma table_used:
  assumes "table_ok s W" "j < 128" "msgque s ! j = Ident q"
  shows "j \<le> max_msqid s" "queues s q \<noteq> None" "number (frees q) W = 0"
    "\<And>i. i < 128 \<Longrightarrow> msgque s ! i = Ident q \<Longrightarrow> i = j"
  using assms unfolding table_ok_def by blast+

lemma table_counts:
  assumes "table_ok s W"
  shows "number (news j) W = (if j < 128 \<and> msgque s ! j = IPC_NOID then 1 else 0)"
    "number (frees q) W = (if queues s q \<noteq> None \<and> (\<forall>j < 128. msgque s ! j \<noteq> Ident q) then 1 else 0)"
    "length (msgque s) = 128" "max_msqid s < 128"
  using assms unfolding table_ok_def by blast+

lemma table_reserve:
  assumes t: "table_ok s W" and i: "i < 128" "msgque s ! i = IPC_UNUSED"
  shows "table_ok (s\<lparr>msgque := (msgque s)[i := IPC_NOID]\<rparr>) (add_mset (NewAlloc c i) W)"
proof -
  note tc = table_counts [OF t]
  have nth: "(msgque s)[i := IPC_NOID] ! j = (if j = i then IPC_NOID else msgque s ! j)" if "j < 128" for j
    using that tc(3) by (simp add: nth_list_update)
  have "((msgque s)[i := IPC_NOID] ! j = Ident q) = (msgque s ! j = Ident q)" if "j < 128" for j q
    using i that by (simp add: nth)
  then have keep: "(\<forall>j < 128. (msgque s)[i := IPC_NOID] ! j \<noteq> Ident q) = (\<forall>j < 128. msgque s ! j \<noteq> Ident q)" for q
    by simp
  show ?thesis
    unfolding table_ok_def
  proof (intro conjI allI impI)
    fix j q assume "j < 128" "msgque (s\<lparr>msgque := (msgque s)[i := IPC_NOID]\<rparr>) ! j = Ident q"
    then have j: "j < 128" "msgque s ! j = Ident q" by (auto simp: nth split: if_splits)
    from table_used [OF t j] show "j \<le> max_msqid (s\<lparr>msgque := (msgque s)[i := IPC_NOID]\<rparr>)"
      "queues (s\<lparr>msgque := (msgque s)[i := IPC_NOID]\<rparr>) q \<noteq> None" "number (frees q) (add_mset (NewAlloc c i) W) = 0"
      by simp_all
  next
    fix j k q assume "j < 128" "k < 128" "msgque (s\<lparr>msgque := (msgque s)[i := IPC_NOID]\<rparr>) ! j = Ident q \<and>
      msgque (s\<lparr>msgque := (msgque s)[i := IPC_NOID]\<rparr>) ! k = Ident q"
    then show "j = k" using table_used(4) [OF t, of k q j] by (auto simp: nth split: if_splits)
  next
    fix j show "number (news j) (add_mset (NewAlloc c i) W) =
      (if j < 128 \<and> msgque (s\<lparr>msgque := (msgque s)[i := IPC_NOID]\<rparr>) ! j = IPC_NOID then 1 else 0)"
      using tc(1) [of j] i by (auto simp: nth)
  qed (use tc keep in simp_all)
qed

lemma inv_reserve:
  assumes "msg_inv s W" "first_unused (msgque s) 0 = Some i"
  shows "msg_inv (s\<lparr>msgque := (msgque s)[i := IPC_NOID]\<rparr>) (add_mset (NewAlloc c i) W)"
proof -
  have t: "table_ok s W" using assms(1) by (simp add: msg_inv_def)
  then have i: "i < 128" "msgque s ! i = IPC_UNUSED"
    using first_unused_range [OF assms(2)] table_counts(3) [OF t] by auto
  let ?s = "s\<lparr>msgque := (msgque s)[i := IPC_NOID]\<rparr>"
  have "waits_ok ?s (add_mset (NewAlloc c i) W)" using assms(1) by (simp add: msg_inv_def waits_ok_def on_same [of ?s s])
  moreover have "\<exists>L. layout ?s L" using assms(1) layout_same [of s _ ?s] by (auto simp: msg_inv_def)
  ultimately show ?thesis using assms(1) table_reserve [OF t i] by (simp add: msg_inv_def)
qed

lemma table_unreserve:
  assumes t: "table_ok s (add_mset (NewAlloc c i) W)"
  shows "table_ok (s\<lparr>msgque := (msgque s)[i := IPC_UNUSED]\<rparr>) W" "i < 128" "msgque s ! i = IPC_NOID"
    "\<And>j. number (news j) W = (if j < 128 \<and> j \<noteq> i \<and> msgque s ! j = IPC_NOID then 1 else 0)"
proof -
  note tc = table_counts [OF t]
  from tc(1) [of i] show i: "i < 128" "msgque s ! i = IPC_NOID" by (auto split: if_splits)
  show n: "number (news j) W = (if j < 128 \<and> j \<noteq> i \<and> msgque s ! j = IPC_NOID then 1 else 0)" for j
    using tc(1) [of j] i by (auto split: if_splits)
  have nth: "(msgque s)[i := IPC_UNUSED] ! j = (if j = i then IPC_UNUSED else msgque s ! j)" if "j < 128" for j
    using that tc(3) by (simp add: nth_list_update)
  have same: "((msgque s)[i := IPC_UNUSED] ! j = Ident q) = (msgque s ! j = Ident q)" if "j < 128" for j q
    using i that by (simp add: nth)
  show "table_ok (s\<lparr>msgque := (msgque s)[i := IPC_UNUSED]\<rparr>) W"
    unfolding table_ok_def
  proof (intro conjI allI impI)
    fix j q assume "j < 128" "msgque (s\<lparr>msgque := (msgque s)[i := IPC_UNUSED]\<rparr>) ! j = Ident q"
    then have j: "j < 128" "msgque s ! j = Ident q" by (simp_all add: same)
    from table_used [OF t j] show "j \<le> max_msqid (s\<lparr>msgque := (msgque s)[i := IPC_UNUSED]\<rparr>)"
      "queues (s\<lparr>msgque := (msgque s)[i := IPC_UNUSED]\<rparr>) q \<noteq> None" "number (frees q) W = 0"
      by simp_all
  next
    fix j k q assume "j < 128" "k < 128" "msgque (s\<lparr>msgque := (msgque s)[i := IPC_UNUSED]\<rparr>) ! j = Ident q \<and>
      msgque (s\<lparr>msgque := (msgque s)[i := IPC_UNUSED]\<rparr>) ! k = Ident q"
    then show "j = k" using table_used(4) [OF t, of k q j] by (simp add: same)
  next
    fix j show "number (news j) W =
      (if j < 128 \<and> msgque (s\<lparr>msgque := (msgque s)[i := IPC_UNUSED]\<rparr>) ! j = IPC_NOID then 1 else 0)"
      by (simp add: n nth)
  next
    fix q show "number (frees q) W = (if queues (s\<lparr>msgque := (msgque s)[i := IPC_UNUSED]\<rparr>) q \<noteq> None \<and>
      (\<forall>j < 128. msgque (s\<lparr>msgque := (msgque s)[i := IPC_UNUSED]\<rparr>) ! j \<noteq> Ident q) then 1 else 0)"
      using tc(2) [of q] by (simp add: same)
  qed (use tc in simp_all)
qed

lemma inv_unreserve:
  assumes "msg_inv s (add_mset (NewAlloc c i) W)"
  shows "msg_inv (s\<lparr>msgque := (msgque s)[i := IPC_UNUSED]\<rparr>) W"
proof -
  let ?s = "s\<lparr>msgque := (msgque s)[i := IPC_UNUSED]\<rparr>"
  have "waits_ok ?s W" using assms(1) by (simp add: msg_inv_def waits_ok_def on_same [of ?s s])
  moreover have "\<exists>L. layout ?s L" using assms(1) layout_same [of s _ ?s] by (auto simp: msg_inv_def)
  ultimately show ?thesis using assms(1) table_unreserve(1) [of s c i W] by (simp add: msg_inv_def)
qed

lemma inv_new:
  assumes inv: "msg_inv s (add_mset (NewAlloc c i) W)" and fresh: "queues s q = None"
    and m: "msg_first m = None" "msg_last m = None" "wwait m = 0" "rwait m = 0" "msg_qnum m = 0" "msg_cbytes m = 0"
    and s': "msgque s' = (msgque s)[i := Ident q]" "max_msqid s' = max i (max_msqid s)" "queues s' = (queues s)(q \<mapsto> m)"
      "msgs s' = msgs s"
  shows "msg_inv s' W"
proof -
  have t: "table_ok s (add_mset (NewAlloc c i) W)" using inv by (simp add: msg_inv_def)
  note tc = table_counts [OF t] and tu = table_unreserve(2,3,4) [OF t]
  have nth: "msgque s' ! j = (if j = i then Ident q else msgque s ! j)" if "j < 128" for j
    using that tc(3) s'(1) by (simp add: nth_list_update)
  have unused: "msgque s ! j \<noteq> Ident q" if "j < 128" for j using table_used(2) [OF t that] fresh by blast
  have "table_ok s' W"
    unfolding table_ok_def
  proof (intro conjI allI impI)
    fix j r assume j: "j < 128" "msgque s' ! j = Ident r"
    show "j \<le> max_msqid s'" "queues s' r \<noteq> None" "number (frees r) W = 0"
      using j table_used(1-3) [OF t j(1), of r] s'(2,3) tc(2) [of q] fresh by (auto simp: nth split: if_splits)
  next
    fix j k r assume "j < 128" "k < 128" "msgque s' ! j = Ident r \<and> msgque s' ! k = Ident r"
    then show "j = k" using table_used(4) [OF t, of k r j] unused by (auto simp: nth split: if_splits)
  next
    fix j show "number (news j) W = (if j < 128 \<and> msgque s' ! j = IPC_NOID then 1 else 0)"
      by (simp add: tu(3) nth)
  next
    fix r
    have "(\<forall>j < 128. msgque s' ! j \<noteq> Ident r) = ((\<forall>j < 128. msgque s ! j \<noteq> Ident r) \<and> r \<noteq> q)"
    proof -
      have "(msgque s' ! j = Ident r) = (msgque s ! j = Ident r \<or> j = i \<and> r = q)" if "j < 128" for j
        using tu(2) that by (auto simp: nth)
      then show ?thesis using tu(1) by blast
    qed
    then show "number (frees r) W = (if queues s' r \<noteq> None \<and> (\<forall>j < 128. msgque s' ! j \<noteq> Ident r) then 1 else 0)"
      using tc(2) [of r] fresh s'(3) by simp
  qed (use tc tu(1) s' in auto)
  moreover have "waits_ok s' W"
    using inv m(3,4) s'(3) fresh by (auto simp: msg_inv_def waits_ok_def writers_on_def readers_on_def)
  moreover obtain L where L: "layout s L" using inv by (auto simp: msg_inv_def)
  have "holds s q (L q)" using L by (simp add: layout_def)
  then have "L q = []" using fresh by (simp add: holds_def)
  then have "layout s' (L(q := []))"
    using L s'(3,4) m by (intro layout_replace [OF L]) (auto simp: holds_def queue_ok_def u16_id)
  ultimately show ?thesis using inv by (auto simp: msg_inv_def)
qed

section \<open>Removing a queue\<close>

lemma table_remove:
  assumes t: "table_ok s W" and i: "i < 128" "msgque s ! i = Ident q"
    and mx: "(if i = max_msqid s then lower_max (msgque s) (max_msqid s) else Some (max_msqid s)) = Some mx"
    and s': "msgque s' = (msgque s)[i := IPC_UNUSED]" "max_msqid s' = mx" "\<And>r. (queues s' r = None) = (queues s r = None)"
  shows "table_ok s' (add_mset (Freeing q) W)"
proof -
  note tc = table_counts [OF t]
  have nth: "msgque s' ! j = (if j = i then IPC_UNUSED else msgque s ! j)" if "j < 128" for j
    using that tc(3) s'(1) by (simp add: nth_list_update)
  have mx': "mx < 128 \<and> (\<forall>j < 128. \<forall>r. j \<noteq> i \<and> msgque s ! j = Ident r \<longrightarrow> j \<le> mx)"
  proof (cases "i = max_msqid s")
    case False
    then show ?thesis using mx tc(4) table_used(1) [OF t] by auto
  next
    case True
    have "max_msqid s \<le> length (msgque s)" using tc(3,4) by simp
    from lower_max_spec [OF this] obtain n where n: "lower_max (msgque s) (max_msqid s) = Some n" "n \<le> max_msqid s"
      "\<forall>j. n < j \<and> j < max_msqid s \<longrightarrow> msgque s ! j = IPC_UNUSED" by blast
    with mx True have "mx = n" by simp
    moreover have "j \<le> n" if "j < 128" "j \<noteq> i" "msgque s ! j = Ident r" for j r
    proof (rule ccontr)
      assume "\<not> j \<le> n"
      moreover have "j < max_msqid s" using table_used(1) [OF t that(1,3)] that(2) True by simp
      ultimately have "msgque s ! j = IPC_UNUSED" using n(3) by simp
      with that(3) show False by simp
    qed
    ultimately show ?thesis using n(2) tc(4) by auto
  qed
  have only: "msgque s ! j \<noteq> Ident q" if "j < 128" "j \<noteq> i" for j using table_used(4) [OF t i that(1)] that(2) by blast
  show ?thesis
    unfolding table_ok_def
  proof (intro conjI allI impI)
    fix j r assume j: "j < 128" "msgque s' ! j = Ident r"
    then have k: "j \<noteq> i" "msgque s ! j = Ident r" by (auto simp: nth split: if_splits)
    show "j \<le> max_msqid s'" "queues s' r \<noteq> None" "number (frees r) (add_mset (Freeing q) W) = 0"
      using k table_used(1-3) [OF t j(1) k(2)] s'(2,3) mx' j(1) only by (auto split: if_splits)
  next
    fix j k r assume "j < 128" "k < 128" "msgque s' ! j = Ident r \<and> msgque s' ! k = Ident r"
    then show "j = k" using table_used(4) [OF t, of k r j] by (auto simp: nth split: if_splits)
  next
    fix j show "number (news j) (add_mset (Freeing q) W) = (if j < 128 \<and> msgque s' ! j = IPC_NOID then 1 else 0)"
      using tc(1) [of j] i by (auto simp: nth)
  next
    fix r
    have "(\<forall>j < 128. msgque s' ! j \<noteq> Ident r) = (r = q \<or> (\<forall>j < 128. msgque s ! j \<noteq> Ident r))"
      using i only by (auto simp: nth) (metis ipc_slot.inject)
    then show "number (frees r) (add_mset (Freeing q) W) =
      (if queues s' r \<noteq> None \<and> (\<forall>j < 128. msgque s' ! j \<noteq> Ident r) then 1 else 0)"
      using tc(2) [of r] s'(3) [of r] table_used(2,3) [OF t i] by (auto split: if_splits)
  qed (use tc s' mx' in auto)
qed

lemma inv_free_end:
  assumes inv: "msg_inv s (add_mset (Freeing q) W)"
  shows "snd (freeque_wait s q) \<noteq> Fault \<and> msg_inv (fst (freeque_wait s q)) (asleep (snd (freeque_wait s q)) + W)"
proof -
  have t: "table_ok s (add_mset (Freeing q) W)" using inv by (simp add: msg_inv_def)
  note tc = table_counts [OF t]
  from tc(2) [of q] obtain m where m: "queues s q = Some m" and un: "\<And>j. j < 128 \<Longrightarrow> msgque s ! j \<noteq> Ident q"
    and last: "number (frees q) W = 0" by (auto split: if_splits)
  obtain L where L: "layout s L" using inv by (auto simp: msg_inv_def)
  have q: "queue_ok (msgs s) m (L q)" using L m by (simp add: layout_def flip: holds_queue)
  show ?thesis
  proof (cases "rwait m \<noteq> 0 \<or> wwait m \<noteq> 0")
    case True
    with m inv show ?thesis by (simp add: freeque_wait_def)
  next
    case False
    obtain hdrs where f: "free_msgs (msgs s) (msghdrs s) (msg_first m) = Some (msgs s |` (- set (L q)), hdrs)"
      using free_msgs_spec [of "msgs s" "msg_first m" "L q"] q unfolding queue_ok_def by blast
    let ?s = "s\<lparr>msgs := msgs s |` (- set (L q)), msghdrs := hdrs, queues := (queues s)(q := None)\<rparr>"
    have r: "freeque_wait s q = (?s, Ret Zero)" using m False f by (simp add: freeque_wait_def)
    have "layout ?s (L(q := []))"
      by (rule layout_replace [OF L, of ?s q None "msgs s |` (- set (L q))" "[]"])
        (auto simp: holds_def restrict_map_def split: if_splits)
    moreover have "table_ok ?s W"
      unfolding table_ok_def
    proof (intro conjI allI impI)
      fix j r assume j: "j < 128" "msgque ?s ! j = Ident r"
      then have "r \<noteq> q" using un by auto
      with j table_used(1-3) [OF t j(1), of r] show "j \<le> max_msqid ?s" "queues ?s r \<noteq> None" "number (frees r) W = 0" by auto
    next
      fix j k r assume "j < 128" "k < 128" "msgque ?s ! j = Ident r \<and> msgque ?s ! k = Ident r"
      then show "j = k" using table_used(4) [OF t, of k r j] by simp
    next
      fix j show "number (news j) W = (if j < 128 \<and> msgque ?s ! j = IPC_NOID then 1 else 0)" using tc(1) [of j] by simp
    next
      fix r show "number (frees r) W = (if queues ?s r \<noteq> None \<and> (\<forall>j < 128. msgque ?s ! j \<noteq> Ident r) then 1 else 0)"
        using tc(2) [of r] last by (cases "r = q") simp_all
    qed (use tc in simp_all)
    moreover have "waits_ok ?s W"
      using inv False m by (auto simp: msg_inv_def waits_ok_def writers_on_def readers_on_def split: if_splits)
    ultimately have "msg_inv ?s W" using inv by (auto simp: msg_inv_def)
    then show ?thesis by (simp add: r)
  qed
qed

section \<open>Every run keeps it\<close>

definition keeps :: "msg_wait multiset \<Rightarrow> msg_run \<Rightarrow> bool" where
  "keeps W r \<longleftrightarrow> snd r \<noteq> Fault \<and> msg_inv (fst r) (asleep (snd r) + W)"

lemma keeps_same: "msg_inv s W \<Longrightarrow> keeps W (s, Err e)" "msg_inv s W \<Longrightarrow> keeps W (s, Ret x)"
  by (simp_all add: keeps_def)

lemma keeps_put:
  assumes "msg_inv s W" "queues s q = Some m" "same_queue m m'" "wwait m' = wwait m" "rwait m' = rwait m"
  shows "keeps W (put_queue q m' s, Ret x)"
proof -
  have "number (onw q) W = wwait m" "number (onr q) W = rwait m"
    using inv_waits [OF assms(1), of q] assms(2) by (simp_all add: writers_on_def readers_on_def)
  then have "msg_inv (put_queue q m' s) W"
    using inv_sane [OF assms(1)] assms(4,5) by (intro inv_put [OF assms(1-3)]) simp_all
  then show ?thesis by (simp add: keeps_def)
qed

lemma slept_keeps:
  assumes "msg_inv s W" "queues s (sn_msq c) = Some m" "sane (SndWait c)"
  shows "keeps W (msgsnd_slept cur s c)"
  using assms inv_sleep_w [OF assms] inv_free_sleeper [of "SndAlloc c" s W]
  by (simp add: msgsnd_slept_def keeps_def)

lemma alloc_keeps:
  assumes "msg_inv s (add_mset (SndAlloc c) W)" "fresh_mem s mem" "count_room s (SndAlloc c)"
    and "snd (msgsnd_alloc cur now s c mem) \<noteq> Fault"
  shows "keeps W (msgsnd_alloc cur now s c mem)"
proof -
  have inv: "msg_inv s W" and sane: "sane (SndAlloc c)" using assms(1) by (simp_all add: inv_free_sleeper)
  show ?thesis
  proof (cases mem)
    case (Some a)
    then have a: "msgs s a = None" using assms(2) by (simp add: fresh_mem_def)
    show ?thesis
    proof (cases "queues s (sn_msq c)")
      case None
      with assms(4) inv Some show ?thesis by (auto simp: msgsnd_alloc_def keeps_same split: option.splits ipc_slot.splits)
    next
      case m: (Some msq)
      have "msg_qnum msq < 65535" using assms(3) m by (simp add: count_room_def)
      then have "keeps W (msgsnd_store cur now s c msq a)" using inv_store [OF inv m a _ sane] by (simp add: keeps_def)
      with assms(4) inv Some m show ?thesis by (auto simp: msgsnd_alloc_def keeps_same split: option.splits ipc_slot.splits)
    qed
  qed (use inv in \<open>simp add: msgsnd_alloc_def keeps_same\<close>)
qed

lemma round_keeps:
  assumes inv: "msg_inv s W" and m: "queues s (rc_msq c) = Some m"
  shows "keeps W (msgrcv_round cur now s c)"
proof -
  obtain L where L: "layout s L" using inv by (auto simp: msg_inv_def)
  have q: "queue_ok (msgs s) m (L (rc_msq c))" using L m by (simp add: layout_def flip: holds_queue)
  note find = find_msg_spec [OF q, of "rc_typ c" "rc_flg c"]
  consider (none) "find_msg (msgs s) m (rc_typ c) (rc_flg c) = Some None"
    | (some) n pre post where "find_msg (msgs s) m (rc_typ c) (rc_flg c) = Some (Some n)" "L (rc_msq c) = pre @ n # post"
    using find by (auto split: option.splits)
  then show ?thesis
  proof cases
    case none
    then show ?thesis using inv m inv_sleep_r [OF inv m] by (simp add: msgrcv_round_def keeps_def)
  next
    case some
    have "keeps W (msgrcv_take cur now s c m n)"
      using inv_take [OF inv m L some(2), of cur now] by (auto simp: keeps_def msgrcv_take_def Let_def split: option.splits if_splits)
    then show ?thesis using inv m some(1) by (simp add: msgrcv_round_def keeps_same)
  qed
qed

lemma newque_keeps: "msg_inv s W \<Longrightarrow> keeps W (newque s c)"
  using inv_reserve [of s W _ c] by (auto simp: newque_def keeps_def split: option.split)

lemma newque_alloc_keeps:
  assumes "msg_inv s (add_mset (NewAlloc c i) W)" "fresh_mem s mem"
  shows "keeps W (newque_alloc cur now s c i mem)"
proof (cases mem)
  case None
  then show ?thesis using inv_unreserve [OF assms(1)] by (simp add: newque_alloc_def keeps_def)
next
  case (Some q)
  then have fresh: "queues s q = None" using assms(2) by (simp add: fresh_mem_def)
  have "msg_inv (fst (newque_alloc cur now s c i mem)) W"
    by (rule inv_new [OF assms(1) fresh, of "new_msqid cur now s c"])
      (simp_all add: Some newque_alloc_def new_msqid_def max_def)
  then show ?thesis using Some by (simp add: keeps_def newque_alloc_def)
qed

lemma findkey_ok:
  assumes "msg_inv s W"
  shows "case findkey s k i of
      Ret (Some j) \<Rightarrow> j < 128 \<and> (\<exists>q m. msgque s ! j = Ident q \<and> queues s q = Some m \<and> key (msg_perm m) = k)
    | Ret None \<Rightarrow> True | Sleep j \<Rightarrow> j < 128 | _ \<Rightarrow> False"
proof -
  have t: "table_ok s W" using assms by (simp add: msg_inv_def)
  note tc = table_counts(3,4) [OF t]
  have used: "queues s q \<noteq> None" if "j \<le> max_msqid s" "msgque s ! j = Ident q" for j q
    using table_used(2) [OF t _ that(2)] that(1) tc by linarith
  show ?thesis
    using findkey_from_spec [where max_id = "max_msqid s" and tab = "msgque s" and key_at = "key_at s" and k = k and i = i] tc used unfolding findkey_def
    by (fastforce simp: key_at_def split: outcome.splits option.splits)
qed

lemma msgget_keeps:
  assumes "msg_inv s W"
  shows "keeps W (msgget_find cur s c i)"
proof -
  have len: "length (msgque s) = 128" using assms by (simp add: msg_inv_def table_ok_def)
  show ?thesis
    using findkey_ok [OF assms, of "gt_key c" i] assms newque_keeps [OF assms] len inv_free_sleeper [of "FindKey c _" s W]
    by (auto simp: msgget_find_def msgget_found_def aget_def keeps_same keeps_def split: outcome.splits option.splits if_splits)
qed

lemma slot_of_used:
  assumes "msg_inv s W" "slot_of s msqid = Some (Ident q)"
  shows "\<exists>m. queues s q = Some m" "nat (msqid mod 128) < 128" "msgque s ! nat (msqid mod 128) = Ident q"
proof -
  have t: "table_ok s W" using assms(1) by (simp add: msg_inv_def)
  show i: "nat (msqid mod 128) < 128" by (simp add: nat_less_iff)
  show j: "msgque s ! nat (msqid mod 128) = Ident q" using assms(2) by (simp add: slot_of_def aget_Some_iff)
  show "\<exists>m. queues s q = Some m" using table_used(2) [OF t i j] by blast
qed

lemma slot_of_some: "msg_inv s W \<Longrightarrow> \<exists>sl. slot_of s msqid = Some sl"
  by (simp add: slot_of_def aget_def msg_inv_def table_ok_def)

lemma freeque_keeps:
  assumes inv: "msg_inv s W" and i: "i < 128" "msgque s ! i = Ident q"
  shows "keeps W (freeque s i)"
proof -
  have t: "table_ok s W" using inv by (simp add: msg_inv_def)
  note tc = table_counts(3,4) [OF t]
  obtain m where m: "queues s q = Some m" using table_used(2) [OF t i] by blast
  obtain mx where mx: "(if i = max_msqid s then lower_max (msgque s) (max_msqid s) else Some (max_msqid s)) = Some mx"
  proof -
    obtain n where "lower_max (msgque s) (max_msqid s) = Some n" using lower_max_spec [of "max_msqid s" "msgque s"] tc by auto
    then show ?thesis by (cases "i = max_msqid s") (auto intro: that)
  qed
  let ?m = "m\<lparr>msg_perm := (msg_perm m)\<lparr>seq := u16 (seq (msg_perm m) + 1)\<rparr>\<rparr>"
  let ?s = "put_queue q ?m (s\<lparr>msg_seq := u16 (msg_seq s + 1), msgbytes := s32 (msgbytes s - msg_cbytes m), max_msqid := mx,
                       msgque := (msgque s)[i := IPC_UNUSED], used_queues := s32 (used_queues s - 1)\<rparr>)"
  have r: "freeque s i = freeque_wait ?s q" using i m mx tc by (simp add: freeque_def aget_def)
  have "table_ok ?s (add_mset (Freeing q) W)" by (rule table_remove [OF t i mx]) (use m in auto)
  moreover have "waits_ok ?s (add_mset (Freeing q) W)"
    using inv m by (auto simp: msg_inv_def waits_ok_def writers_on_def readers_on_def)
  moreover obtain L where L: "layout s L" using inv by (auto simp: msg_inv_def)
  have "layout (put_queue q ?m s) L" by (rule layout_put [OF L m]) (simp add: same_queue_def)
  then have "layout ?s L" by (rule layout_same) simp_all
  ultimately have "msg_inv ?s (add_mset (Freeing q) W)" using inv by (auto simp: msg_inv_def)
  from inv_free_end [OF this] show ?thesis by (simp add: r keeps_def)
qed

lemma msgctl_queue_keeps:
  assumes inv: "msg_inv s W" and b: "cmd = 1 \<Longrightarrow> buf \<noteq> None"
  shows "keeps W (msgctl_queue cur now s msqid cmd buf)"
proof -
  obtain sl where sl: "slot_of s msqid = Some sl" using slot_of_some [OF inv] by blast
  show ?thesis
  proof (cases sl)
    case (Ident q)
    note used = slot_of_used [OF inv sl [unfolded Ident]]
    from used(1) obtain m where m: "queues s q = Some m" by blast
    note free = freeque_keeps [OF inv used(2,3)]
    have "keeps W (put_queue q (m\<lparr>msg_qbytes := a, msg_perm := p, msg_ctime := now\<rparr>) s, Ret Zero)" for a p
      by (rule keeps_put [OF inv m]) (simp_all add: same_queue_def)
    then show ?thesis using sl Ident m free b inv by (auto simp: msgctl_queue_def keeps_same Let_def split: option.split)
  qed (use sl inv in \<open>simp_all add: msgctl_queue_def keeps_same\<close>)
qed

lemma msg_enter_keeps:
  assumes inv: "msg_inv s W"
  shows "keeps W (msg_enter cur now s c)"
proof (cases c)
  case (CSnd msqid msgp sz flg)
  obtain sl where sl: "slot_of s msqid = Some sl" using slot_of_some [OF inv] by blast
  have "keeps W (msgsnd_slept cur s d)" if "sl = Ident (sn_msq d)" "sane (SndWait d)" for d
    using slept_keeps [OF inv _ that(2)] slot_of_used(1) [OF inv sl [unfolded that(1)]] by blast
  then show ?thesis using CSnd sl inv
    by (auto simp: sys_msgsnd_def keeps_same split: option.split ipc_slot.split)
next
  case (CRcv msqid msgp sz ty flg)
  obtain sl where sl: "slot_of s msqid = Some sl" using slot_of_some [OF inv] by blast
  have "keeps W (msgrcv_round cur now s d)" if "sl = Ident (rc_msq d)" for d
    using round_keeps [OF inv] slot_of_used(1) [OF inv sl [unfolded that]] by blast
  then show ?thesis using CRcv sl inv by (auto simp: sys_msgrcv_def keeps_same split: option.split ipc_slot.split)
next
  case (CGet k flg)
  then show ?thesis using newque_keeps [OF inv] msgget_keeps [OF inv] by (simp add: sys_msgget_def)
next
  case (CCtl msqid cmd buf)
  have stat: "\<exists>sl. aget (msgque s) msqid = Some sl \<and> (\<forall>q. sl = Ident q \<longrightarrow> queues s q \<noteq> None)"
    if "0 \<le> msqid" "msqid \<le> int (max_msqid s)"
  proof -
    have t: "table_ok s W" using inv by (simp add: msg_inv_def)
    then have "nat msqid < 128" "int (max_msqid s) < 128" "length (msgque s) = 128" using that table_counts(3,4) [OF t] by auto
    then show ?thesis using that table_used(2) [OF t, of "nat msqid"] by (auto simp: aget_def)
  qed
  show ?thesis
  proof (cases "cmd = 11 \<and> 0 \<le> msqid \<and> msqid \<le> int (max_msqid s)")
    case True
    then obtain sl where "aget (msgque s) msqid = Some sl" "\<forall>q. sl = Ident q \<longrightarrow> queues s q \<noteq> None" using stat by blast
    with True inv CCtl show ?thesis
      by (cases sl) (auto simp: sys_msgctl_def keeps_same split: option.split)
  next
    case False
    then show ?thesis using CCtl inv msgctl_queue_keeps [OF inv]
      by (auto simp: sys_msgctl_def keeps_same split: option.split)
  qed
qed

lemma msg_resume_keeps:
  assumes inv: "msg_inv s (add_mset p W)" and mem: "fresh_mem s mem" and room: "count_room s p"
    and nf: "\<And>c. p = SndAlloc c \<Longrightarrow> snd (msg_resume cur now mem s p) \<noteq> Fault"
  shows "keeps W (msg_resume cur now mem s p)"
proof (cases p)
  case (SndWait c)
  have sane: "sane (SndWait c)" using inv_sane [OF inv, of p] SndWait by simp
  obtain m where "leave (\<lambda>q. q\<lparr>wwait := wwait q - 1\<rparr>) (sn_msq c) s = Some (put_queue (sn_msq c) (m\<lparr>wwait := wwait m - 1\<rparr>) s)"
    "msg_inv (put_queue (sn_msq c) (m\<lparr>wwait := wwait m - 1\<rparr>) s) W"
    using inv_leave_w [of s c W] inv SndWait by blast
  with slept_keeps [OF this(2) _ sane] SndWait show ?thesis by simp
next
  case (RcvWait c)
  obtain m where "leave (\<lambda>q. q\<lparr>rwait := rwait q - 1\<rparr>) (rc_msq c) s = Some (put_queue (rc_msq c) (m\<lparr>rwait := rwait m - 1\<rparr>) s)"
    "msg_inv (put_queue (rc_msq c) (m\<lparr>rwait := rwait m - 1\<rparr>) s) W"
    using inv_leave_r [of s c W] inv RcvWait by blast
  with round_keeps [OF this(2)] RcvWait show ?thesis by simp
next
  case (SndAlloc c)
  then show ?thesis using alloc_keeps [of s c W mem] inv mem room nf by simp
next
  case (FindKey c i)
  then show ?thesis using msgget_keeps [of s W] inv by (simp add: inv_free_sleeper)
next
  case (NewAlloc c i)
  then show ?thesis using newque_alloc_keeps inv mem by simp
next
  case (Freeing q)
  then show ?thesis using inv_free_end [of s q W] inv by (simp add: keeps_def)
qed

interpretation msg_system: run_system msg_enters msg_resumes msg_inv
  by unfold_locales
    (auto simp: msg_enters_def msg_resumes_def keeps_def dest: msg_enter_keeps msg_resume_keeps)

definition msg_start :: "msg_sys \<Rightarrow> (msg_sys, msg_wait) world" where
  "msg_start s = \<lparr>kern = (msg_init s)\<lparr>queues := Map.empty, msgs := Map.empty\<rparr>, sleepers = {#}\<rparr>"

lemma msg_start_inv: "msg_inv (kern (msg_start s)) (sleepers (msg_start s))"
proof -
  have "layout (kern (msg_start s)) (\<lambda>_. [])" by (simp add: layout_def holds_def msg_start_def)
  then show ?thesis
    by (auto simp: msg_inv_def table_ok_def waits_ok_def msg_start_def msg_init_def MNI_def writers_on_def readers_on_def)
qed

lemma msg_reachable_inv: "msg_step\<^sup>*\<^sup>* (msg_start s) w \<Longrightarrow> msg_inv (kern w) (sleepers w)"
  by (rule msg_system.reachable_keeps [OF _ msg_start_inv])

section \<open>Identifiers\<close>

definition seq_at :: "msg_sys \<Rightarrow> qaddr \<Rightarrow> int option" where
  "seq_at s q = map_option (\<lambda>m. seq (msg_perm m)) (queues s q)"

definition msg_ids :: "msg_sys \<Rightarrow> id_table" where
  "msg_ids s = \<lparr>next_seq = msg_seq s,
     entry_seq = (\<lambda>i. if i < 128 then (case msgque s ! i of Ident q \<Rightarrow> seq_at s q | _ \<Rightarrow> None) else None)\<rparr>"

text \<open>Runs that leave the identifiers alone.\<close>

definition quiet :: "msg_sys \<Rightarrow> msg_sys \<Rightarrow> bool" where
  "quiet s s' \<longleftrightarrow> msgque s' = msgque s \<and> msg_seq s' = msg_seq s \<and> (\<forall>q. queues s q \<noteq> None \<longrightarrow> seq_at s' q = seq_at s q)"

lemma quiet_refl [simp]: "quiet s s"
  by (simp add: quiet_def)

lemma quiet_put: "queues s q = Some m \<Longrightarrow> seq (msg_perm m') = seq (msg_perm m) \<Longrightarrow> quiet s (put_queue q m' s)"
  by (auto simp: quiet_def seq_at_def)

lemma quiet_trans: "quiet s t \<Longrightarrow> quiet t u \<Longrightarrow> (\<And>q. queues s q \<noteq> None \<Longrightarrow> queues t q \<noteq> None) \<Longrightarrow> quiet s u"
  by (simp add: quiet_def)

lemma quiet_ids:
  assumes "msg_inv s W" "quiet s s'"
  shows "msg_ids s' = msg_ids s"
proof -
  have t: "table_ok s W" using assms(1) by (simp add: msg_inv_def)
  have "(case msgque s ! i of Ident q \<Rightarrow> seq_at s' q | _ \<Rightarrow> None) = (case msgque s ! i of Ident q \<Rightarrow> seq_at s q | _ \<Rightarrow> None)"
    if "i < 128" for i
    using table_used(2) [OF t that] assms(2) by (auto simp: quiet_def split: ipc_slot.split)
  with assms(2) show ?thesis by (auto simp: msg_ids_def quiet_def)
qed

lemma slept_quiet: "quiet s (fst (msgsnd_slept cur s c))"
  by (auto simp: msgsnd_slept_def intro: quiet_put split: option.split)

lemma append_perm: "append_msg h m a = Some (h', m') \<Longrightarrow> msg_perm m' = msg_perm m"
  by (auto simp: append_msg_def split: if_splits bind_splits)

lemma alloc_quiet: "quiet s (fst (msgsnd_alloc cur now s c mem))"
proof -
  have "quiet s (fst (msgsnd_store cur now s c m a))" if "queues s (sn_msq c) = Some m" for m a
    using that append_perm
    by (auto simp: msgsnd_store_def Let_def quiet_def seq_at_def split: option.split)
  then show ?thesis by (auto simp: msgsnd_alloc_def split: option.split ipc_slot.split)
qed

lemma unlink_perm: "unlink_msg h m a = Some (h', m') \<Longrightarrow> msg_perm m' = msg_perm m"
  by (auto simp: unlink_msg_def Let_def split: if_splits bind_splits)

lemma round_quiet: "quiet s (fst (msgrcv_round cur now s c))"
proof -
  have "quiet s (fst (msgrcv_take cur now s c m a))" if "queues s (rc_msq c) = Some m" for m a
    using that unlink_perm
    by (auto simp: msgrcv_take_def Let_def quiet_def seq_at_def split: option.split)
  then show ?thesis by (auto simp: msgrcv_round_def intro: quiet_put split: option.split)
qed

end
