(* ===== verification/Msg_Props.thy ===== *)
theory Msg_Props
  imports Msg_Inv
begin

text \<open>
  The properties of message queues: the identifiers refine the specification of Ipc_Util, a receive
  takes the message it should, messages come out as they went in, keys are found, and the calls
  touch no freed memory, with one exception that the last trace reaches.
\<close>

section \<open>Identifiers\<close>

lemma entry_seq_ids: "entry_seq (msg_ids s) i = (if i < 128 then (case msgque s ! i of Ident q \<Rightarrow> seq_at s q | _ \<Rightarrow> None) else None)"
  by (simp add: msg_ids_def)

lemma reserve_ids:
  assumes "msg_inv s W"
  shows "msg_ids (fst (newque s c)) = msg_ids s"
proof (cases "first_unused (msgque s) 0")
  case (Some i)
  have "length (msgque s) = 128" using assms by (simp add: msg_inv_def table_ok_def)
  then have i: "i < 128" "msgque s ! i = IPC_UNUSED" using first_unused_range [OF Some] by simp_all
  then show ?thesis using Some \<open>length (msgque s) = 128\<close>
    by (auto simp: newque_def msg_ids_def fun_eq_iff nth_list_update seq_at_def split: ipc_slot.split)
qed (simp add: newque_def)

lemma new_ids:
  assumes inv: "msg_inv s (add_mset (NewAlloc c i) W)" and mem: "fresh_mem s mem"
  shows "id_step (msg_ids s) (msg_ids (fst (newque_alloc cur now s c i mem)))"
proof -
  have t: "table_ok s (add_mset (NewAlloc c i) W)" using inv by (simp add: msg_inv_def)
  note i = table_unreserve(2,3) [OF t] and len = table_counts(3) [OF t]
  show ?thesis
  proof (cases mem)
    case None
    then have "msg_ids (fst (newque_alloc cur now s c i mem)) = msg_ids s"
      using i len by (auto simp: newque_alloc_def msg_ids_def fun_eq_iff nth_list_update seq_at_def split: ipc_slot.split)
    then show ?thesis by (simp add: id_keep)
  next
    case (Some q)
    then have fresh: "queues s q = None" using mem by (simp add: fresh_mem_def)
    let ?s = "fst (newque_alloc cur now s c i mem)"
    have "entry_seq (msg_ids ?s) j = ((entry_seq (msg_ids s))(i \<mapsto> msg_seq s)) j" for j
      using i len Some table_used(2) [OF t, of j q] fresh
      by (auto simp: entry_seq_ids newque_alloc_def nth_list_update seq_at_def new_msqid_def split: ipc_slot.split)
    then have "msg_ids ?s = (msg_ids s)\<lparr>entry_seq := (entry_seq (msg_ids s))(i \<mapsto> next_seq (msg_ids s))\<rparr>"
      using Some by (intro id_table.equality) (auto simp: msg_ids_def newque_alloc_def)
    moreover have "entry_seq (msg_ids s) i = None" using i by (simp add: entry_seq_ids)
    ultimately show ?thesis using id_create by simp
  qed
qed

lemma freeque_wait_fields:
  "msgque (fst (freeque_wait s q)) = msgque s" "msg_seq (fst (freeque_wait s q)) = msg_seq s"
  "r \<noteq> q \<Longrightarrow> queues (fst (freeque_wait s q)) r = queues s r"
  by (auto simp: freeque_wait_def split: option.split)

lemma freeing_ids:
  assumes "msg_inv s (add_mset (Freeing q) W)"
  shows "msg_ids (fst (freeque_wait s q)) = msg_ids s"
proof -
  have t: "table_ok s (add_mset (Freeing q) W)" using assms by (simp add: msg_inv_def)
  have "msgque s ! j \<noteq> Ident q" if "j < 128" for j using table_counts(2) [OF t, of q] that by (auto split: if_splits)
  then have "entry_seq (msg_ids (fst (freeque_wait s q))) j = entry_seq (msg_ids s) j" for j
    by (auto simp: entry_seq_ids freeque_wait_fields(1,2) seq_at_def split: ipc_slot.split) (metis freeque_wait_fields(3))
  then show ?thesis by (intro id_table.equality) (auto simp: msg_ids_def freeque_wait_fields)
qed

lemma freeque_ids:
  assumes inv: "msg_inv s W" and i: "i < 128" "msgque s ! i = Ident q"
  shows "id_step (msg_ids s) (msg_ids (fst (freeque s i)))"
proof -
  have t: "table_ok s W" using inv by (simp add: msg_inv_def)
  note len = table_counts(3) [OF t]
  obtain m where m: "queues s q = Some m" using table_used(2) [OF t i] by blast
  have nf: "snd (freeque s i) \<noteq> Fault" using freeque_keeps [OF inv i] by (simp add: keeps_def)
  have f: "msgque (fst (freeque s i)) = (msgque s)[i := IPC_UNUSED]" "msg_seq (fst (freeque s i)) = u16 (msg_seq s + 1)"
    "\<And>r. r \<noteq> q \<Longrightarrow> queues (fst (freeque s i)) r = queues s r"
    using nf i len m by (auto simp: freeque_def aget_def freeque_wait_fields split: option.splits if_splits)
  have ne: "r \<noteq> q" if "msgque s ! j = Ident r" "j < 128" "j \<noteq> i" for j r using table_used(4) [OF t i, of j] that by blast
  have "entry_seq (msg_ids (fst (freeque s i))) j = ((entry_seq (msg_ids s))(i := None)) j" for j
  proof (cases "j = i")
    case True
    then show ?thesis using i len by (simp add: entry_seq_ids f(1))
  next
    case False
    then show ?thesis using f(3) [OF ne, of j] by (auto simp: entry_seq_ids f(1) seq_at_def split: ipc_slot.split)
  qed
  then have "msg_ids (fst (freeque s i)) =
      (msg_ids s)\<lparr>next_seq := u16 (next_seq (msg_ids s) + 1), entry_seq := (entry_seq (msg_ids s))(i := None)\<rparr>"
    by (intro id_table.equality) (auto simp: msg_ids_def f)
  moreover have "entry_seq (msg_ids s) i = Some (seq (msg_perm m))" using i m by (simp add: entry_seq_ids seq_at_def)
  ultimately show ?thesis using id_remove by metis
qed

lemma quiet_id_step: "msg_inv s W \<Longrightarrow> quiet s s' \<Longrightarrow> id_step (msg_ids s) (msg_ids s')"
  using quiet_ids id_keep by metis

lemma msgget_ids:
  assumes "msg_inv s W"
  shows "id_step (msg_ids s) (msg_ids (fst (msgget_find cur s c i)))"
proof -
  have "fst (msgget_find cur s c i) = s \<or> fst (msgget_find cur s c i) = fst (newque s c)"
    by (auto simp: msgget_find_def msgget_found_def split: outcome.split option.split ipc_slot.split)
  then show ?thesis using reserve_ids [OF assms] id_keep by metis
qed

lemma msgctl_queue_ids:
  assumes "msg_inv s W"
  shows "id_step (msg_ids s) (msg_ids (fst (msgctl_queue cur now s msqid cmd buf)))"
proof -
  have "quiet s (fst (msgctl_queue cur now s msqid cmd buf)) \<or>
    (\<exists>q. slot_of s msqid = Some (Ident q) \<and> msgctl_queue cur now s msqid cmd buf = freeque s (nat (msqid mod 128)))"
    by (auto simp: msgctl_queue_def Let_def set_perm_def intro!: quiet_put split: option.split ipc_slot.split)
  then show ?thesis
    using quiet_id_step [OF assms] freeque_ids [OF assms] slot_of_used [OF assms] by metis
qed

lemma enter_ids:
  assumes inv: "msg_inv s W"
  shows "id_step (msg_ids s) (msg_ids (fst (msg_enter cur now s c)))"
proof (cases c)
  case (CSnd msqid msgp sz flg)
  have "quiet s (fst (msg_enter cur now s c))"
    using CSnd slept_quiet by (auto simp: sys_msgsnd_def split: option.split ipc_slot.split)
  then show ?thesis by (rule quiet_id_step [OF inv])
next
  case (CRcv msqid msgp sz ty flg)
  have "quiet s (fst (msg_enter cur now s c))"
    using CRcv round_quiet by (auto simp: sys_msgrcv_def split: option.split ipc_slot.split)
  then show ?thesis by (rule quiet_id_step [OF inv])
next
  case (CGet k flg)
  then show ?thesis using reserve_ids [OF inv] msgget_ids [OF inv] by (simp add: sys_msgget_def id_keep)
next
  case (CCtl msqid cmd buf)
  have "fst (msg_enter cur now s c) = s \<or> fst (msg_enter cur now s c) = fst (msgctl_queue cur now s msqid cmd buf)"
    using CCtl by (auto simp: sys_msgctl_def split: option.split ipc_slot.split)
  then show ?thesis using msgctl_queue_ids [OF inv] id_keep by metis
qed

lemma resume_ids:
  assumes inv: "msg_inv s (add_mset p W)" and mem: "fresh_mem s mem"
  shows "id_step (msg_ids s) (msg_ids (fst (msg_resume cur now mem s p)))"
proof (cases p)
  case (SndWait c)
  then obtain m where m: "leave (\<lambda>q. q\<lparr>wwait := wwait q - 1\<rparr>) (sn_msq c) s = Some (put_queue (sn_msq c) (m\<lparr>wwait := wwait m - 1\<rparr>) s)"
    "queues s (sn_msq c) = Some m" using inv_leave_w [of s c W] inv by blast
  have "quiet s (fst (msg_resume cur now mem s p))"
    using m SndWait by (auto intro!: quiet_trans [OF quiet_put slept_quiet])
  then show ?thesis by (rule quiet_id_step [OF inv])
next
  case (RcvWait c)
  then obtain m where m: "leave (\<lambda>q. q\<lparr>rwait := rwait q - 1\<rparr>) (rc_msq c) s = Some (put_queue (rc_msq c) (m\<lparr>rwait := rwait m - 1\<rparr>) s)"
    "queues s (rc_msq c) = Some m" using inv_leave_r [of s c W] inv by blast
  have "quiet s (fst (msg_resume cur now mem s p))"
    using m RcvWait by (auto intro!: quiet_trans [OF quiet_put round_quiet])
  then show ?thesis by (rule quiet_id_step [OF inv])
next
  case (SndAlloc c)
  then show ?thesis using quiet_id_step [OF inv alloc_quiet] by simp
next
  case (FindKey c i)
  then show ?thesis using msgget_ids [OF inv] by simp
next
  case (NewAlloc c i)
  then show ?thesis using new_ids inv mem by simp
next
  case (Freeing q)
  then show ?thesis using freeing_ids [of s q W] inv by (simp add: id_keep)
qed

definition msg_run :: "(msg_sys, msg_wait) world \<Rightarrow> (msg_sys, msg_wait) world \<Rightarrow> bool" where
  "msg_run w w' \<longleftrightarrow> msg_inv (kern w) (sleepers w) \<and> msg_step w w'"

interpretation msg_idents: ident_table msg_run "\<lambda>w. msg_ids (kern w)"
proof
  fix w w' assume "msg_run w w'"
  then have inv: "msg_inv (kern w) (sleepers w)" and "msg_step w w'" by (simp_all add: msg_run_def)
  from this(2) show "id_step (msg_ids (kern w)) (msg_ids (kern w'))"
    by (cases rule: run_step.cases)
      (use inv enter_ids resume_ids in \<open>auto simp: after_run_def msg_enters_def msg_resumes_def\<close>)
qed

lemma new_identifier_named:
  assumes inv: "msg_inv s (add_mset (NewAlloc c i) W)" and mem: "fresh_mem s (Some q)" and sq: "0 \<le> msg_seq s" "msg_seq s < 65536"
    and r: "msg_resume cur now (Some q) s (NewAlloc c i) = (s', Ret (Got ident))"
  shows "ids_name (msg_ids s') ident" "ident div 128 = next_seq (msg_ids s')" "next_seq (msg_ids s') < 65536"
proof -
  have t: "table_ok s (add_mset (NewAlloc c i) W)" using inv by (simp add: msg_inv_def)
  note i = table_unreserve(2,3) [OF t] and len = table_counts(3) [OF t]
  have id: "ident = msg_seq s * 128 + int i" using r by (simp add: newque_alloc_def)
  then have d: "ident div 128 = msg_seq s" "nat (ident mod 128) = i" "0 \<le> ident" using i sq by simp_all
  have s': "msg_seq s' = msg_seq s" "msgque s' = (msgque s)[i := Ident q]" "seq_at s' q = Some (msg_seq s)"
    using r by (auto simp: newque_alloc_def seq_at_def new_msqid_def)
  then show "ident div 128 = next_seq (msg_ids s')" "next_seq (msg_ids s') < 65536" using d sq by (simp_all add: msg_ids_def)
  show "ids_name (msg_ids s') ident" using d s' i len by (simp add: ids_name_def entry_seq_ids)
qed

text \<open>A call is turned away when it fails and changes nothing.\<close>

definition turned_away :: "msg_sys \<Rightarrow> msg_run \<Rightarrow> bool" where
  "turned_away s r \<longleftrightarrow> fst r = s \<and> (\<exists>e. snd r = Err e)"

lemma not_named_slot:
  assumes "msg_inv s W" "0 \<le> ident" "\<not> ids_name (msg_ids s) ident"
  shows "slot_of s ident \<in> {Some IPC_UNUSED, Some IPC_NOID} \<or>
    (\<exists>q m. slot_of s ident = Some (Ident q) \<and> queues s q = Some m \<and> seq (msg_perm m) \<noteq> ident div 128)"
proof -
  obtain sl where sl: "slot_of s ident = Some sl" using slot_of_some [OF assms(1)] by blast
  show ?thesis
  proof (cases sl)
    case (Ident q)
    note u = slot_of_used [OF assms(1) sl [unfolded Ident]]
    from u(1) obtain m where m: "queues s q = Some m" by blast
    with assms(2,3) u sl Ident show ?thesis by (auto simp: ids_name_def entry_seq_ids seq_at_def)
  qed (use sl in auto)
qed

lemma not_named_turned_away:
  assumes inv: "msg_inv s W" and id: "0 \<le> ident" "\<not> ids_name (msg_ids s) ident"
  shows "turned_away s (sys_msgsnd cur s ident msgp sz flg)"
    "turned_away s (sys_msgrcv cur now s ident rbuf sz typ' flg)"
    "cmd \<in> {0, 1, 2} \<Longrightarrow> turned_away s (sys_msgctl cur now s ident cmd buf)"
  using not_named_slot [OF assms]
  by (auto simp: sys_msgsnd_def sys_msgrcv_def sys_msgctl_def msgctl_queue_def msgsnd_slept_def msgrcv_round_def
    turned_away_def Let_def split: option.split)

lemma msg_seq_range: "msg_step\<^sup>*\<^sup>* (msg_start s) w \<Longrightarrow> 0 \<le> msg_seq (kern w) \<and> msg_seq (kern w) < 65536"
proof (induction rule: rtranclp_induct)
  case base
  then show ?case by (simp add: msg_start_def msg_init_def)
next
  case (step y z)
  then have "msg_run y z" using msg_reachable_inv by (simp add: msg_run_def)
  from msg_idents.refines [OF this] have "next_seq (msg_ids (kern z)) \<in> {next_seq (msg_ids (kern y)), u16 (next_seq (msg_ids (kern y)) + 1)}"
    by (cases rule: id_step.cases) simp_all
  with step.IH show ?case by (auto simp: msg_ids_def)
qed

section \<open>Receiving\<close>

text \<open>The messages of a queue, as a user sees them.\<close>

definition message :: "mheap \<Rightarrow> maddr \<Rightarrow> int \<times> 8 word list" where
  "message h a = (mtype h a, mtext h a)"

lemma round_takes:
  assumes m: "queues s (rc_msq c) = Some m" and q: "queue_ok (msgs s) m xs"
    and r: "msgrcv_round cur now s c = (s', Ret (Received n ty tx))"
  shows "\<exists>pre a post m'. xs = pre @ a # post \<and> picks (rc_typ c) (rc_flg c) (mtype (msgs s)) pre a post \<and>
    ty = mtype (msgs s) a \<and> n = min (rc_sz c) (msize (msgs s) a) \<and> tx = take (nat n) (mtext (msgs s) a) \<and>
    (msize (msgs s) a \<le> rc_sz c \<or> has_flag (rc_flg c) MSG_NOERROR) \<and>
    queues s' (rc_msq c) = Some m' \<and> queue_ok (msgs s') m' (pre @ post) \<and>
    map (message (msgs s')) (pre @ post) = map (message (msgs s)) (pre @ post)"
proof -
  obtain a where f: "find_msg (msgs s) m (rc_typ c) (rc_flg c) = Some (Some a)"
    and take: "msgrcv_take cur now s c m a = (s', Ret (Received n ty tx))"
    using r m by (auto simp: msgrcv_round_def split: option.splits if_splits)
  from find_msg_spec [OF q, of "rc_typ c" "rc_flg c"] f obtain pre post where
    xs: "xs = pre @ a # post" "picks (rc_typ c) (rc_flg c) (mtype (msgs s)) pre a post" by auto
  obtain h' m' where u: "unlink_msg (msgs s) m a = Some (h', m')" using unlink_msg_spec q xs(1) by blast
  note new = taken_queue [OF q [unfolded xs(1)] u]
  obtain nm where nm: "msgs s a = Some nm" "body (msgs s) a = (msg_type nm, msg_spot nm, msg_ts nm)"
    using seg_dom [of "msgs s" "msg_first m" xs None a] q xs(1) by (auto simp: queue_ok_def body_def)
  have same: "message (h'(a := None)) b = message (msgs s) b" if "b \<in> set (pre @ post)" for b
  proof -
    have "b \<noteq> a" using q xs(1) that by (auto simp: queue_ok_def)
    then show ?thesis using link_taken_frame(1) [OF q [unfolded xs(1)]] new(2) by (simp add: message_def)
  qed
  let ?m = "m'\<lparr>msg_rtime := now, msg_lrpid := u16 (pid cur), msg_cbytes := u16 (msg_cbytes m' - msg_ts nm)\<rparr>"
  have ok: "queue_ok (h'(a := None)) ?m (pre @ post)" by (rule queue_frame [OF new(1)]) (use nm in simp_all)
  have out: "ty = mtype (msgs s) a" "n = min (rc_sz c) (msize (msgs s) a)" "tx = take (nat n) (mtext (msgs s) a)"
    "msize (msgs s) a \<le> rc_sz c \<or> has_flag (rc_flg c) MSG_NOERROR" "queues s' (rc_msq c) = Some ?m" "msgs s' = h'(a := None)"
    using take nm u by (auto simp: msgrcv_take_def Let_def min_def split: if_splits)
  have "map (message (msgs s')) (pre @ post) = map (message (msgs s)) (pre @ post)" using same out(6) by simp
  with xs out ok show ?thesis by (metis (no_types))
qed

lemma round_blocked:
  assumes m: "queues s (rc_msq c) = Some m" and q: "queue_ok (msgs s) m xs"
    and r: "snd (msgrcv_round cur now s c) \<in> {Err ENOMSG, Err EINTR, Sleep (RcvWait c)}"
  shows "\<forall>a \<in> set xs. \<not> wanted (rc_typ c) (rc_flg c) (mtype (msgs s) a)"
proof -
  have "snd (msgrcv_take cur now s c m a) \<notin> {Err ENOMSG, Err EINTR, Sleep (RcvWait c)}" for a
    by (auto simp: msgrcv_take_def Let_def split: option.splits)
  then have "find_msg (msgs s) m (rc_typ c) (rc_flg c) = Some None"
    using r m by (auto simp: msgrcv_round_def split: option.splits if_splits)
  then show ?thesis using find_msg_spec [OF q, of "rc_typ c" "rc_flg c"] by simp
qed

lemma store_effect:
  assumes m: "queues s (sn_msq c) = Some m" "queue_ok (msgs s) m xs" "length xs < 65535" and a: "msgs s a = None"
    and sz: "0 \<le> sn_sz c" "sn_sz c \<le> MSGMAX"
  shows "\<exists>s' m'. msgsnd_store cur now s c m a = (s', Ret (Sent (sn_sz c))) \<and> queues s' (sn_msq c) = Some m' \<and>
    queue_ok (msgs s') m' (xs @ [a]) \<and> msg_perm m' = msg_perm m \<and>
    body (msgs s') a = (sn_type c, take (nat (sn_sz c)) (sn_text c), sn_sz c) \<and> (\<forall>b \<in> set xs. body (msgs s') b = body (msgs s) b)"
proof -
  let ?m = "\<lparr>msg_next = None, msg_type = sn_type c, msg_spot = take (nat (sn_sz c)) (sn_text c), msg_ts = s16 (sn_sz c)\<rparr>"
  obtain h' m' where ap: "append_msg ((msgs s)(a \<mapsto> ?m)) m a = Some (h', m')"
    by (rule append_msg_spec [OF m(2) a, of ?m]) auto
  note new = append_msg_queue [OF m(2) a _ m(3) ap]
  have ts: "s16 (sn_sz c) = sn_sz c" using sz by (simp add: s16_id MSGMAX_def)
  let ?m' = "m'\<lparr>msg_cbytes := u16 (msg_cbytes m' + sn_sz c), msg_qnum := u16 (msg_qnum m' + 1),
                     msg_lspid := u16 (pid cur), msg_stime := now\<rparr>"
  have "queue_ok h' ?m' (xs @ [a])" by (rule queue_frame [OF new(1)]) (simp_all add: ts)
  moreover have "body h' b = body (msgs s) b" if "b \<in> set xs" for b
  proof -
    have "b \<noteq> a" using seg_dom [of "msgs s" "msg_first m" xs None b] m(2) that a by (auto simp: queue_ok_def)
    then show ?thesis by (simp add: new(2))
  qed
  moreover have "body h' a = (sn_type c, take (nat (sn_sz c)) (sn_text c), sn_sz c)" by (simp add: new(2) body_def ts)
  ultimately show ?thesis using ap append_perm [OF ap] by (simp add: msgsnd_store_def)
qed

lemma round_only_wanted:
  assumes m: "queues s (rc_msq c) = Some m" "queue_ok (msgs s) m (xs @ [a])"
    and p: "seq (msg_perm m) = rc_msqid c div 128" "ipcperms cur (msg_perm m) S_IRUGO = 0"
    and t: "0 < rc_typ c" "\<not> has_flag (rc_flg c) MSG_EXCEPT" "mtype (msgs s) a = rc_typ c" "\<forall>b \<in> set xs. mtype (msgs s) b \<noteq> rc_typ c"
    and sz: "msize (msgs s) a \<le> rc_sz c"
  shows "\<exists>s' m'. msgrcv_round cur now s c = (s', Ret (Received (msize (msgs s) a) (rc_typ c) (take (nat (msize (msgs s) a)) (mtext (msgs s) a)))) \<and>
    queues s' (rc_msq c) = Some m' \<and> queue_ok (msgs s') m' xs"
proof -
  have w: "wanted (rc_typ c) (rc_flg c) x \<longleftrightarrow> x = rc_typ c" for x using t by (simp add: wanted_def)
  have "find_msg (msgs s) m (rc_typ c) (rc_flg c) \<noteq> Some None"
    using find_msg_spec [OF m(2), of "rc_typ c" "rc_flg c"] t(3) by (auto simp: w split: option.splits)
  then obtain n pre post where f: "find_msg (msgs s) m (rc_typ c) (rc_flg c) = Some (Some n)" and
    xs: "xs @ [a] = pre @ n # post" and pk: "picks (rc_typ c) (rc_flg c) (mtype (msgs s)) pre n post"
    using find_msg_spec [OF m(2), of "rc_typ c" "rc_flg c"] by (auto split: option.splits)
  have "mtype (msgs s) n = rc_typ c" using pk by (simp add: picks_def w)
  then have "n = a" "post = []" "pre = xs" using xs t(4) by (cases post rule: rev_cases; auto)+
  obtain h' m' where u: "unlink_msg (msgs s) m a = Some (h', m')" using unlink_msg_spec m(2) by blast
  obtain nm where nm: "msgs s a = Some nm" "body (msgs s) a = (msg_type nm, msg_spot nm, msg_ts nm)"
    using seg_dom [of "msgs s" "msg_first m" "xs @ [a]" None a] m(2) by (auto simp: queue_ok_def body_def)
  let ?m = "m'\<lparr>msg_rtime := now, msg_lrpid := u16 (pid cur), msg_cbytes := u16 (msg_cbytes m' - msg_ts nm)\<rparr>"
  have "queue_ok (h'(a := None)) ?m (xs @ [])" by (rule queue_frame [OF taken_queue(1) [OF m(2) u]]) (use nm in simp_all)
  then show ?thesis using m(1) p f \<open>n = a\<close> nm u sz t(3)
    by (auto simp: msgrcv_round_def msgrcv_take_def Let_def)
qed



section \<open>Traces\<close>

definition root :: task where
  "root = \<lparr>pid = 1, euid = 0, egid = 0, groups = [], signal = 0, blocked = 0\<rparr>"

definition msys0 :: msg_sys where
  "msys0 = \<lparr>msgque = [], queues = Map.empty, msgs = Map.empty, msgbytes = 0, msghdrs = 0, msg_seq = 0, used_queues = 0, max_msqid = 0\<rparr>"

definition tr1 :: msg_run where "tr1 = msg_enter root 0 (kern (msg_start msys0)) (CGet 5 512)"
definition tr2 :: msg_run where "tr2 = msg_resume root 0 (Some 1) (fst tr1) (NewAlloc \<lparr>gt_key = 5, gt_flg = 512\<rparr> 0)"
definition tr3 :: msg_run where
  "tr3 = msg_enter root 0 (fst tr2) (CSnd 0 (Some \<lparr>um_verify = None, um_type = 1, um_text = []\<rparr>) 0 0)"
definition sender :: snd_call where
  "sender = \<lparr>sn_msqid = 0, sn_msq = 1, sn_sz = 0, sn_type = 1, sn_text = [], sn_flg = 0\<rparr>"
definition tr4 :: msg_run where "tr4 = msg_enter root 0 (fst tr3) (CCtl 0 0 None)"
definition tr5 :: msg_run where "tr5 = msg_enter root 0 (fst tr4) (CGet 6 512)"
definition tr6 :: msg_run where "tr6 = msg_resume root 0 (Some 2) (fst tr5) (NewAlloc \<lparr>gt_key = 6, gt_flg = 512\<rparr> 0)"

lemma tr1: "snd tr1 = Sleep (NewAlloc \<lparr>gt_key = 5, gt_flg = 512\<rparr> 0)" by code_simp
lemma tr2: "snd tr2 = Ret (Got 0)" by code_simp
lemma tr3: "snd tr3 = Sleep (SndAlloc sender)" by code_simp
lemma tr4: "snd tr4 = Ret Zero" by code_simp
lemma tr5: "snd tr5 = Sleep (NewAlloc \<lparr>gt_key = 6, gt_flg = 512\<rparr> 0)" by code_simp
lemma tr6: "snd tr6 = Ret (Got 128)" by code_simp
lemma tr7: "snd (msg_resume root 0 (Some 3) (fst tr6) (SndAlloc sender)) = Fault" by code_simp

lemma fresh_tr: "fresh_mem (fst tr1) (Some 1)" "fresh_mem (fst tr5) (Some 2)" "fresh_mem (fst tr6) (Some 3)"
  "count_room (fst tr6) (SndAlloc sender)" by code_simp+

lemma step_enter:
  assumes "msg_step\<^sup>*\<^sup>* w0 \<lparr>kern = s, sleepers = W\<rparr>" "snd (msg_enter cur now s c) \<noteq> Fault"
  shows "msg_step\<^sup>*\<^sup>* w0 \<lparr>kern = fst (msg_enter cur now s c), sleepers = asleep (snd (msg_enter cur now s c)) + W\<rparr>"
  using call_enters [of msg_enters "\<lparr>kern = s, sleepers = W\<rparr>" "msg_enter cur now s c" msg_resumes] assms(2)
  by (intro rtranclp.rtrancl_into_rtrancl [OF assms(1)]) (auto simp: msg_enters_def after_run_def)

lemma step_resume:
  assumes "msg_step\<^sup>*\<^sup>* w0 \<lparr>kern = s, sleepers = add_mset p W\<rparr>" "fresh_mem s mem" "count_room s p" "snd (msg_resume cur now mem s p) \<noteq> Fault"
  shows "msg_step\<^sup>*\<^sup>* w0 \<lparr>kern = fst (msg_resume cur now mem s p), sleepers = asleep (snd (msg_resume cur now mem s p)) + W\<rparr>"
  using call_resumes [of "\<lparr>kern = s, sleepers = add_mset p W\<rparr>" p W msg_resumes "msg_resume cur now mem s p" msg_enters] assms(2-4)
  by (intro rtranclp.rtrancl_into_rtrancl [OF assms(1)]) (auto simp: msg_resumes_def after_run_def)

lemma tr_reach:
  "msg_step\<^sup>*\<^sup>* (msg_start msys0) \<lparr>kern = fst tr1, sleepers = {#NewAlloc \<lparr>gt_key = 5, gt_flg = 512\<rparr> 0#}\<rparr>"
  "msg_step\<^sup>*\<^sup>* (msg_start msys0) \<lparr>kern = fst tr2, sleepers = {#}\<rparr>"
  "msg_step\<^sup>*\<^sup>* (msg_start msys0) \<lparr>kern = fst tr3, sleepers = {#SndAlloc sender#}\<rparr>"
  "msg_step\<^sup>*\<^sup>* (msg_start msys0) \<lparr>kern = fst tr4, sleepers = {#SndAlloc sender#}\<rparr>"
  "msg_step\<^sup>*\<^sup>* (msg_start msys0) \<lparr>kern = fst tr6, sleepers = {#SndAlloc sender#}\<rparr>"
proof -
  have "msg_step\<^sup>*\<^sup>* (msg_start msys0) \<lparr>kern = kern (msg_start msys0), sleepers = {#}\<rparr>" by (simp add: msg_start_def)
  note step_enter [OF this, of root 0 "CGet 5 512", folded tr1_def, unfolded tr1]
  then show 1: "msg_step\<^sup>*\<^sup>* (msg_start msys0) \<lparr>kern = fst tr1, sleepers = {#NewAlloc \<lparr>gt_key = 5, gt_flg = 512\<rparr> 0#}\<rparr>" by simp
  note step_resume [OF this fresh_tr(1), of root 0, folded tr2_def, unfolded tr2]
  then show 2: "msg_step\<^sup>*\<^sup>* (msg_start msys0) \<lparr>kern = fst tr2, sleepers = {#}\<rparr>" by (simp add: count_room_def)
  note step_enter [OF this, of root 0 "CSnd 0 (Some \<lparr>um_verify = None, um_type = 1, um_text = []\<rparr>) 0 0", folded tr3_def, unfolded tr3]
  then show 3: "msg_step\<^sup>*\<^sup>* (msg_start msys0) \<lparr>kern = fst tr3, sleepers = {#SndAlloc sender#}\<rparr>" by simp
  note step_enter [OF this, of root 0 "CCtl 0 0 None", folded tr4_def, unfolded tr4]
  then show 4: "msg_step\<^sup>*\<^sup>* (msg_start msys0) \<lparr>kern = fst tr4, sleepers = {#SndAlloc sender#}\<rparr>" by simp
  note step_enter [OF this, of root 0 "CGet 6 512", folded tr5_def, unfolded tr5]
  then have "msg_step\<^sup>*\<^sup>* (msg_start msys0)
    \<lparr>kern = fst tr5, sleepers = add_mset (NewAlloc \<lparr>gt_key = 6, gt_flg = 512\<rparr> 0) {#SndAlloc sender#}\<rparr>"
    by (simp add: add_mset_commute)
  note step_resume [OF this fresh_tr(2), of root 0, folded tr6_def, unfolded tr6]
  then show "msg_step\<^sup>*\<^sup>* (msg_start msys0) \<lparr>kern = fst tr6, sleepers = {#SndAlloc sender#}\<rparr>" by (simp add: count_room_def)
qed

text \<open>
  C33: the wait queues do not cover a sender that sleeps in \<open>kmalloc\<close>: a reachable state has such a
  sender whose queue has been removed and freed and whose table entry is used again, and its next
  run reads the sequence number of the freed queue.
\<close>

theorem msgsnd_reads_a_freed_queue:
  "\<exists>w c. msg_step\<^sup>*\<^sup>* (msg_start msys0) w \<and> SndAlloc c \<in># sleepers w \<and> fresh_mem (kern w) (Some 3) \<and>
     queues (kern w) (sn_msq c) = None \<and> snd (msg_resume root 0 (Some 3) (kern w) (SndAlloc c)) = Fault"
proof -
  have "queues (fst tr6) (sn_msq sender) = None" by code_simp
  then show ?thesis using tr_reach(5) tr7 fresh_tr(3)
    by (intro exI [of _ "\<lparr>kern = fst tr6, sleepers = {#SndAlloc sender#}\<rparr>"] exI [of _ sender]) simp
qed



lemma moving_reachable: "moving msg_run ids n w u \<Longrightarrow> msg_step\<^sup>*\<^sup>* w u"
  by (induction rule: moving.induct) (auto simp: msg_run_def)

text \<open>
  C16: an identifier that \<open>msgget\<close> handed out for a new queue is dead for good once its queue is
  removed: until 65536 queues have been removed after its creation, every send, receive or control
  with it is turned away and changes nothing, whatever queues are made in between.
\<close>

theorem removed_msqid_stays_dead:
  assumes "msg_step\<^sup>*\<^sup>* (msg_start s) \<lparr>kern = k, sleepers = add_mset (NewAlloc c i) W\<rparr>" "fresh_mem k (Some q)"
    and "msg_resume cur now (Some q) k (NewAlloc c i) = (k', Ret (Got ident))"
    and "moving msg_run (\<lambda>w. msg_ids (kern w)) n \<lparr>kern = k', sleepers = W\<rparr> u" "\<not> ids_name (msg_ids (kern u)) ident"
    and "moving msg_run (\<lambda>w. msg_ids (kern w)) m u v" "n + m < 65536"
  shows "turned_away (kern v) (sys_msgsnd cur' (kern v) ident msgp sz flg) \<and>
    turned_away (kern v) (sys_msgrcv cur' now' (kern v) ident rbuf sz mtyp flg) \<and>
    (cmd \<in> {0, 1, 2} \<longrightarrow> turned_away (kern v) (sys_msgctl cur' now' (kern v) ident cmd buf))"
proof -
  have inv: "msg_inv k (add_mset (NewAlloc c i) W)" using msg_reachable_inv [OF assms(1)] by simp
  have sq: "0 \<le> msg_seq k" "msg_seq k < 65536" using msg_seq_range [OF assms(1)] by simp_all
  note new = new_identifier_named [OF inv assms(2) sq assms(3)]
  have "msg_step\<^sup>*\<^sup>* (msg_start s) \<lparr>kern = k', sleepers = W\<rparr>"
    using step_resume [OF assms(1,2), of cur now] assms(3) by (simp add: count_room_def)
  then have "msg_step\<^sup>*\<^sup>* (msg_start s) v" using moving_reachable [OF assms(4)] moving_reachable [OF assms(6)] by simp
  then have v: "msg_inv (kern v) (sleepers v)" by (rule msg_reachable_inv)
  have "\<not> ids_name (msg_ids (kern v)) ident"
    by (rule msg_idents.stale_identifier [OF _ _ _ assms(4-7)]) (use new in simp_all)
  moreover have "0 \<le> ident" using new(1) by (simp add: ids_name_def)
  ultimately show ?thesis using not_named_turned_away [OF v] by blast
qed

lemma removed_msqid_stays_dead_witness:
  "turned_away (fst tr4) (sys_msgsnd root (fst tr4) 0 None 0 0)"
proof -
  let ?w2 = "\<lparr>kern = fst tr2, sleepers = {#}\<rparr>" and ?w3 = "\<lparr>kern = fst tr3, sleepers = {#SndAlloc sender#}\<rparr>"
  let ?w4 = "\<lparr>kern = fst tr4, sleepers = {#SndAlloc sender#}\<rparr>"
  let ?ids = "\<lambda>w :: (msg_sys, msg_wait) world. msg_ids (kern w)"
  have sq: "msg_seq (fst tr2) = 0" "msg_seq (fst tr3) = 0" "msg_seq (fst tr4) = 1" by code_simp+
  have "msg_enters (fst tr2) tr3" "msg_enters (fst tr3) tr4" unfolding msg_enters_def tr3_def tr4_def by blast+
  then have r: "msg_run ?w2 ?w3" "msg_run ?w3 ?w4"
    using call_enters [of msg_enters ?w2 tr3 msg_resumes] call_enters [of msg_enters ?w3 tr4 msg_resumes] tr3 tr4
      msg_reachable_inv [OF tr_reach(2)] msg_reachable_inv [OF tr_reach(3)]
    by (simp_all add: msg_run_def after_run_def)
  have "moving msg_run ?ids (0 + 0) ?w2 ?w3" using moving_step [where step = msg_run and ids = ?ids and n = 0 and s = ?w2 and t = ?w2 and u = ?w3, OF moving_refl r(1)] sq by (simp add: msg_ids_def)
  from moving_step [where step = msg_run and ids = ?ids and u = ?w4, OF this r(2)] have mv: "moving msg_run ?ids 1 ?w2 ?w4" using sq by (simp add: msg_ids_def)
  have tr: "msg_resume root 0 (Some 1) (fst tr1) (NewAlloc \<lparr>gt_key = 5, gt_flg = 512\<rparr> 0) = (fst tr2, Ret (Got 0))"
    using tr2 by (simp add: tr2_def prod_eq_iff)
  have "msgque (fst tr4) ! 0 = IPC_UNUSED" by code_simp
  then have dead: "\<not> ids_name (msg_ids (kern ?w4)) 0" by (simp add: ids_name_def msg_ids_def)
  show ?thesis
    using removed_msqid_stays_dead [OF tr_reach(1) fresh_tr(1) tr mv dead moving_refl] by simp
qed

text \<open>
  C32: \<open>msgget\<close> without flags finds a queue by its key: when no queue is just being set up it returns
  the identifier of a queue with that key, fails with \<open>EACCES\<close> only for one that exists, and fails
  with \<open>ENOENT\<close> only when no queue of the whole table has the key, although it looks no further than
  \<open>max_msqid\<close>.
\<close>

theorem msgget_finds_the_key:
  assumes "msg_step\<^sup>*\<^sup>* (msg_start s) w" "IPC_NOID \<notin> set (msgque (kern w))" "k \<noteq> IPC_PRIVATE"
  shows "case snd (sys_msgget cur (kern w) k 0) of
      Ret (Got ident) \<Rightarrow> \<exists>i q m. i < 128 \<and> msgque (kern w) ! i = Ident q \<and> queues (kern w) q = Some m \<and> key (msg_perm m) = k \<and>
        ident = seq (msg_perm m) * 128 + int i
    | Err ENOENT \<Rightarrow> \<forall>i q m. i < 128 \<and> msgque (kern w) ! i = Ident q \<and> queues (kern w) q = Some m \<longrightarrow> key (msg_perm m) \<noteq> k
    | Err EACCES \<Rightarrow> \<exists>i q m. i < 128 \<and> msgque (kern w) ! i = Ident q \<and> queues (kern w) q = Some m \<and> key (msg_perm m) = k \<and>
        ipcperms cur (msg_perm m) 0 \<noteq> 0
    | _ \<Rightarrow> False"
proof -
  let ?k = "kern w"
  have t: "table_ok ?k (sleepers w)" using msg_reachable_inv [OF assms(1)] by (simp add: msg_inv_def)
  note tc = table_counts(3,4) [OF t]
  note find = findkey_from_spec [where max_id = "max_msqid ?k" and tab = "msgque ?k" and key_at = "key_at ?k" and k = k and i = 0,
    folded findkey_def]
  have used: "i \<le> max_msqid ?k \<and> queues ?k q \<noteq> None" if "i < 128" "msgque ?k ! i = Ident q" for i q
    using table_used(1,2) [OF t that] by simp
  have noid: "msgque ?k ! i \<noteq> IPC_NOID" if "i < 128" for i using assms(2) tc(1) that by (metis nth_mem)
  have get: "sys_msgget cur ?k k 0 = msgget_find cur ?k \<lparr>gt_key = k, gt_flg = 0\<rparr> 0"
    using assms(3) by (simp add: sys_msgget_def)
  have flag: "\<not> has_flag 0 f" for f by (simp add: has_flag_def)
  consider (found) j q where "findkey ?k k 0 = Ret (Some j)" "j \<le> max_msqid ?k" "msgque ?k ! j = Ident q" "key_at ?k q = Some k"
    | (none) "findkey ?k k 0 = Ret None" "\<forall>j q. j \<le> max_msqid ?k \<and> msgque ?k ! j = Ident q \<longrightarrow> key_at ?k q \<noteq> Some k"
  proof (cases "findkey ?k k 0")
    case (Ret x)
    then show ?thesis using find tc found none by (cases x) auto
  next
    case (Sleep j)
    then show ?thesis using find tc noid [of j] by simp
  next
    case Fault
    then obtain j q where "j \<le> max_msqid ?k" "msgque ?k ! j = Ident q" "key_at ?k q = None" using find tc by auto
    then show ?thesis using used [of j q] tc by (simp add: key_at_def)
  qed (use find tc in simp)
  then show ?thesis
  proof cases
    case found
    then obtain m where m: "queues ?k q = Some m" "key (msg_perm m) = k" "j < 128" using tc by (auto simp: key_at_def)
    have g: "snd (sys_msgget cur ?k k 0) = (if ipcperms cur (msg_perm m) 0 \<noteq> 0 then Err EACCES
      else Ret (Got (seq (msg_perm m) * 128 + int j)))"
      using found m tc by (simp add: get msgget_find_def msgget_found_def flag aget_def s16_def)
    show ?thesis
    proof (cases "ipcperms cur (msg_perm m) 0 = 0")
      case True
      with g found(3) m show ?thesis by (simp del: One_nat_def) blast
    next
      case False
      with g found(3) m show ?thesis by (simp del: One_nat_def) blast
    qed
  next
    case none
    have "snd (sys_msgget cur ?k k 0) = Err ENOENT" using none(1) by (simp add: get msgget_find_def flag)
    moreover have "key (msg_perm m) \<noteq> k" if "i < 128" "msgque ?k ! i = Ident q" "queues ?k q = Some m" for i q m
      using none(2) used [OF that(1,2)] that(2,3) by (auto simp: key_at_def)
    ultimately show ?thesis by auto
  qed
qed

lemma msgget_finds_the_key_witness:
  "\<exists>i q m. i < 128 \<and> msgque (fst tr2) ! i = Ident q \<and> queues (fst tr2) q = Some m \<and> key (msg_perm m) = 5 \<and>
     0 = seq (msg_perm m) * 128 + int i"
proof -
  have "IPC_NOID \<notin> set (msgque (fst tr2))" "snd (sys_msgget root (fst tr2) 5 0) = Ret (Got 0)" by code_simp+
  then show ?thesis using msgget_finds_the_key [OF tr_reach(2), of 5 root] by (simp add: IPC_PRIVATE_def)
qed

definition q0 :: msqid_ds where "q0 = new_msqid root 0 msys0 \<lparr>gt_key = 5, gt_flg = 512\<rparr>"
definition one_queue :: msg_sys where "one_queue = msys0\<lparr>queues := [1 \<mapsto> q0]\<rparr>"
definition hello :: snd_call where
  "hello = \<lparr>sn_msqid = 0, sn_msq = 1, sn_sz = 3, sn_type = 7, sn_text = [1, 2, 3], sn_flg = 0\<rparr>"
definition reader :: rcv_call where
  "reader = \<lparr>rc_msqid = 0, rc_msq = 1, rc_sz = 10, rc_typ = 7, rc_flg = 0\<rparr>"

lemma one_queue_ok: "queues one_queue 1 = Some q0" "queue_ok (msgs one_queue) q0 []"
  by (simp_all add: one_queue_def queue_ok_def msys0_def q0_def new_msqid_def u16_id)



end
