(* ===== verification/Sem.thy ===== *)
theory Sem
  imports Ipc_Util "HOL-Library.Monad_Syntax"
begin

text \<open>
  ipc/sem.c: semaphore sets, with the undo structures of include/linux/sem.h.

  Sets and undo structures live in two heaps. An undo structure is on two lists, the one of its
  process (\<open>semun\<close>, linked by \<open>proc_next\<close>) and the one of its set (\<open>undo\<close>, linked by \<open>id_next\<close>); a
  list is the list of the addresses of its nodes, and both lead to the same structure in the heap.
  Freeing removes an address from its heap, and following a pointer to a freed address, or an index
  outside the semaphores of a set, is \<open>Fault\<close>. A wait queue is the number of tasks in it. A sleeper may
  run again at any time, so waking a queue changes nothing here.

  As in the theory of message queues a call is given as runs between sleeps, \<open>sem_wait\<close> names the
  places, and the answers of \<open>kmalloc\<close>, the time and user memory are arguments. A process is a number.
\<close>

section \<open>Data\<close>

type_synonym saddr = nat
type_synonym uaddr = nat
type_synonym proc = nat

record sem =
  sempid :: int
  semval :: int
  semncnt :: int
  semzcnt :: int

record semid_ds =
  sem_perm :: ipc_perm
  sem_otime :: int
  sem_ctime :: int
  sem_base :: "sem list"
  eventn :: nat
  eventz :: nat
  undo :: "uaddr list"
  sem_nsems :: int

record sem_undo =
  semid :: int
  semadj :: int
  undo_num :: int

record sembuf =
  sem_num :: int
  sem_op :: int
  sem_flg :: int

record seminfo =
  semmap :: int
  semmni :: int
  semmns :: int
  semmnu :: int
  semmsl :: int
  semopm :: int
  semume :: int
  semusz :: int
  semvmx :: int
  semaem :: int

type_synonym uheap = "uaddr \<Rightarrow> sem_undo option"

text \<open>The variables of the file, and the undo lists of the processes.\<close>

record sem_sys =
  semary :: "saddr ipc_slot list"
  sets :: "saddr \<Rightarrow> semid_ds option"
  undos :: uheap
  semun :: "proc \<Rightarrow> uaddr list"
  used_sems :: int
  used_semids :: int
  sem_seq :: int
  max_semid :: nat

definition SEMMSL :: int where "SEMMSL = 32"
definition SEMMNS :: int where "SEMMNS = 4096"
definition SEMOPM :: int where "SEMOPM = 32"
definition SEMVMX :: int where "SEMVMX = 32767"
definition SEM_UNDO :: int where "SEM_UNDO = 4096"

definition sem_init :: "sem_sys \<Rightarrow> sem_sys" where
  "sem_init s = s\<lparr>used_sems := 0, used_semids := 0, max_semid := 0, sem_seq := 0,
     semary := replicate MNI IPC_UNUSED\<rparr>"

text \<open>
  The argument of \<open>semctl\<close> in user memory: the word it points to, the answers of \<open>verify_area\<close> for
  the pointer in that word and for the argument itself, and what that pointer points to, as an
  array and as a \<open>semid_ds\<close>.
\<close>

record semctl_arg =
  ua_long :: int
  ua_verify :: "errno option"
  ua_verify_arg :: "errno option"
  ua_array :: "int list"
  ua_uid :: int
  ua_gid :: int
  ua_mode :: int

text \<open>Calls in progress.\<close>

record semop_call =
  so_proc :: proc
  so_semid :: int
  so_set :: saddr
  so_ops :: "sembuf list"
  so_ncnt :: int

record semget_call =
  sg_key :: int
  sg_nsems :: int
  sg_flg :: int

datatype sem_wait =
    OpZero semop_call int | OpIncr semop_call int
  | FindKey semget_call nat | NewAlloc semget_call nat
  | Freeing saddr | ExitIncr proc saddr

datatype sem_ret = Val int | Info seminfo int | Stat semid_ds int | All "int list" | Zero

type_synonym sem_run = "sem_sys \<times> (sem_wait, sem_ret) outcome"

definition slot_of :: "sem_sys \<Rightarrow> int \<Rightarrow> saddr ipc_slot option" where
  "slot_of s ident = aget (semary s) (ident mod 128)"

definition put_set :: "saddr \<Rightarrow> semid_ds \<Rightarrow> sem_sys \<Rightarrow> sem_sys" where
  "put_set a sma s = s\<lparr>sets := (sets s)(a \<mapsto> sma)\<rparr>"

section \<open>Creating\<close>

definition key_at :: "sem_sys \<Rightarrow> saddr \<Rightarrow> int option" where
  "key_at s a = map_option (\<lambda>sma. key (sem_perm sma)) (sets s a)"

definition findkey :: "sem_sys \<Rightarrow> int \<Rightarrow> nat \<Rightarrow> (nat, nat option) outcome" where
  "findkey s k i = findkey_from (key_at s) (semary s) (max_semid s) k i"

definition newary :: "sem_sys \<Rightarrow> semget_call \<Rightarrow> sem_run" where
  "newary s c =
     (if sg_nsems c = 0 then (s, Err EINVAL)
      else if used_sems s + sg_nsems c > SEMMNS then (s, Err ENOSPC)
      else (case first_unused (semary s) 0 of
              None \<Rightarrow> (s, Err ENOSPC)
            | Some i \<Rightarrow>
                (s\<lparr>semary := (semary s)[i := IPC_NOID], used_sems := s32 (used_sems s + sg_nsems c)\<rparr>,
                 Sleep (NewAlloc c i))))"

definition zero_sem :: sem where
  "zero_sem = \<lparr>sempid = 0, semval = 0, semncnt = 0, semzcnt = 0\<rparr>"

definition new_semid :: "task \<Rightarrow> int \<Rightarrow> sem_sys \<Rightarrow> semget_call \<Rightarrow> semid_ds" where
  "new_semid cur now s c =
     \<lparr>sem_perm = \<lparr>key = sg_key c, uid = euid cur, gid = egid cur, cuid = euid cur, cgid = egid cur,
        mode = sg_flg c AND S_IRWXUGO, seq = sem_seq s\<rparr>,
      sem_otime = 0, sem_ctime = now, sem_base = replicate (nat (sg_nsems c)) zero_sem,
      eventn = 0, eventz = 0, undo = [], sem_nsems = u16 (sg_nsems c)\<rparr>"

text \<open>From the call of \<open>kmalloc\<close> on.\<close>

definition newary_alloc :: "task \<Rightarrow> int \<Rightarrow> sem_sys \<Rightarrow> semget_call \<Rightarrow> nat \<Rightarrow> saddr option \<Rightarrow> sem_run" where
  "newary_alloc cur now s c i sma =
     (case sma of
        None \<Rightarrow> (s\<lparr>semary := (semary s)[i := IPC_UNUSED], used_sems := s32 (used_sems s - sg_nsems c)\<rparr>, Err ENOMEM)
      | Some a \<Rightarrow>
          (put_set a (new_semid cur now s c)
             (s\<lparr>max_semid := (if i > max_semid s then i else max_semid s),
                used_semids := s32 (used_semids s + 1), semary := (semary s)[i := Ident a]\<rparr>),
           Ret (Val (sem_seq s * 128 + int i))))"

definition semget_found :: "task \<Rightarrow> sem_sys \<Rightarrow> semget_call \<Rightarrow> nat \<Rightarrow> sem_run" where
  "semget_found cur s c i =
     (if has_flag (sg_flg c) IPC_CREAT \<and> has_flag (sg_flg c) IPC_EXCL then (s, Err EEXIST)
      else (case aget (semary s) (int i) of
              Some (Ident a) \<Rightarrow>
                (case sets s a of
                   None \<Rightarrow> (s, Fault)
                 | Some sma \<Rightarrow>
                     if sg_nsems c > sem_nsems sma then (s, Err EINVAL)
                     else if ipcperms cur (sem_perm sma) (s16 (sg_flg c)) \<noteq> 0 then (s, Err EACCES)
                     else (s, Ret (Val (seq (sem_perm sma) * 128 + int i))))
            | _ \<Rightarrow> (s, Fault)))"

definition semget_find :: "task \<Rightarrow> sem_sys \<Rightarrow> semget_call \<Rightarrow> nat \<Rightarrow> sem_run" where
  "semget_find cur s c i =
     (case findkey s (sg_key c) i of
        Sleep j \<Rightarrow> (s, Sleep (FindKey c j))
      | Ret None \<Rightarrow> if \<not> has_flag (sg_flg c) IPC_CREAT then (s, Err ENOENT) else newary s c
      | Ret (Some j) \<Rightarrow> semget_found cur s c j
      | Err e \<Rightarrow> (s, Err e)
      | Fault \<Rightarrow> (s, Fault))"

definition sys_semget :: "task \<Rightarrow> sem_sys \<Rightarrow> int \<Rightarrow> int \<Rightarrow> int \<Rightarrow> sem_run" where
  "sys_semget cur s k nsems semflg =
     (if nsems < 0 \<or> nsems > SEMMSL then (s, Err EINVAL)
      else (let c = \<lparr>sg_key = k, sg_nsems = nsems, sg_flg = semflg\<rparr>
            in if k = IPC_PRIVATE then newary s c else semget_find cur s c 0))"

section \<open>Removing\<close>

text \<open>\<open>un->semadj = 0\<close> for the structures of a list that \<open>P\<close> picks.\<close>

fun clear_adj :: "(sem_undo \<Rightarrow> bool) \<Rightarrow> uheap \<Rightarrow> uaddr list \<Rightarrow> uheap option" where
  "clear_adj P h [] = Some h"
| "clear_adj P h (u # us) =
     (case h u of
        None \<Rightarrow> None
      | Some un \<Rightarrow> clear_adj P (if P un then h(u \<mapsto> un\<lparr>semadj := 0\<rparr>) else h) us)"

definition freeary_wait :: "sem_sys \<Rightarrow> saddr \<Rightarrow> sem_run" where
  "freeary_wait s a =
     (case sets s a of
        None \<Rightarrow> (s, Fault)
      | Some sma \<Rightarrow>
          if eventz sma \<noteq> 0 \<or> eventn sma \<noteq> 0 then (s, Sleep (Freeing a))
          else (s\<lparr>sets := (sets s)(a := None)\<rparr>, Ret Zero))"

definition freeary :: "sem_sys \<Rightarrow> nat \<Rightarrow> sem_run" where
  "freeary s i =
     (case aget (semary s) (int i) of
        Some (Ident a) \<Rightarrow>
          (case sets s a of
             None \<Rightarrow> (s, Fault)
           | Some sma \<Rightarrow>
               (case (if i = max_semid s then lower_max (semary s) (max_semid s) else Some (max_semid s),
                      clear_adj (\<lambda>_. True) (undos s) (undo sma)) of
                  (Some max', Some h) \<Rightarrow>
                    freeary_wait
                      (put_set a (sma\<lparr>sem_perm := (sem_perm sma)\<lparr>seq := u16 (seq (sem_perm sma) + 1)\<rparr>\<rparr>)
                         (s\<lparr>sem_seq := u16 (sem_seq s + 1), used_sems := s32 (used_sems s - sem_nsems sma),
                            max_semid := max', semary := (semary s)[i := IPC_UNUSED],
                            used_semids := s32 (used_semids s - 1), undos := h\<rparr>)) a
                | _ \<Rightarrow> (s, Fault)))
      | _ \<Rightarrow> (s, Fault))"

section \<open>Operations\<close>

text \<open>The undo structure of a process for a semaphore: \<open>Some None\<close> when it has none.\<close>

fun find_undo :: "uheap \<Rightarrow> int \<Rightarrow> int \<Rightarrow> uaddr list \<Rightarrow> uaddr option option" where
  "find_undo h sid n [] = Some None"
| "find_undo h sid n (u # us) =
     (case h u of
        None \<Rightarrow> None
      | Some un \<Rightarrow> if semid un = sid \<and> undo_num un = n then Some (Some u) else find_undo h sid n us)"

text \<open>
  Every operation with \<open>SEM_UNDO\<close> gets a structure; \<open>mem\<close> are the answers of \<open>kmalloc\<close>. The flag of
  the result says whether there was memory for all.
\<close>

fun make_undos ::
  "int \<Rightarrow> sembuf list \<Rightarrow> uaddr option list \<Rightarrow> uheap \<Rightarrow> uaddr list \<Rightarrow> uaddr list \<Rightarrow>
   (bool \<times> uheap \<times> uaddr list \<times> uaddr list) option" where
  "make_undos sid [] mem h mine its = Some (True, h, mine, its)"
| "make_undos sid (op # ops) mem h mine its =
     (if \<not> has_flag (sem_flg op) SEM_UNDO then make_undos sid ops mem h mine its
      else (case find_undo h sid (sem_num op) mine of
              None \<Rightarrow> None
            | Some (Some u) \<Rightarrow> make_undos sid ops mem h mine its
            | Some None \<Rightarrow>
                (case mem of
                   Some u # mem \<Rightarrow>
                     make_undos sid ops mem (h(u \<mapsto> \<lparr>semid = sid, semadj = 0, undo_num = sem_num op\<rparr>)) (u # mine) (u # its)
                 | _ \<Rightarrow> Some (False, h, mine, its))))"

text \<open>The loop that looks whether all operations can be done. \<open>Sleep (True, n)\<close>: wait for semaphore
  \<open>n\<close> to be zero, \<open>Sleep (False, n)\<close>: to increase.\<close>

fun semop_check :: "task \<Rightarrow> sem list \<Rightarrow> sembuf list \<Rightarrow> (bool \<times> int, unit) outcome" where
  "semop_check cur base [] = Ret ()"
| "semop_check cur base (op # ops) =
     (case aget base (sem_num op) of
        None \<Rightarrow> Fault
      | Some sm \<Rightarrow>
          if sem_op op + semval sm > SEMVMX then Err ERANGE
          else if sem_op op = 0 \<and> semval sm \<noteq> 0
          then if has_flag (sem_flg op) IPC_NOWAIT then Err EAGAIN
               else if signal_pending cur then Err EINTR
               else Sleep (True, sem_num op)
          else if sem_op op + semval sm < 0
          then if has_flag (sem_flg op) IPC_NOWAIT then Err EAGAIN
               else if signal_pending cur then Err EINTR
               else Sleep (False, sem_num op)
          else semop_check cur base ops)"

text \<open>The loop that does them.\<close>

fun semop_apply :: "task \<Rightarrow> int \<Rightarrow> uaddr list \<Rightarrow> sembuf list \<Rightarrow> sem list \<Rightarrow> uheap \<Rightarrow> (sem list \<times> uheap) option" where
  "semop_apply cur sid mine [] base h = Some (base, h)"
| "semop_apply cur sid mine (op # ops) base h = do {
     sm \<leftarrow> aget base (sem_num op);
     base \<leftarrow> aset base (sem_num op) (sm\<lparr>sempid := s16 (pid cur), semval := u16 (semval sm + sem_op op)\<rparr>);
     h \<leftarrow> (if \<not> has_flag (sem_flg op) SEM_UNDO then Some h
           else do { u \<leftarrow> find_undo h sid (sem_num op) mine;
                     (case u of
                        None \<Rightarrow> Some h
                      | Some u \<Rightarrow> do { un \<leftarrow> h u; Some (h(u \<mapsto> un\<lparr>semadj := s16 (semadj un - sem_op op)\<rparr>)) }) });
     semop_apply cur sid mine ops base h }"

definition upd_sem :: "int \<Rightarrow> (sem \<Rightarrow> sem) \<Rightarrow> semid_ds \<Rightarrow> semid_ds option" where
  "upd_sem n f sma = do {
     x \<leftarrow> aget (sem_base sma) n; b \<leftarrow> aset (sem_base sma) n (f x); Some (sma\<lparr>sem_base := b\<rparr>) }"

text \<open>From the label \<open>slept\<close> on.\<close>

definition semop_slept :: "task \<Rightarrow> int \<Rightarrow> sem_sys \<Rightarrow> semop_call \<Rightarrow> sem_run" where
  "semop_slept cur now s c =
     (case sets s (so_set c) of
        None \<Rightarrow> (s, Fault)
      | Some sma \<Rightarrow>
          if seq (sem_perm sma) \<noteq> so_semid c div 128 then (s, Err EIDRM)
          else (case semop_check cur (sem_base sma) (so_ops c) of
                  Fault \<Rightarrow> (s, Fault)
                | Err e \<Rightarrow> (s, Err e)
                | Sleep (z, n) \<Rightarrow>
                    (case upd_sem n (\<lambda>x. if z then x\<lparr>semzcnt := u16 (semzcnt x + 1)\<rparr> else x\<lparr>semncnt := u16 (semncnt x + 1)\<rparr>) sma of
                       None \<Rightarrow> (s, Fault)
                     | Some sma \<Rightarrow>
                         if z then (put_set (so_set c) (sma\<lparr>eventz := eventz sma + 1\<rparr>) s, Sleep (OpZero c n))
                         else (put_set (so_set c) (sma\<lparr>eventn := eventn sma + 1\<rparr>) s, Sleep (OpIncr c n)))
                | Ret _ \<Rightarrow>
                    (case semop_apply cur (so_semid c) (semun s (so_proc c)) (so_ops c) (sem_base sma) (undos s) of
                       None \<Rightarrow> (s, Fault)
                     | Some (base, h) \<Rightarrow>
                         (case aget base (sem_num (last (so_ops c))) of
                            None \<Rightarrow> (s, Fault)
                          | Some sm \<Rightarrow>
                              (put_set (so_set c) (sma\<lparr>sem_base := base, sem_otime := now\<rparr>) (s\<lparr>undos := h\<rparr>),
                               Ret (Val (semval sm)))))))"

definition sys_semop ::
  "task \<Rightarrow> proc \<Rightarrow> int \<Rightarrow> uaddr option list \<Rightarrow> sem_sys \<Rightarrow> int \<Rightarrow> sembuf list option \<Rightarrow> int \<Rightarrow> sem_run" where
  "sys_semop cur me now mem s sid tsops nsops =
     (if nsops < 1 \<or> sid < 0 then (s, Err EINVAL)
      else if nsops > SEMOPM then (s, Err E2BIG)
      else (case tsops of
              None \<Rightarrow> (s, Err EFAULT)
            | Some ops \<Rightarrow>
                let sops = take (nat nsops) ops in
                (case slot_of s sid of
                   None \<Rightarrow> (s, Fault)
                 | Some (Ident a) \<Rightarrow>
                     (case sets s a of
                        None \<Rightarrow> (s, Fault)
                      | Some sma \<Rightarrow>
                          if list_ex (\<lambda>op. sem_num op > sem_nsems sma) sops then (s, Err EFBIG)
                          else if ipcperms cur (sem_perm sma)
                                    (if list_ex (\<lambda>op. sem_op op \<noteq> 0) sops then S_IWUGO else S_IRUGO) \<noteq> 0
                          then (s, Err EACCES)
                          else (case make_undos sid sops mem (undos s) (semun s me) (undo sma) of
                                  None \<Rightarrow> (s, Fault)
                                | Some (ok, h, mine, its) \<Rightarrow>
                                    let s = put_set a (sma\<lparr>undo := its\<rparr>) (s\<lparr>undos := h, semun := (semun s)(me := mine)\<rparr>)
                                    in if \<not> ok then (s, Err ENOMEM)
                                       else semop_slept cur now s \<lparr>so_proc = me, so_semid = sid, so_set = a, so_ops = sops,
                                              so_ncnt = int (length (filter (\<lambda>op. sem_op op > 0) sops))\<rparr>))
                 | Some _ \<Rightarrow> (s, Err EINVAL))))"

section \<open>Exit of a process\<close>

text \<open>The rest of the loop body after the structure has been handled: \<open>*up = u->proc_next, kfree(u)\<close>.\<close>

definition exit_next :: "proc \<Rightarrow> uaddr \<Rightarrow> uaddr list \<Rightarrow> sem_sys \<Rightarrow> sem_sys" where
  "exit_next me u us s = s\<lparr>undos := (undos s)(u := None), semun := (semun s)(me := us)\<rparr>"

text \<open>The inner \<open>while (1)\<close>, up to a sleep.\<close>

definition exit_adjust :: "task \<Rightarrow> int \<Rightarrow> proc \<Rightarrow> sem_sys \<Rightarrow> saddr \<Rightarrow> uaddr \<Rightarrow> sem_run" where
  "exit_adjust cur now me s a u =
     (case (sets s a, undos s u) of
        (Some sma, Some un) \<Rightarrow>
          if seq (sem_perm sma) \<noteq> semid un div 128 then (s, Ret Zero)
          else (case aget (sem_base sma) (undo_num un) of
                  None \<Rightarrow> (s, Fault)
                | Some sm \<Rightarrow>
                    if semval sm + semadj un \<ge> 0
                    then (case upd_sem (undo_num un) (\<lambda>x. x\<lparr>semval := u16 (semval x + semadj un), sempid := s16 (pid cur)\<rparr>) sma of
                            None \<Rightarrow> (s, Fault)
                          | Some sma \<Rightarrow> (put_set a (sma\<lparr>sem_otime := now\<rparr>) s, Ret Zero))
                    else if signal_pending cur then (s, Ret Zero)
                    else (case upd_sem (undo_num un) (\<lambda>x. x\<lparr>semncnt := u16 (semncnt x + 1)\<rparr>) sma of
                            None \<Rightarrow> (s, Fault)
                          | Some sma \<Rightarrow> (put_set a (sma\<lparr>eventn := eventn sma + 1\<rparr>) s, Sleep (ExitIncr me a))))
      | _ \<Rightarrow> (s, Fault))"

text \<open>The outer loop over the list of the process. \<open>break\<close> leaves what is left of the list behind.\<close>

fun exit_loop :: "task \<Rightarrow> int \<Rightarrow> proc \<Rightarrow> uaddr list \<Rightarrow> sem_sys \<Rightarrow> sem_run" where
  "exit_loop cur now me [] s = (s\<lparr>semun := (semun s)(me := [])\<rparr>, Ret Zero)"
| "exit_loop cur now me (u # us) s =
     (case undos s u of
        None \<Rightarrow> (s, Fault)
      | Some un \<Rightarrow>
          (case slot_of s (semid un) of
             None \<Rightarrow> (s, Fault)
           | Some (Ident a) \<Rightarrow>
               (case sets s a of
                  None \<Rightarrow> (s, Fault)
                | Some sma \<Rightarrow>
                    if seq (sem_perm sma) \<noteq> semid un div 128 then exit_loop cur now me us (exit_next me u us s)
                    else if u \<notin> set (undo sma) then (s\<lparr>semun := (semun s)(me := [])\<rparr>, Ret Zero)
                    else (let s = put_set a (sma\<lparr>undo := remove1 u (undo sma)\<rparr>) s
                          in if semadj un = 0 then exit_loop cur now me us (exit_next me u us s)
                             else (case exit_adjust cur now me s a u of
                                     (s, Ret _) \<Rightarrow> exit_loop cur now me us (exit_next me u us s)
                                   | (s, out) \<Rightarrow> (s, out))))
           | Some _ \<Rightarrow> exit_loop cur now me us (exit_next me u us s)))"

definition sem_exit :: "task \<Rightarrow> int \<Rightarrow> proc \<Rightarrow> sem_sys \<Rightarrow> sem_run" where
  "sem_exit cur now me s = exit_loop cur now me (semun s me) s"

section \<open>Controls\<close>

definition seminfo_of :: "sem_sys \<Rightarrow> bool \<Rightarrow> seminfo" where
  "seminfo_of s in_use =
     (let i = \<lparr>semmap = SEMMNS, semmni = 128, semmns = SEMMNS, semmnu = SEMMNS, semmsl = SEMMSL, semopm = SEMOPM,
               semume = SEMOPM, semusz = 20, semvmx = SEMVMX, semaem = 16383\<rparr>
      in if in_use then i\<lparr>semusz := used_semids s, semaem := used_sems s\<rparr> else i)"

definition pointer_arg :: "semctl_arg option \<Rightarrow> semctl_arg option" where
  "pointer_arg arg = (case arg of None \<Rightarrow> None | Some u \<Rightarrow> if ua_long u = 0 then None else Some u)"

text \<open>The commands on a set that is there; \<open>nsems\<close> and the permission have been read.\<close>

definition semctl_getall :: "task \<Rightarrow> sem_sys \<Rightarrow> semid_ds \<Rightarrow> semctl_arg option \<Rightarrow> sem_run" where
  "semctl_getall cur s sma arg =
     (if ipcperms cur (sem_perm sma) S_IRUGO \<noteq> 0 then (s, Err EACCES)
      else (case pointer_arg arg of
              None \<Rightarrow> (s, Err EFAULT)
            | Some u \<Rightarrow>
                (case ua_verify u of
                   Some err \<Rightarrow> (s, Err err)
                 | None \<Rightarrow> (s, Ret (All (map semval (sem_base sma)))))))"

definition semctl_setval :: "task \<Rightarrow> int \<Rightarrow> sem_sys \<Rightarrow> saddr \<Rightarrow> semid_ds \<Rightarrow> int \<Rightarrow> semctl_arg option \<Rightarrow> sem_run" where
  "semctl_setval cur now s a sma semnum arg =
     (case arg of
        None \<Rightarrow> (s, Err EFAULT)
      | Some u \<Rightarrow>
          if ua_long u > SEMVMX \<or> ua_long u < 0 then (s, Err ERANGE)
          else if ipcperms cur (sem_perm sma) S_IWUGO \<noteq> 0 then (s, Err EACCES)
          else (case (clear_adj (\<lambda>un. undo_num un = semnum) (undos s) (undo sma),
                      upd_sem semnum (\<lambda>x. x\<lparr>semval := ua_long u\<rparr>) sma) of
                  (Some h, Some sma) \<Rightarrow> (put_set a (sma\<lparr>sem_ctime := now\<rparr>) (s\<lparr>undos := h\<rparr>), Ret Zero)
                | _ \<Rightarrow> (s, Fault)))"

fun set_vals :: "sem list \<Rightarrow> int list \<Rightarrow> sem list" where
  "set_vals (x # xs) (v # vs) = x\<lparr>semval := v\<rparr> # set_vals xs vs"
| "set_vals xs vs = xs"

definition semctl_setall :: "task \<Rightarrow> int \<Rightarrow> sem_sys \<Rightarrow> saddr \<Rightarrow> semid_ds \<Rightarrow> semctl_arg option \<Rightarrow> sem_run" where
  "semctl_setall cur now s a sma arg =
     (case pointer_arg arg of
        None \<Rightarrow> (s, Err EFAULT)
      | Some u \<Rightarrow>
          (case ua_verify u of
             Some err \<Rightarrow> (s, Err err)
           | None \<Rightarrow>
               let sem_io = take (nat (sem_nsems sma)) (ua_array u) in
               if list_ex (\<lambda>v. v > SEMVMX) sem_io then (s, Err ERANGE)
               else if ipcperms cur (sem_perm sma) S_IWUGO \<noteq> 0 then (s, Err EACCES)
               else (case clear_adj (\<lambda>_. True) (undos s) (undo sma) of
                       None \<Rightarrow> (s, Fault)
                     | Some h \<Rightarrow>
                         (put_set a (sma\<lparr>sem_base := set_vals (sem_base sma) sem_io, sem_ctime := now\<rparr>) (s\<lparr>undos := h\<rparr>),
                          Ret Zero))))"

definition semctl_stat :: "task \<Rightarrow> sem_sys \<Rightarrow> semid_ds \<Rightarrow> semctl_arg option \<Rightarrow> sem_run" where
  "semctl_stat cur s sma arg =
     (case pointer_arg arg of
        None \<Rightarrow> (s, Err EFAULT)
      | Some u \<Rightarrow>
          (case ua_verify_arg u of
             Some err \<Rightarrow> (s, Err err)
           | None \<Rightarrow>
               if ipcperms cur (sem_perm sma) S_IRUGO \<noteq> 0 then (s, Err EACCES) else (s, Ret (Stat sma 0))))"

definition may_control :: "task \<Rightarrow> ipc_perm \<Rightarrow> bool" where
  "may_control cur p \<longleftrightarrow> suser cur \<or> euid cur = cuid p \<or> euid cur = uid p"

definition semctl_set :: "task \<Rightarrow> int \<Rightarrow> sem_sys \<Rightarrow> saddr \<Rightarrow> semid_ds \<Rightarrow> semctl_arg option \<Rightarrow> sem_run" where
  "semctl_set cur now s a sma arg =
     (case pointer_arg arg of
        None \<Rightarrow> (s, Err EFAULT)
      | Some u \<Rightarrow>
          (case ua_verify u of
             Some err \<Rightarrow> (s, Err err)
           | None \<Rightarrow>
               let p = sem_perm sma in
               if may_control cur p
               then (put_set a (sma\<lparr>sem_perm := p\<lparr>uid := ua_uid u, gid := ua_gid u,
                        mode := (mode p AND NOT S_IRWXUGO) OR (ua_mode u AND S_IRWXUGO)\<rparr>, sem_ctime := now\<rparr>) s, Ret Zero)
               else (s, Err EPERM)))"

definition semctl_on_set :: "task \<Rightarrow> int \<Rightarrow> sem_sys \<Rightarrow> int \<Rightarrow> saddr \<Rightarrow> semid_ds \<Rightarrow> int \<Rightarrow> int \<Rightarrow> semctl_arg option \<Rightarrow> sem_run" where
  "semctl_on_set cur now s sid a sma semnum cmd arg =
     (let readable = (ipcperms cur (sem_perm sma) S_IRUGO = 0) in
      if cmd = 11 \<or> cmd = 12 \<or> cmd = 14 \<or> cmd = 15
      then if \<not> readable then (s, Err EACCES)
           else (case aget (sem_base sma) semnum of
                   None \<Rightarrow> (s, Fault)
                 | Some sm \<Rightarrow>
                     (s, Ret (Val (if cmd = 12 then semval sm else if cmd = 11 then sempid sm
                                   else if cmd = 14 then semncnt sm else semzcnt sm))))
      else if cmd = 13 then semctl_getall cur s sma arg
      else if cmd = 16 then semctl_setval cur now s a sma semnum arg
      else if cmd = 0 then (if may_control cur (sem_perm sma) then freeary s (nat (sid mod 128)) else (s, Err EPERM))
      else if cmd = 17 then semctl_setall cur now s a sma arg
      else if cmd = 2 then semctl_stat cur s sma arg
      else if cmd = 1 then semctl_set cur now s a sma arg
      else (s, Err EINVAL))"

definition sys_semctl :: "task \<Rightarrow> int \<Rightarrow> sem_sys \<Rightarrow> int \<Rightarrow> int \<Rightarrow> int \<Rightarrow> semctl_arg option \<Rightarrow> sem_run" where
  "sys_semctl cur now s sid semnum cmd arg =
     (if sid < 0 \<or> semnum < 0 \<or> cmd < 0 then (s, Err EINVAL)
      else if cmd = 3 \<or> cmd = 19
      then (case pointer_arg arg of
              None \<Rightarrow> (s, Err EFAULT)
            | Some u \<Rightarrow>
                (case ua_verify u of
                   Some err \<Rightarrow> (s, Err err)
                 | None \<Rightarrow> (s, Ret (Info (seminfo_of s (cmd = 19)) (int (max_semid s))))))
      else if cmd = 18
      then (case pointer_arg arg of
              None \<Rightarrow> (s, Err EFAULT)
            | Some u \<Rightarrow>
                (case ua_verify u of
                   Some err \<Rightarrow> (s, Err err)
                 | None \<Rightarrow>
                     if sid > int (max_semid s) then (s, Err EINVAL)
                     else (case aget (semary s) sid of
                             None \<Rightarrow> (s, Fault)
                           | Some (Ident a) \<Rightarrow>
                               (case sets s a of
                                  None \<Rightarrow> (s, Fault)
                                | Some sma \<Rightarrow>
                                    if ipcperms cur (sem_perm sma) S_IRUGO \<noteq> 0 then (s, Err EACCES)
                                    else (s, Ret (Stat sma (sid + seq (sem_perm sma) * 128))))
                           | Some _ \<Rightarrow> (s, Err EINVAL))))
      else (case slot_of s sid of
              None \<Rightarrow> (s, Fault)
            | Some (Ident a) \<Rightarrow>
                (case sets s a of
                   None \<Rightarrow> (s, Fault)
                 | Some sma \<Rightarrow>
                     if seq (sem_perm sma) \<noteq> sid div 128 then (s, Err EIDRM)
                     else if semnum \<ge> sem_nsems sma then (s, Err EINVAL)
                     else semctl_on_set cur now s sid a sma semnum cmd arg)
            | Some _ \<Rightarrow> (s, Err EINVAL)))"

section \<open>All calls together\<close>

text \<open>The run after a sleep; a task that was in a wait queue first takes itself off it and its count back.\<close>

definition leave_set :: "saddr \<Rightarrow> int \<Rightarrow> bool \<Rightarrow> sem_sys \<Rightarrow> sem_sys option" where
  "leave_set a n z s = do {
     sma \<leftarrow> sets s a;
     sma \<leftarrow> upd_sem n (\<lambda>x. if z then x\<lparr>semzcnt := u16 (semzcnt x - 1)\<rparr> else x\<lparr>semncnt := u16 (semncnt x - 1)\<rparr>) sma;
     Some (put_set a (if z then sma\<lparr>eventz := eventz sma - 1\<rparr> else sma\<lparr>eventn := eventn sma - 1\<rparr>) s) }"

definition exit_resume :: "task \<Rightarrow> int \<Rightarrow> sem_sys \<Rightarrow> proc \<Rightarrow> saddr \<Rightarrow> sem_run" where
  "exit_resume cur now s me a =
     (case semun s me of
        [] \<Rightarrow> (s, Fault)
      | u # us \<Rightarrow>
          (case undos s u of
             None \<Rightarrow> (s, Fault)
           | Some un \<Rightarrow>
               (case leave_set a (undo_num un) False s of
                  None \<Rightarrow> (s, Fault)
                | Some s \<Rightarrow>
                    (case exit_adjust cur now me s a u of
                       (s, Ret _) \<Rightarrow> exit_loop cur now me us (exit_next me u us s)
                     | (s, out) \<Rightarrow> (s, out)))))"

fun sem_resume :: "task \<Rightarrow> int \<Rightarrow> nat option \<Rightarrow> sem_sys \<Rightarrow> sem_wait \<Rightarrow> sem_run" where
  "sem_resume cur now mem s (OpZero c n) =
     (case leave_set (so_set c) n True s of None \<Rightarrow> (s, Fault) | Some s \<Rightarrow> semop_slept cur now s c)"
| "sem_resume cur now mem s (OpIncr c n) =
     (case leave_set (so_set c) n False s of None \<Rightarrow> (s, Fault) | Some s \<Rightarrow> semop_slept cur now s c)"
| "sem_resume cur now mem s (FindKey c i) = semget_find cur s c i"
| "sem_resume cur now mem s (NewAlloc c i) = newary_alloc cur now s c i mem"
| "sem_resume cur now mem s (Freeing a) = freeary_wait s a"
| "sem_resume cur now mem s (ExitIncr me a) = exit_resume cur now s me a"

datatype sem_call =
    COp proc "uaddr option list" int "sembuf list option" int
  | CGet int int int | CCtl int int int "semctl_arg option" | CExit proc

fun sem_enter :: "task \<Rightarrow> int \<Rightarrow> sem_sys \<Rightarrow> sem_call \<Rightarrow> sem_run" where
  "sem_enter cur now s (COp me mem sid ops n) = sys_semop cur me now mem s sid ops n"
| "sem_enter cur now s (CGet k n flg) = sys_semget cur s k n flg"
| "sem_enter cur now s (CCtl sid semnum cmd arg) = sys_semctl cur now s sid semnum cmd arg"
| "sem_enter cur now s (CExit me) = sem_exit cur now me s"

text \<open>The runs of the system. \<open>kmalloc\<close> gives addresses not in use.\<close>

definition fresh_mem :: "sem_sys \<Rightarrow> nat option \<Rightarrow> bool" where
  "fresh_mem s mem \<longleftrightarrow> (case mem of None \<Rightarrow> True | Some a \<Rightarrow> sets s a = None)"

fun fresh_call :: "sem_sys \<Rightarrow> sem_call \<Rightarrow> bool" where
  "fresh_call s (COp me mem sid ops n) = (\<forall>u. Some u \<in> set mem \<longrightarrow> undos s u = None)"
| "fresh_call s c = True"

definition sem_enters :: "sem_sys \<Rightarrow> sem_run \<Rightarrow> bool" where
  "sem_enters s r \<longleftrightarrow> (\<exists>cur now c. fresh_call s c \<and> r = sem_enter cur now s c)"

definition sem_resumes :: "sem_sys \<Rightarrow> sem_wait \<Rightarrow> sem_run \<Rightarrow> bool" where
  "sem_resumes s p r \<longleftrightarrow> (\<exists>cur now mem. fresh_mem s mem \<and> r = sem_resume cur now mem s p)"

abbreviation sem_step :: "(sem_sys, sem_wait) world \<Rightarrow> (sem_sys, sem_wait) world \<Rightarrow> bool" where
  "sem_step \<equiv> run_step sem_enters sem_resumes"

end
