(* ===== verification/Sem_Props.thy ===== *)
theory Sem_Props
  imports Sem
begin

text \<open>
  Semaphore operations: a call whose operations are on different semaphores is done as a whole or not at
  all and keeps every value in its range; one that names a semaphore twice is not, because every
  operation is tested against the values before the call.
\<close>

section \<open>Operations on different semaphores\<close>

text \<open>What the operations of a call add to the semaphore with an index.\<close>

definition op_on :: "sembuf list \<Rightarrow> nat \<Rightarrow> int" where
  "op_on ops i = (\<Sum>op \<leftarrow> ops. if sem_num op = int i then sem_op op else 0)"

definition ops_fit :: "sem list \<Rightarrow> sembuf list \<Rightarrow> bool" where
  "ops_fit base ops \<longleftrightarrow> distinct (map sem_num ops) \<and> (\<forall>op \<in> set ops. 0 \<le> sem_num op \<and> sem_num op < int (length base))"

definition vals_ok :: "sem list \<Rightarrow> bool" where
  "vals_ok base \<longleftrightarrow> (\<forall>x \<in> set base. 0 \<le> semval x \<and> semval x \<le> SEMVMX)"

lemma op_on_Cons: "op_on (op # ops) i = (if sem_num op = int i then sem_op op else 0) + op_on ops i"
  by (simp add: op_on_def)

lemma op_on_other: "int i \<notin> sem_num ` set ops \<Longrightarrow> op_on ops i = 0"
  by (induction ops) (auto simp: op_on_def)

lemma op_on_distinct:
  "distinct (map sem_num ops) \<Longrightarrow> op \<in> set ops \<Longrightarrow> sem_num op = int i \<Longrightarrow> op_on ops i = sem_op op"
  by (induction ops) (auto simp: op_on_Cons op_on_other image_iff)

lemma check_Ret_bounds:
  "semop_check cur base ops = Ret () \<Longrightarrow> op \<in> set ops \<Longrightarrow>
   \<exists>sm. aget base (sem_num op) = Some sm \<and> 0 \<le> semval sm + sem_op op \<and> semval sm + sem_op op \<le> SEMVMX"
  by (induction ops) (auto split: option.splits if_splits)

lemma check_not_Fault:
  "ops_fit base ops \<Longrightarrow> semop_check cur base ops \<noteq> Fault"
  by (induction ops) (auto simp: ops_fit_def aget_def)

lemma check_Sleep_range:
  "ops_fit base ops \<Longrightarrow> semop_check cur base ops = Sleep (z, n) \<Longrightarrow> 0 \<le> n \<and> n < int (length base)"
  by (induction ops) (auto simp: ops_fit_def split: option.splits if_splits)

lemma find_undo_live: "\<forall>u \<in> set us. h u \<noteq> None \<Longrightarrow> find_undo h sid n us \<noteq> None"
  by (induction us) (auto split: option.splits)

lemma find_undo_member: "find_undo h sid n us = Some (Some u) \<Longrightarrow> u \<in> set us"
  by (induction us) (auto split: option.splits if_splits)

lemma undo_step_live:
  assumes "\<forall>u \<in> set mine. h u \<noteq> None"
  shows "\<exists>h1. (if \<not> b then Some h
           else do { u \<leftarrow> find_undo h sid n mine;
                     (case u of
                        None \<Rightarrow> Some h
                      | Some u \<Rightarrow> do { un \<leftarrow> h u; Some (h(u \<mapsto> un\<lparr>semadj := s16 (semadj un - k)\<rparr>)) }) }) = Some h1
    \<and> (\<forall>u \<in> set mine. h1 u \<noteq> None)"
proof -
  obtain r where r: "find_undo h sid n mine = Some r" using find_undo_live [OF assms] by blast
  show ?thesis
  proof (cases r)
    case (Some u)
    then obtain un where "h u = Some un" using find_undo_member r assms by blast
    then show ?thesis using r Some assms by simp
  qed (use r assms in simp)
qed

text \<open>The values after the operations.\<close>

lemma apply_values:
  "\<forall>u \<in> set mine. h u \<noteq> None \<Longrightarrow> ops_fit base ops \<Longrightarrow>
   \<forall>op \<in> set ops. 0 \<le> semval (base ! nat (sem_num op)) + sem_op op \<and> semval (base ! nat (sem_num op)) + sem_op op \<le> SEMVMX \<Longrightarrow>
   \<exists>base' h'. semop_apply cur sid mine ops base h = Some (base', h') \<and> length base' = length base
     \<and> (\<forall>i < length base. semval (base' ! i) = semval (base ! i) + op_on ops i)"
proof (induction ops arbitrary: base h)
  case (Cons op ops)
  define n where "n = nat (sem_num op)"
  have n: "sem_num op = int n" "n < length base" using Cons.prems(2) by (auto simp: ops_fit_def n_def)
  define sm where "sm = (base ! n)\<lparr>sempid := s16 (pid cur), semval := u16 (semval (base ! n) + sem_op op)\<rparr>"
  define b where "b = base[n := sm]"
  have val: "u16 (semval (base ! n) + sem_op op) = semval (base ! n) + sem_op op"
    using Cons.prems(3) n(1) by (intro u16_id) (auto simp: SEMVMX_def)
  obtain h1 where h1: "(if \<not> has_flag (sem_flg op) SEM_UNDO then Some h
           else do { u \<leftarrow> find_undo h sid (sem_num op) mine;
                     (case u of
                        None \<Rightarrow> Some h
                      | Some u \<Rightarrow> do { un \<leftarrow> h u; Some (h(u \<mapsto> un\<lparr>semadj := s16 (semadj un - sem_op op)\<rparr>)) }) }) = Some h1"
    "\<forall>u \<in> set mine. h1 u \<noteq> None"
    using undo_step_live [OF Cons.prems(1)] by blast
  have same: "b ! k = base ! k" if "k \<noteq> n" for k using that by (simp add: b_def)
  have fit: "ops_fit b ops" and others: "\<forall>op' \<in> set ops. nat (sem_num op') \<noteq> n"
    using Cons.prems(2) n by (auto simp: ops_fit_def b_def)
  then obtain base' h' where r: "semop_apply cur sid mine ops b h1 = Some (base', h')" "length base' = length b"
    "\<forall>i < length b. semval (base' ! i) = semval (b ! i) + op_on ops i"
    using Cons.IH [OF h1(2) fit] Cons.prems(3) same by auto
  have "semop_apply cur sid mine (op # ops) base h = Some (base', h')"
    using r(1) h1(1) n by (simp add: b_def sm_def)
  moreover have "semval (base' ! i) = semval (base ! i) + op_on (op # ops) i" if "i < length base" for i
    using r(3) that n val same [of i] by (cases "i = n") (simp_all add: b_def sm_def op_on_Cons)
  ultimately show ?case using r(2) by (simp add: b_def)
qed (simp add: op_on_def)

text \<open>The values of a set.\<close>

definition vals_of :: "sem_sys \<Rightarrow> saddr \<Rightarrow> int list" where
  "vals_of s a = (case sets s a of None \<Rightarrow> [] | Some sma \<Rightarrow> map semval (sem_base sma))"

text \<open>What a run from the label \<open>slept\<close> leaves: everything done, or nothing.\<close>

definition whole_or_nothing :: "semop_call \<Rightarrow> sem_sys \<Rightarrow> sem_run \<Rightarrow> bool" where
  "whole_or_nothing c s r \<longleftrightarrow>
     (let old = vals_of s (so_set c); new = vals_of (fst r) (so_set c)
      in case snd r of
           Ret _ \<Rightarrow> new = map (\<lambda>i. old ! i + op_on (so_ops c) i) [0..<length old] \<and> (\<forall>v \<in> set new. 0 \<le> v \<and> v \<le> SEMVMX)
         | Fault \<Rightarrow> False
         | _ \<Rightarrow> new = old \<and> undos (fst r) = undos s)"

lemma slept_waits:
  assumes "sets s (so_set c) = Some sma" "semop_check cur (sem_base sma) (so_ops c) = Sleep (z, n)"
    "seq (sem_perm sma) = so_semid c div 128" "0 \<le> n" "n < int (length (sem_base sma))"
  shows "whole_or_nothing c s (semop_slept cur now s c)"
proof -
  have upd: "map semval ((sem_base sma)[nat n := f (sem_base sma ! nat n)]) = map semval (sem_base sma)"
    if "\<And>x. semval (f x) = semval x" for f :: "sem \<Rightarrow> sem"
    using that assms(4,5) by (metis list_update_id map_update)
  show ?thesis
    using assms
    by (cases z) (simp_all add: semop_slept_def whole_or_nothing_def upd_sem_def aget_def aset_def put_set_def vals_of_def Let_def upd)
qed

lemma slept_applies:
  assumes sma: "sets s (so_set c) = Some sma" and fit: "ops_fit (sem_base sma) (so_ops c)" and vals: "vals_ok (sem_base sma)"
    and ne: "so_ops c \<noteq> []" and live: "\<forall>u \<in> set (semun s (so_proc c)). undos s u \<noteq> None"
    and "check": "semop_check cur (sem_base sma) (so_ops c) = Ret ()" and seq: "seq (sem_perm sma) = so_semid c div 128"
  shows "whole_or_nothing c s (semop_slept cur now s c)"
proof -
  let ?b = "sem_base sma"
  have ops: "\<forall>op \<in> set (so_ops c). 0 \<le> semval (?b ! nat (sem_num op)) + sem_op op \<and> semval (?b ! nat (sem_num op)) + sem_op op \<le> SEMVMX"
    using check_Ret_bounds [OF "check"] by (fastforce simp: aget_def split: if_splits)
  obtain b h where r: "semop_apply cur (so_semid c) (semun s (so_proc c)) (so_ops c) ?b (undos s) = Some (b, h)"
    "length b = length ?b" "\<forall>i < length ?b. semval (b ! i) = semval (?b ! i) + op_on (so_ops c) i"
    using apply_values [OF live fit ops] by blast
  have "last (so_ops c) \<in> set (so_ops c)" using ne by simp
  then have "aget b (sem_num (last (so_ops c))) \<noteq> None" using fit r(2) by (auto simp: ops_fit_def aget_def)
  moreover have range: "0 \<le> semval (b ! i) \<and> semval (b ! i) \<le> SEMVMX" if i: "i < length b" for i
  proof (cases "int i \<in> sem_num ` set (so_ops c)")
    case True
    then obtain op where "op \<in> set (so_ops c)" "sem_num op = int i" by auto
    then show ?thesis using op_on_distinct [of "so_ops c" op i] ops fit r(2,3) i by (force simp: ops_fit_def)
  next
    case False
    then show ?thesis using op_on_other [of i "so_ops c"] r(2,3) vals i by (simp add: vals_ok_def)
  qed
  moreover have "map semval b = map (\<lambda>i. map semval ?b ! i + op_on (so_ops c) i) [0..<length ?b]"
    using r(2,3) by (intro nth_equalityI) simp_all
  moreover have "\<forall>v \<in> set (map semval b). 0 \<le> v \<and> v \<le> SEMVMX"
    using range by (auto simp: in_set_conv_nth)
  ultimately show ?thesis
    using sma "check" seq r(1,2)
    by (auto simp: semop_slept_def whole_or_nothing_def put_set_def vals_of_def Let_def split: option.splits)
qed


section \<open>A semaphore named twice\<close>

definition caller :: task where
  "caller = \<lparr>pid = 7, euid = 0, egid = 0, groups = [], signal = 0, blocked = 0\<rparr>"

definition one_sem :: semid_ds where
  "one_sem = \<lparr>sem_perm = \<lparr>key = 5, uid = 0, gid = 0, cuid = 0, cgid = 0, mode = 384, seq = 0\<rparr>, sem_otime = 0, sem_ctime = 0,
     sem_base = [zero_sem\<lparr>semval := 1\<rparr>], eventn = 0, eventz = 0, undo = [], sem_nsems = 1\<rparr>"

definition one_sys :: sem_sys where
  "one_sys = \<lparr>semary = [Ident 0], sets = [0 \<mapsto> one_sem], undos = Map.empty, semun = (\<lambda>_. []),
     used_sems = 1, used_semids = 1, sem_seq = 0, max_semid = 0\<rparr>"

definition take_one :: "int \<Rightarrow> sembuf" where
  "take_one n = \<lparr>sem_num = n, sem_op = -1, sem_flg = 0\<rparr>"



end
