(* ===== verification/Sys.thy ===== *)
theory Sys
  imports KPrelude "HOL-Library.Signed_Division"
begin

text \<open>
  kernel/sys.c: the system calls on the credentials, the groups, the priority, the process group and
  session, the resource limits and the accounting of a process, the break, and the names of the
  machine.

  A process is a record that extends the \<open>task\<close> of the prelude by the fields of \<open>struct task_struct\<close>
  that a group of calls reads or writes: \<open>ids_task\<close> for identities, \<open>ptask\<close> for process groups and
  priorities, \<open>lim_task\<close> for limits and the break; \<open>acct_task\<close> holds the accounting. Calls on \<open>current\<close>
  alone map its record to a new one and a result; calls on other processes work on the table \<open>task\<close>,
  with \<open>current\<close> an index of it and the ring that \<open>for_each_task\<close> follows as the list of indices after
  the first task.
  The answers of \<open>verify_area\<close> and user memory are arguments. The calls for virtual 8086 mode, which
  only move registers and stacks, are left out.
\<close>

section \<open>Data\<close>

record rlimit =
  rlim_cur :: int
  rlim_max :: int

text \<open>\<open>struct task_struct\<close>, in the parts that the calls work on.\<close>

record ids_task = task +
  uid :: int
  suid :: int
  gid :: int
  sgid :: int

record ptask = ids_task +
  pgrp :: int
  session :: int
  leader :: int
  did_exec :: bool
  tty :: int
  priority :: int
  p_pptr :: nat
  p_opptr :: nat

record lim_task = ids_task +
  umask :: int
  rlim :: "rlimit list"
  end_code :: int
  brk :: int
  start_stack :: int

record acct_task =
  utime :: int
  stime :: int
  cutime :: int
  cstime :: int
  min_flt :: int
  maj_flt :: int
  cmin_flt :: int
  cmaj_flt :: int

text \<open>The result of a call.\<close>

type_synonym res = "(unit, int) outcome"

definition is_suser :: "'a task_scheme \<Rightarrow> bool" where "is_suser p = suser (task.truncate p)"

definition NGROUPS :: int where "NGROUPS = 32"
definition PZERO :: int where "PZERO = 15"
definition no_id :: int where "no_id = 65535"

section \<open>User and group identities\<close>

definition sys_setregid :: "ids_task \<Rightarrow> int \<Rightarrow> int \<Rightarrow> ids_task \<times> res" where
  "sys_setregid cur rgid eg =
     (let old_rgid = gid cur in
      if rgid \<noteq> no_id \<and> \<not> (egid cur = rgid \<or> old_rgid = rgid \<or> is_suser cur) then (cur, Err EPERM)
      else (let cur = (if rgid \<noteq> no_id then cur\<lparr>gid := rgid\<rparr> else cur)
            in if eg \<noteq> no_id
               then if old_rgid = eg \<or> egid cur = eg \<or> is_suser cur then (cur\<lparr>egid := eg, sgid := eg\<rparr>, Ret 0)
                    else (cur\<lparr>gid := old_rgid\<rparr>, Err EPERM)
               else (cur, Ret 0)))"

definition sys_setgid :: "ids_task \<Rightarrow> int \<Rightarrow> ids_task \<times> res" where
  "sys_setgid cur g =
     (if is_suser cur then (cur\<lparr>gid := g, egid := g, sgid := g\<rparr>, Ret 0)
      else if g = gid cur \<or> g = sgid cur then (cur\<lparr>egid := g\<rparr>, Ret 0)
      else (cur, Err EPERM))"

definition sys_setreuid :: "ids_task \<Rightarrow> int \<Rightarrow> int \<Rightarrow> ids_task \<times> res" where
  "sys_setreuid cur ruid eu =
     (let old_ruid = uid cur in
      if ruid \<noteq> no_id \<and> \<not> (euid cur = ruid \<or> old_ruid = ruid \<or> is_suser cur) then (cur, Err EPERM)
      else (let cur = (if ruid \<noteq> no_id then cur\<lparr>uid := ruid\<rparr> else cur)
            in if eu \<noteq> no_id
               then if old_ruid = eu \<or> euid cur = eu \<or> is_suser cur then (cur\<lparr>euid := eu, suid := eu\<rparr>, Ret 0)
                    else (cur\<lparr>uid := old_ruid\<rparr>, Err EPERM)
               else (cur, Ret 0)))"

definition sys_setuid :: "ids_task \<Rightarrow> int \<Rightarrow> ids_task \<times> res" where
  "sys_setuid cur u =
     (if is_suser cur then (cur\<lparr>uid := u, euid := u, suid := u\<rparr>, Ret 0)
      else if u = uid cur \<or> u = suid cur then (cur\<lparr>euid := u\<rparr>, Ret 0)
      else (cur, Err EPERM))"

text \<open>Supplementary groups. \<open>getgroups\<close> gives the groups it writes to user memory and its result.\<close>

fun getgroups_loop :: "int \<Rightarrow> int list \<Rightarrow> int \<Rightarrow> int list \<Rightarrow> int list \<times> int" where
  "getgroups_loop n [] i out = (out, i)"
| "getgroups_loop n (g # gs) i out =
     (if i \<ge> NGROUPS \<or> g = NOGROUP then (out, i)
      else if n = 0 then getgroups_loop n gs (i + 1) out
      else if i \<ge> n then (out, i)
      else getgroups_loop n gs (i + 1) (out @ [u16 g]))"

definition sys_getgroups :: "ids_task \<Rightarrow> int \<Rightarrow> errno option \<Rightarrow> int list \<times> res" where
  "sys_getgroups cur gidsetsize verify =
     (if gidsetsize \<noteq> 0 \<and> verify \<noteq> None then ([], Err (the verify))
      else (case getgroups_loop gidsetsize (groups cur) 0 [] of (out, i) \<Rightarrow> (out, Ret i)))"

text \<open>The \<open>n\<close> half-words that \<open>setgroups\<close> reads are the list \<open>grouplist\<close>; reading behind its end is a fault.\<close>

fun setgroups_loop :: "int list \<Rightarrow> nat \<Rightarrow> nat \<Rightarrow> int list \<Rightarrow> int list option" where
  "setgroups_loop arr i 0 gs = Some arr"
| "setgroups_loop arr i (Suc n) [] = None"
| "setgroups_loop arr i (Suc n) (g # gs) =
     (case aset arr (int i) (u16 g) of None \<Rightarrow> None | Some arr \<Rightarrow> setgroups_loop arr (Suc i) n gs)"

definition sys_setgroups :: "ids_task \<Rightarrow> int \<Rightarrow> int list \<Rightarrow> ids_task \<times> res" where
  "sys_setgroups cur gidsetsize grouplist =
     (if \<not> is_suser cur then (cur, Err EPERM)
      else if gidsetsize > NGROUPS then (cur, Err EINVAL)
      else (case setgroups_loop (groups cur) 0 (nat gidsetsize) grouplist of
              None \<Rightarrow> (cur, Fault)
            | Some arr \<Rightarrow>
                (cur\<lparr>groups := (if nat gidsetsize < nat NGROUPS then arr[nat gidsetsize := NOGROUP] else arr)\<rparr>, Ret 0)))"

section \<open>Other calls on the current process\<close>

definition sys_umask :: "lim_task \<Rightarrow> int \<Rightarrow> lim_task \<times> res" where
  "sys_umask cur m = (cur\<lparr>umask := m AND 511\<rparr>, Ret (umask cur))"

definition sys_setsid :: "ptask \<Rightarrow> ptask \<times> res" where
  "sys_setsid cur =
     (if leader cur \<noteq> 0 then (cur, Err EPERM)
      else (cur\<lparr>leader := 1, session := pid cur, pgrp := pid cur, tty := -1\<rparr>, Ret (pid cur)))"

definition sys_getpgrp :: "ptask \<Rightarrow> res" where "sys_getpgrp cur = Ret (pgrp cur)"

record tms =
  tms_utime :: int
  tms_stime :: int
  tms_cutime :: int
  tms_cstime :: int

text \<open>\<open>tbuf\<close> is NULL, or comes with the answer of \<open>verify_area\<close>.\<close>

definition sys_times :: "acct_task \<Rightarrow> int \<Rightarrow> errno option option \<Rightarrow> tms option \<times> res" where
  "sys_times cur jiffies tbuf =
     (case tbuf of
        None \<Rightarrow> (None, Ret jiffies)
      | Some (Some e) \<Rightarrow> (None, Err e)
      | Some None \<Rightarrow>
          (Some \<lparr>tms_utime = utime cur, tms_stime = stime cur, tms_cutime = cutime cur, tms_cstime = cstime cur\<rparr>, Ret jiffies))"

definition RLIM_NLIMITS :: int where "RLIM_NLIMITS = 6"
definition RLIM_INFINITY :: int where "RLIM_INFINITY = 2147483647"

definition sys_getrlimit :: "lim_task \<Rightarrow> int \<Rightarrow> errno option \<Rightarrow> rlimit option \<times> res" where
  "sys_getrlimit cur resource verify =
     (if resource \<ge> RLIM_NLIMITS then (None, Err EINVAL)
      else (case verify of
              Some e \<Rightarrow> (None, Err e)
            | None \<Rightarrow> (case aget (rlim cur) resource of None \<Rightarrow> (None, Fault) | Some r \<Rightarrow> (Some r, Ret 0))))"

definition sys_setrlimit :: "lim_task \<Rightarrow> int \<Rightarrow> rlimit \<Rightarrow> lim_task \<times> res" where
  "sys_setrlimit cur resource new_rlim =
     (if resource \<ge> RLIM_NLIMITS then (cur, Err EINVAL)
      else (case aget (rlim cur) resource of
              None \<Rightarrow> (cur, Fault)
            | Some old_rlim \<Rightarrow>
                if (rlim_cur new_rlim > rlim_max old_rlim \<or> rlim_max new_rlim > rlim_max old_rlim) \<and> \<not> is_suser cur
                then (cur, Err EPERM)
                else (cur\<lparr>rlim := (rlim cur)[nat resource := new_rlim]\<rparr>, Ret 0)))"

text \<open>Accounting. Times are in ticks, \<open>HZ\<close> a second.\<close>

definition HZ :: int where "HZ = 100"

record timeval =
  tv_sec :: int
  tv_usec :: int

record rusage =
  ru_utime :: timeval
  ru_stime :: timeval
  ru_minflt :: int
  ru_majflt :: int

definition ticks_tv :: "int \<Rightarrow> timeval" where
  "ticks_tv x = \<lparr>tv_sec = x sdiv HZ, tv_usec = ((x smod HZ) * 1000000) sdiv HZ\<rparr>"

definition getrusage :: "acct_task \<Rightarrow> int \<Rightarrow> errno option \<Rightarrow> rusage option \<times> res" where
  "getrusage p who verify =
     (case verify of
        Some e \<Rightarrow> (None, Err e)
      | None \<Rightarrow>
          (Some (if who = 0
                 then \<lparr>ru_utime = ticks_tv (utime p), ru_stime = ticks_tv (stime p), ru_minflt = s32 (min_flt p), ru_majflt = s32 (maj_flt p)\<rparr>
                 else if who = -1
                 then \<lparr>ru_utime = ticks_tv (cutime p), ru_stime = ticks_tv (cstime p), ru_minflt = s32 (cmin_flt p), ru_majflt = s32 (cmaj_flt p)\<rparr>
                 else \<lparr>ru_utime = ticks_tv (s32 (utime p + cutime p)), ru_stime = ticks_tv (s32 (stime p + cstime p)),
                       ru_minflt = s32 (min_flt p + cmin_flt p), ru_majflt = s32 (maj_flt p + cmaj_flt p)\<rparr>),
           Ret 0))"

definition sys_getrusage :: "acct_task \<Rightarrow> int \<Rightarrow> errno option \<Rightarrow> rusage option \<times> res" where
  "sys_getrusage cur who verify =
     (if who \<noteq> 0 \<and> who \<noteq> -1 then (None, Err EINVAL) else getrusage cur who verify)"

section \<open>The break\<close>

text \<open>The calls of mm/mmap.c that \<open>sys_brk\<close> makes, with address and length, and the memory figures it reads.\<close>

datatype vm_op = Munmap int int | Mmap int int

record mem_figures =
  buffermem :: int
  nr_free_pages :: int
  nr_swap_pages :: int
  high_memory :: int

definition page_align :: "int \<Rightarrow> int" where "page_align a = u32 (a + 4095) div 4096 * 4096"

definition data_limit :: "rlimit \<Rightarrow> int" where
  "data_limit r = (if u32 (rlim_cur r) \<ge> RLIM_INFINITY then 4294967295 else u32 (rlim_cur r))"

definition brk_freepages :: "mem_figures \<Rightarrow> int \<Rightarrow> int" where
  "brk_freepages mem n =
     s32 (s32 (buffermem mem div 4096) + nr_free_pages mem + nr_swap_pages mem
          - u32 (high_memory mem - 1048576) div 65536 - n div 4096)"

definition sys_brk :: "lim_task \<Rightarrow> mem_figures \<Rightarrow> int \<Rightarrow> lim_task \<times> vm_op list \<times> res" where
  "sys_brk cur mem b =
     (if b < end_code cur then (cur, [], Ret (brk cur))
      else (let newbrk = page_align b; oldbrk = page_align (brk cur)
            in if oldbrk = newbrk then (cur\<lparr>brk := b\<rparr>, [], Ret b)
               else if b \<le> brk cur then (cur\<lparr>brk := b\<rparr>, [Munmap newbrk (u32 (oldbrk - newbrk))], Ret b)
               else (case aget (rlim cur) 2 of
                       None \<Rightarrow> (cur, [], Fault)
                     | Some r \<Rightarrow>
                         if u32 (b - end_code cur) > data_limit r \<or> b \<ge> u32 (start_stack cur - 16384)
                         then (cur, [], Ret (brk cur))
                         else if brk_freepages mem (u32 (newbrk - oldbrk)) < 0 then (cur, [], Ret (brk cur))
                         else (cur\<lparr>brk := b\<rparr>, [Mmap oldbrk (u32 (newbrk - oldbrk))], Ret b))))"

section \<open>Calls on other processes\<close>

record procs =
  ptab :: "ptask option list"
  ring :: "nat list"
  me :: nat

definition NR_TASKS :: nat where "NR_TASKS = 128"

definition proc_at :: "procs \<Rightarrow> nat \<Rightarrow> ptask option" where
  "proc_at s i = (if i < length (ptab s) then ptab s ! i else None)"

definition proc_sel :: "ptask \<Rightarrow> bool \<Rightarrow> ptask \<Rightarrow> int \<Rightarrow> int \<Rightarrow> bool" where
  "proc_sel cur is_cur p which who =
     (if which = 0 then (if who = 0 \<and> is_cur then True else pid p = who)
      else if which = 1 then pgrp p = (if who = 0 then pgrp cur else who)
      else if which = 2 then uid p = (if who = 0 then uid cur else who)
      else False)"

text \<open>The loops from the last entry of the table down to, but without, the first. The error is \<open>None\<close> for 0.\<close>

fun setpriority_loop :: "ptask \<Rightarrow> nat \<Rightarrow> int \<Rightarrow> int \<Rightarrow> int \<Rightarrow> nat \<Rightarrow> ptask option list \<Rightarrow> errno option \<Rightarrow> ptask option list \<times> errno option" where
  "setpriority_loop cur m which who prio 0 tab error = (tab, error)"
| "setpriority_loop cur m which who prio (Suc i) tab error =
     (case (if Suc i < length tab then tab ! Suc i else None) of
        None \<Rightarrow> setpriority_loop cur m which who prio i tab error
      | Some p \<Rightarrow>
          if \<not> proc_sel cur (Suc i = m) p which who then setpriority_loop cur m which who prio i tab error
          else if uid p \<noteq> euid cur \<and> uid p \<noteq> uid cur \<and> \<not> is_suser cur
          then setpriority_loop cur m which who prio i tab (Some EPERM)
          else (let error = (if error = Some ESRCH then None else error)
                in if prio > priority p \<and> \<not> is_suser cur
                   then setpriority_loop cur m which who prio i tab (Some EACCES)
                   else setpriority_loop cur m which who prio i (tab[Suc i := Some (p\<lparr>priority := prio\<rparr>)]) error))"

definition sys_setpriority :: "procs \<Rightarrow> int \<Rightarrow> int \<Rightarrow> int \<Rightarrow> procs \<times> res" where
  "sys_setpriority s which who niceval =
     (if which > 2 \<or> which < 0 then (s, Err EINVAL)
      else (case proc_at s (me s) of
              None \<Rightarrow> (s, Fault)
            | Some cur \<Rightarrow>
                let prio = s32 (PZERO - niceval); prio = (if prio \<le> 0 then 1 else prio)
                in case setpriority_loop cur (me s) which who prio (NR_TASKS - 1) (ptab s) (Some ESRCH) of
                     (tab, error) \<Rightarrow> (s\<lparr>ptab := tab\<rparr>, case error of None \<Rightarrow> Ret 0 | Some e \<Rightarrow> Err e)))"

fun getpriority_loop :: "ptask \<Rightarrow> nat \<Rightarrow> int \<Rightarrow> int \<Rightarrow> nat \<Rightarrow> ptask option list \<Rightarrow> int \<Rightarrow> int" where
  "getpriority_loop cur m which who 0 tab max_prio = max_prio"
| "getpriority_loop cur m which who (Suc i) tab max_prio =
     (case (if Suc i < length tab then tab ! Suc i else None) of
        None \<Rightarrow> getpriority_loop cur m which who i tab max_prio
      | Some p \<Rightarrow>
          getpriority_loop cur m which who i tab
            (if proc_sel cur (Suc i = m) p which who \<and> priority p > max_prio then priority p else max_prio))"

definition sys_getpriority :: "procs \<Rightarrow> int \<Rightarrow> int \<Rightarrow> res" where
  "sys_getpriority s which who =
     (if which > 2 \<or> which < 0 then Err EINVAL
      else (case proc_at s (me s) of
              None \<Rightarrow> Fault
            | Some cur \<Rightarrow>
                let m = getpriority_loop cur (me s) which who (NR_TASKS - 1) (ptab s) 0
                in if m \<noteq> 0 then Ret m else Err ESRCH))"

text \<open>\<open>for_each_task\<close> with a test, and the index it stops at.\<close>

fun find_task :: "(ptask \<Rightarrow> bool) \<Rightarrow> procs \<Rightarrow> nat list \<Rightarrow> nat option" where
  "find_task P s [] = None"
| "find_task P s (i # is) =
     (case proc_at s i of
        None \<Rightarrow> find_task P s is
      | Some p \<Rightarrow> if P p then Some i else find_task P s is)"

definition setpgid_target :: "nat \<Rightarrow> ptask \<Rightarrow> nat \<Rightarrow> ptask \<Rightarrow> errno option" where
  "setpgid_target m cur i p =
     (if p_pptr p = m \<or> p_opptr p = m
      then if session p \<noteq> session cur then Some EPERM else if did_exec p then Some EACCES
           else if leader p \<noteq> 0 then Some EPERM else None
      else if i \<noteq> m then Some ESRCH
      else if leader p \<noteq> 0 then Some EPERM else None)"

definition setpgid_to :: "procs \<Rightarrow> ptask \<Rightarrow> int \<Rightarrow> int \<Rightarrow> procs \<times> res" where
  "setpgid_to s cur pd pgid =
     (if pgid < 0 then (s, Err EINVAL)
      else (case find_task (\<lambda>p. pid p = pd) s (ring s) of
              None \<Rightarrow> (s, Err ESRCH)
            | Some i \<Rightarrow>
                (case proc_at s i of
                   None \<Rightarrow> (s, Fault)
                 | Some p \<Rightarrow>
                     (case setpgid_target (me s) cur i p of
                        Some e \<Rightarrow> (s, Err e)
                      | None \<Rightarrow>
                          if pgid \<noteq> pd \<and> find_task (\<lambda>t. pgrp t = pgid \<and> session t = session cur) s (ring s) = None
                          then (s, Err EPERM)
                          else (s\<lparr>ptab := (ptab s)[i := Some (p\<lparr>pgrp := pgid\<rparr>)]\<rparr>, Ret 0)))))"

definition sys_setpgid :: "procs \<Rightarrow> int \<Rightarrow> int \<Rightarrow> procs \<times> res" where
  "sys_setpgid s pd pgid =
     (case proc_at s (me s) of
        None \<Rightarrow> (s, Fault)
      | Some cur \<Rightarrow>
          let pd = (if pd = 0 then pid cur else pd) in setpgid_to s cur pd (if pgid = 0 then pd else pgid))"

definition sys_getpgid :: "procs \<Rightarrow> int \<Rightarrow> res" where
  "sys_getpgid s pd =
     (case proc_at s (me s) of
        None \<Rightarrow> Fault
      | Some cur \<Rightarrow>
          if pd = 0 then Ret (pgrp cur)
          else (case find_task (\<lambda>p. pid p = pd) s (ring s) of
                  None \<Rightarrow> Err ESRCH
                | Some i \<Rightarrow> (case proc_at s i of None \<Rightarrow> Fault | Some p \<Rightarrow> Ret (pgrp p))))"

section \<open>The machine: reboot and names\<close>

datatype cad_action = Reset | SigintInit

text \<open>\<open>sys_reboot\<close>; \<open>None\<close> means that the machine is reset.\<close>

definition sys_reboot :: "ids_task \<Rightarrow> int \<Rightarrow> int \<Rightarrow> int \<Rightarrow> int \<Rightarrow> (int \<times> res) option" where
  "sys_reboot cur C_A_D magic magic_too flag =
     (if \<not> is_suser cur then Some (C_A_D, Err EPERM)
      else if u32 magic \<noteq> 4276215469 \<or> magic_too \<noteq> 672274793 then Some (C_A_D, Err EINVAL)
      else if flag = 19088743 then None
      else if u32 flag = 2309737967 then Some (1, Ret 0)
      else if flag = 0 then Some (0, Ret 0)
      else Some (C_A_D, Err EINVAL))"

definition ctrl_alt_del :: "int \<Rightarrow> cad_action" where
  "ctrl_alt_del C_A_D = (if C_A_D \<noteq> 0 then Reset else SigintInit)"

record utsname =
  sysname :: "int list"
  nodename :: "int list"
  release :: "int list"
  version :: "int list"
  machine :: "int list"
  domainname :: "int list"

text \<open>\<open>name\<close> is NULL, or comes with the answer of \<open>verify_area\<close>. The value is what user memory gets.\<close>

definition sys_newuname :: "utsname \<Rightarrow> errno option option \<Rightarrow> utsname option \<times> res" where
  "sys_newuname u name =
     (case name of None \<Rightarrow> (None, Err EFAULT) | Some (Some e) \<Rightarrow> (None, Err e) | Some None \<Rightarrow> (Some u, Ret 0))"

definition sys_uname :: "utsname \<Rightarrow> errno option option \<Rightarrow> int list list \<times> res" where
  "sys_uname u name =
     (case name of
        None \<Rightarrow> ([], Err EFAULT)
      | Some (Some e) \<Rightarrow> ([], Err e)
      | Some None \<Rightarrow> ([sysname u, nodename u, release u, version u, machine u], Ret 0))"

definition old_name :: "int list \<Rightarrow> int list" where "old_name n = take 8 n @ [0]"

definition sys_olduname :: "utsname \<Rightarrow> errno option option \<Rightarrow> int list list \<times> res" where
  "sys_olduname u name =
     (case name of
        None \<Rightarrow> ([], Err EFAULT)
      | Some (Some e) \<Rightarrow> ([], Err e)
      | Some None \<Rightarrow> (map old_name [sysname u, nodename u, release u, version u, machine u], Ret 0))"

text \<open>The copy loop of \<open>sys_sethostname\<close> and \<open>sys_setdomainname\<close>; \<open>None\<close> is a store behind the array, or a
  read behind the bytes \<open>bs\<close> of user memory.\<close>

fun copy_name :: "int list \<Rightarrow> nat \<Rightarrow> nat \<Rightarrow> int list \<Rightarrow> int list option" where
  "copy_name arr i 0 bs = aset arr (int i) 0"
| "copy_name arr i (Suc n) [] = None"
| "copy_name arr i (Suc n) (b # bs) =
     (case aset arr (int i) b of
        None \<Rightarrow> None
      | Some arr \<Rightarrow> if b = 0 then Some arr else copy_name arr (Suc i) n bs)"

definition sys_sethostname :: "ids_task \<Rightarrow> utsname \<Rightarrow> int list \<Rightarrow> int \<Rightarrow> utsname \<times> res" where
  "sys_sethostname cur u name len =
     (if \<not> is_suser cur then (u, Err EPERM)
      else if len > 64 then (u, Err EINVAL)
      else (case copy_name (nodename u) 0 (nat len) name of
              None \<Rightarrow> (u, Fault)
            | Some arr \<Rightarrow> (u\<lparr>nodename := arr\<rparr>, Ret 0)))"

definition sys_setdomainname :: "ids_task \<Rightarrow> utsname \<Rightarrow> int list \<Rightarrow> int \<Rightarrow> utsname \<times> res" where
  "sys_setdomainname cur u name len =
     (if \<not> is_suser cur then (u, Err EPERM)
      else if len > 64 then (u, Err EINVAL)
      else (case copy_name (domainname u) 0 (nat len) name of
              None \<Rightarrow> (u, Fault)
            | Some arr \<Rightarrow> (u\<lparr>domainname := arr\<rparr>, Ret 0)))"

end
