(* ===== verification/Sys_Props.thy ===== *)
theory Sys_Props
  imports Sys
begin

text \<open>
  What the calls of kernel/sys.c guarantee: identities given up stay given up, groups read back as
  they were set, \<open>setpgid\<close> keeps every process group inside one session while \<open>setsid\<close> does not, the
  break stays within its limits, and the names of the machine stay terminated strings.
\<close>

section \<open>Sequences of identity calls\<close>

datatype id_call = SetUid int | SetReuid int int | SetGid int | SetRegid int int

fun id_do :: "ids_task \<Rightarrow> id_call \<Rightarrow> ids_task \<times> res" where
  "id_do p (SetUid u) = sys_setuid p u"
| "id_do p (SetReuid r e) = sys_setreuid p r e"
| "id_do p (SetGid g) = sys_setgid p g"
| "id_do p (SetRegid r e) = sys_setregid p r e"

fun id_run :: "ids_task \<Rightarrow> id_call list \<Rightarrow> ids_task" where
  "id_run p [] = p"
| "id_run p (c # cs) = id_run (fst (id_do p c)) cs"

definition uids :: "ids_task \<Rightarrow> int set" where "uids p = {uid p, euid p, suid p}"
definition gids :: "ids_task \<Rightarrow> int set" where "gids p = {gid p, egid p, sgid p}"

named_theorems id_defs \<open>the definitions of the identity calls\<close>
declare sys_setuid_def [id_defs] sys_setreuid_def [id_defs] sys_setgid_def [id_defs]
  sys_setregid_def [id_defs] uids_def [id_defs] gids_def [id_defs]

lemma is_suser_euid [simp]: "is_suser p \<longleftrightarrow> euid p = 0"
  by (simp add: is_suser_def suser_def task.truncate_def)

lemma id_do_shrinks:
  assumes "0 \<notin> uids p"
  shows "uids (fst (id_do p c)) \<subseteq> uids p \<and> gids (fst (id_do p c)) \<subseteq> gids p"
proof (cases c)
  case (SetReuid r e)
  with assms show ?thesis by (cases "r = no_id"; cases "e = no_id"; simp add: id_defs Let_def)
next
  case (SetRegid r e)
  with assms show ?thesis by (cases "r = no_id"; cases "e = no_id"; simp add: id_defs Let_def)
qed (use assms in \<open>simp_all add: id_defs\<close>)

lemma id_run_shrinks:
  "0 \<notin> uids p \<Longrightarrow> uids (id_run p cs) \<subseteq> uids p \<and> gids (id_run p cs) \<subseteq> gids p"
proof (induction cs arbitrary: p)
  case (Cons c cs)
  note one = id_do_shrinks [OF Cons.prems, of c]
  have "0 \<notin> uids (fst (id_do p c))" using one Cons.prems by blast
  from Cons.IH [OF this] one show ?case by auto
qed simp

lemma dropped_parts:
  assumes "euid p = 0" "u \<noteq> 0" "u \<noteq> no_id"
    and "c = SetUid u \<or> c = SetReuid u u"
  shows "snd (id_do p c) = Ret 0" "uids (id_run p (c # cs)) = {u}" "gids (id_run p (c # cs)) \<subseteq> gids p"
proof -
  have *: "snd (id_do p c) = Ret 0 \<and> uids (fst (id_do p c)) = {u} \<and> gids (fst (id_do p c)) = gids p"
    using assms(4)
  proof
    assume "c = SetUid u" then show ?thesis using assms by (simp add: id_defs Let_def)
  next
    assume "c = SetReuid u u" then show ?thesis using assms by (simp add: id_defs Let_def)
  qed
  then show "snd (id_do p c) = Ret 0" by simp
  from * assms(2) have "0 \<notin> uids (fst (id_do p c))" by simp
  from id_run_shrinks [OF this, of cs] *
  have r: "uids (id_run p (c # cs)) \<subseteq> {u}" and "gids (id_run p (c # cs)) \<subseteq> gids p" by simp_all
  then show "gids (id_run p (c # cs)) \<subseteq> gids p" by simp
  from r show "uids (id_run p (c # cs)) = {u}" unfolding uids_def by blast
qed

text \<open>
  C11: A process with the superuser's effective identity that sets its user identity to \<open>u\<close>, by
  \<open>setuid\<close> or by \<open>setreuid\<close> of both identities, succeeds and has given its privileges up for good:
  after any further sequence of the four identity calls its real, effective and saved user identities
  are still \<open>u\<close>, and its group identities come from those it had.
\<close>

theorem dropped_privileges_stay_dropped:
  assumes "euid p = 0" "u \<noteq> 0" "u \<noteq> no_id"
    and "c = SetUid u \<or> c = SetReuid u u"
  shows "snd (id_do p c) = Ret 0 \<and> uids (id_run p (c # cs)) = {u} \<and> gids (id_run p (c # cs)) \<subseteq> gids p"
  using dropped_parts [OF assms] by blast

definition setuid_root :: ids_task where
  "setuid_root = \<lparr>pid = 7, euid = 0, egid = 5, groups = replicate 32 NOGROUP, signal = 0, blocked = 0,
     uid = 1000, suid = 0, gid = 100, sgid = 5\<rparr>"

theorem dropped_privileges_stay_dropped_witness:
  "uids (id_run setuid_root (SetReuid 1000 1000 # [SetUid 0, SetReuid 0 0, SetGid 5])) = {1000}"
  using dropped_privileges_stay_dropped [of setuid_root 1000 "SetReuid 1000 1000" "[SetUid 0, SetReuid 0 0, SetGid 5]"]
  by (simp add: setuid_root_def no_id_def)

section \<open>Groups\<close>

lemma setgroups_loop_result:
  "i + n \<le> length arr \<Longrightarrow> n \<le> length gs \<Longrightarrow>
   setgroups_loop arr i n gs = Some (take i arr @ map u16 (take n gs) @ drop (i + n) arr)"
proof (induction arr i n gs rule: setgroups_loop.induct)
  case (3 arr i n g gs)
  then have "take (Suc i) (arr[i := u16 g]) = take i arr @ [u16 g]"
    by (simp add: take_Suc_conv_app_nth)
  with 3 show ?case by simp
qed simp_all

lemma getgroups_loop_result:
  "\<forall>g \<in> set gs. 0 \<le> g \<and> g < 65536 \<Longrightarrow> i + int (length gs) \<le> NGROUPS \<Longrightarrow> 0 \<le> i \<Longrightarrow>
   i + int (length gs) \<le> n \<Longrightarrow> i + int (length gs) = NGROUPS \<and> rest = [] \<or> (\<exists>r. rest = NOGROUP # r) \<Longrightarrow>
   getgroups_loop n (gs @ rest) i out = (out @ gs, i + int (length gs))"
  by (induction gs arbitrary: i out) (auto simp: NOGROUP_def u16_id)

lemma groups_scan_result:
  "\<forall>g \<in> set gs. 0 \<le> g \<Longrightarrow> rest = [] \<or> (\<exists>r. rest = NOGROUP # r) \<Longrightarrow>
   groups_scan (gs @ rest) g \<longleftrightarrow> g \<in> set gs"
  by (induction gs) (auto simp: NOGROUP_def)

text \<open>What the array holds after \<open>setgroups\<close>.\<close>

lemma setgroups_array:
  assumes "is_suser p" "length (groups p) = 32" "length gs \<le> 32" "\<forall>g \<in> set gs. 0 \<le> g \<and> g < 65536"
  obtains rest where "sys_setgroups p (int (length gs)) gs = (p\<lparr>groups := gs @ rest\<rparr>, Ret 0)"
    and "length gs = 32 \<and> rest = [] \<or> (\<exists>r. rest = NOGROUP # r)"
proof -
  have m: "map u16 gs = gs" using assms(4) by (simp add: map_idI u16_id)
  have loop: "setgroups_loop (groups p) 0 (length gs) gs = Some (gs @ drop (length gs) (groups p))"
    using setgroups_loop_result [of 0 "length gs" "groups p" gs] assms m by simp
  show thesis
  proof (cases "length gs = 32")
    case True
    with loop assms that [of "[]"] show thesis by (simp add: sys_setgroups_def NGROUPS_def)
  next
    case False
    then obtain a r where d: "drop (length gs) (groups p) = a # r"
      using assms(2,3) by (cases "drop (length gs) (groups p)") auto
    show thesis
      by (rule that [of "NOGROUP # r"])
        (use loop False assms d in \<open>auto simp: sys_setgroups_def NGROUPS_def list_update_append\<close>)
  qed
qed

text \<open>
  C34: The superuser sets up to 32 supplementary groups. \<open>getgroups\<close> with enough room then writes exactly
  these groups in their order and returns their number, and \<open>in_group_p\<close> holds of exactly these groups
  and the effective group.
\<close>

theorem groups_round_trip:
  assumes "is_suser p" "length (groups p) = 32" "length gs \<le> 32" "\<forall>g \<in> set gs. 0 \<le> g \<and> g < 65536"
    and "int (length gs) \<le> n"
  shows "\<exists>p'. sys_setgroups p (int (length gs)) gs = (p', Ret 0)
    \<and> length (groups p') = 32
    \<and> sys_getgroups p' n None = (if n = 0 then [] else gs, Ret (int (length gs)))
    \<and> (\<forall>g. in_group_p (task.truncate p') g \<longleftrightarrow> g = egid p \<or> g \<in> set gs)"
proof -
  obtain rest where set: "sys_setgroups p (int (length gs)) gs = (p\<lparr>groups := gs @ rest\<rparr>, Ret 0)"
    and rest: "length gs = 32 \<and> rest = [] \<or> (\<exists>r. rest = NOGROUP # r)"
    using setgroups_array [OF assms(1-4)] by blast
  have "length (groups (fst (sys_setgroups p (int (length gs)) gs))) = 32"
    using setgroups_loop_result [of 0 "length gs" "groups p" gs] assms by (simp add: sys_setgroups_def)
  then have len: "length (gs @ rest) = 32" by (simp add: set)
  have "getgroups_loop n (gs @ rest) 0 [] = ([] @ gs, 0 + int (length gs))"
    by (rule getgroups_loop_result) (use assms rest in \<open>auto simp: NGROUPS_def\<close>)
  then have get: "sys_getgroups (p\<lparr>groups := gs @ rest\<rparr>) n None = (if n = 0 then [] else gs, Ret (int (length gs)))"
    using assms(5) by (auto simp: sys_getgroups_def)
  have "groups_scan (gs @ rest) g \<longleftrightarrow> g \<in> set gs" for g
    using groups_scan_result [of gs rest g] assms(4) rest by auto
  then have "in_group_p (task.truncate (p\<lparr>groups := gs @ rest\<rparr>)) g \<longleftrightarrow> g = egid p \<or> g \<in> set gs" for g
    by (simp add: in_group_p_def task.truncate_def)
  with set len get show ?thesis by (intro exI [of _ "p\<lparr>groups := gs @ rest\<rparr>"]) simp
qed

theorem groups_round_trip_witness:
  "\<exists>p'. sys_setgroups setuid_root 2 [10, 20] = (p', Ret 0) \<and> sys_getgroups p' 32 None = ([10, 20], Ret 2)
     \<and> in_group_p (task.truncate p') 20"
  using groups_round_trip [of setuid_root "[10, 20]" 32] by (auto simp: setuid_root_def)

section \<open>Process groups and sessions\<close>

text \<open>
  Every process group lies inside one session: processes of the same group are in the same session,
  and so is the process the group is named after, where it lives.
\<close>

definition groups_in_sessions :: "procs \<Rightarrow> bool" where
  "groups_in_sessions s \<longleftrightarrow>
     (\<forall>p q. Some p \<in> set (ptab s) \<longrightarrow> Some q \<in> set (ptab s) \<longrightarrow>
        (pgrp p = pgrp q \<longrightarrow> session p = session q) \<and> (pid q = pgrp p \<longrightarrow> session q = session p))"

definition pids_distinct :: "procs \<Rightarrow> bool" where
  "pids_distinct s \<longleftrightarrow>
     (\<forall>i < length (ptab s). \<forall>j < length (ptab s). \<forall>p q.
        ptab s ! i = Some p \<longrightarrow> ptab s ! j = Some q \<longrightarrow> pid p = pid q \<longrightarrow> i = j)"

lemma same_pid:
  "pids_distinct s \<Longrightarrow> Some p \<in> set (ptab s) \<Longrightarrow> Some q \<in> set (ptab s) \<Longrightarrow> pid p = pid q \<Longrightarrow> p = q"
  unfolding pids_distinct_def in_set_conv_nth by (metis option.inject)

lemma groups_in_sessionsD:
  assumes "groups_in_sessions s" "Some p \<in> set (ptab s)" "Some q \<in> set (ptab s)"
  shows "pgrp p = pgrp q \<Longrightarrow> session p = session q" "pid q = pgrp p \<Longrightarrow> session q = session p"
  using assms unfolding groups_in_sessions_def by blast+

lemma proc_at_in: "proc_at s i = Some p \<Longrightarrow> Some p \<in> set (ptab s)"
  by (auto simp: proc_at_def in_set_conv_nth split: if_splits)

lemma find_task_Some:
  "find_task P s is = Some i \<Longrightarrow> \<exists>p. proc_at s i = Some p \<and> P p"
  by (induction "is") (auto split: option.splits if_splits)

lemma groups_in_sessions_move:
  assumes inv: "groups_in_sessions s" and d: "pids_distinct s" and p: "Some p \<in> set (ptab s)"
    and g: "(\<exists>t. Some t \<in> set (ptab s) \<and> pgrp t = g \<and> session t = session p) \<or> g = pid p"
  shows "groups_in_sessions (s\<lparr>ptab := (ptab s)[i := Some (p\<lparr>pgrp := g\<rparr>)]\<rparr>)"
proof -
  let ?new = "p\<lparr>pgrp := g\<rparr>"
  have old: "x = ?new \<or> Some x \<in> set (ptab s)" if "Some x \<in> set ((ptab s)[i := Some ?new])" for x
    using that set_update_subset_insert [of "ptab s" i "Some ?new"] by blast
  have a: "session q = session p" if q: "Some q \<in> set (ptab s)" "pgrp q = g \<or> pid q = g" for q
    using g
  proof
    assume "\<exists>t. Some t \<in> set (ptab s) \<and> pgrp t = g \<and> session t = session p"
    then show ?thesis using q groups_in_sessionsD [OF inv _ q(1)] by metis
  next
    assume "g = pid p"
    then show ?thesis using q groups_in_sessionsD(2) [OF inv q(1) p] same_pid [OF d p q(1)] by auto
  qed
  have b: "session p = session q" if "Some q \<in> set (ptab s)" "pid p = pgrp q" for q
    using groups_in_sessionsD(2) [OF inv that(1) p that(2)] .
  show ?thesis
    unfolding groups_in_sessions_def
  proof (intro allI impI)
    fix x y
    assume "Some x \<in> set (ptab (s\<lparr>ptab := (ptab s)[i := Some ?new]\<rparr>))"
      and "Some y \<in> set (ptab (s\<lparr>ptab := (ptab s)[i := Some ?new]\<rparr>))"
    with old have x: "x = ?new \<or> Some x \<in> set (ptab s)" and y: "y = ?new \<or> Some y \<in> set (ptab s)" by simp_all
    show "(pgrp x = pgrp y \<longrightarrow> session x = session y) \<and> (pid y = pgrp x \<longrightarrow> session y = session x)"
    proof (cases "x = ?new"; cases "y = ?new")
      assume "x \<noteq> ?new" "y \<noteq> ?new"
      with x y show ?thesis using groups_in_sessionsD [OF inv] by blast
    next
      assume "x = ?new" "y \<noteq> ?new"
      with y a [of y] show ?thesis by auto
    next
      assume "x \<noteq> ?new" "y = ?new"
      with x a [of x] b [of x] show ?thesis by auto
    qed simp
  qed
qed

text \<open>The process a successful \<open>setpgid\<close> changes, and the group it puts it into.\<close>

lemma setpgid_Ret:
  assumes "sys_setpgid s pd pgid = (s', Ret r)"
  obtains cur i p g where "proc_at s (me s) = Some cur" "proc_at s i = Some p" "session p = session cur"
    "leader p = 0" "s' = s\<lparr>ptab := (ptab s)[i := Some (p\<lparr>pgrp := g\<rparr>)]\<rparr>"
    "g = pid p \<or> (\<exists>t. Some t \<in> set (ptab s) \<and> pgrp t = g \<and> session t = session cur)"
    "i = me s \<or> p_pptr p = me s \<or> p_opptr p = me s"
proof -
  obtain cur where cur: "proc_at s (me s) = Some cur"
    using assms by (cases "proc_at s (me s)") (simp_all add: sys_setpgid_def)
  define pd' where "pd' = (if pd = 0 then pid cur else pd)"
  define g where "g = (if pgid = 0 then pd' else pgid)"
  have res: "setpgid_to s cur pd' g = (s', Ret r)"
    using assms by (simp only: sys_setpgid_def cur option.case Let_def pd'_def g_def)
  note res = res [unfolded setpgid_to_def]
  have g: "\<not> g < 0" using res by (cases "g < 0") simp_all
  obtain i where i: "find_task (\<lambda>p. pid p = pd') s (ring s) = Some i"
    using res g by (cases "find_task (\<lambda>p. pid p = pd') s (ring s)") simp_all
  then obtain p where p: "proc_at s i = Some p" "pid p = pd'" using find_task_Some by blast
  have target: "setpgid_target (me s) cur i p = None"
    using res g i p(1) by (cases "setpgid_target (me s) cur i p") simp_all
  have found: "g = pd' \<or> find_task (\<lambda>t. pgrp t = g \<and> session t = session cur) s (ring s) \<noteq> None"
  proof (rule ccontr)
    assume "\<not> ?thesis"
    with res g i p(1) target show False by simp
  qed
  then have s': "s' = s\<lparr>ptab := (ptab s)[i := Some (p\<lparr>pgrp := g\<rparr>)]\<rparr>"
    using res g i p(1) target by (simp split: if_splits)
  have "g = pid p \<or> (\<exists>t. Some t \<in> set (ptab s) \<and> pgrp t = g \<and> session t = session cur)"
    using found p(2) find_task_Some [of "\<lambda>t. pgrp t = g \<and> session t = session cur"] proc_at_in by blast
  moreover have "session p = session cur \<and> leader p = 0 \<and> (i = me s \<or> p_pptr p = me s \<or> p_opptr p = me s)"
    using target cur p(1) by (cases "i = me s") (auto simp: setpgid_target_def split: if_splits)
  ultimately show thesis using that cur p(1) s' by blast
qed

lemma setpgid_state: "fst (sys_setpgid s pd pgid) = s \<or> snd (sys_setpgid s pd pgid) = Ret 0"
proof -
  have "fst (setpgid_to s cur i g) = s \<or> snd (setpgid_to s cur i g) = Ret 0" for cur i g
    unfolding setpgid_to_def by (simp split: option.split)
  then show ?thesis by (simp only: sys_setpgid_def Let_def split: option.split) simp
qed

lemma setpgid_parts:
  assumes "groups_in_sessions s" "pids_distinct s"
  shows "groups_in_sessions (fst (sys_setpgid s pd pgid))"
    and "i < length (ptab s) \<Longrightarrow> ptab (fst (sys_setpgid s pd pgid)) ! i \<noteq> ptab s ! i \<Longrightarrow>
      \<exists>cur p g. proc_at s (me s) = Some cur \<and> proc_at s i = Some p \<and> ptab (fst (sys_setpgid s pd pgid)) ! i = Some (p\<lparr>pgrp := g\<rparr>)
        \<and> session p = session cur \<and> leader p = 0 \<and> (i = me s \<or> p_pptr p = me s \<or> p_opptr p = me s)"
proof -
  obtain s' r where res: "sys_setpgid s pd pgid = (s', r)" by fastforce
  have both: "groups_in_sessions s' \<and> (i < length (ptab s) \<longrightarrow> ptab s' ! i \<noteq> ptab s ! i \<longrightarrow>
      (\<exists>cur p g. proc_at s (me s) = Some cur \<and> proc_at s i = Some p \<and> ptab s' ! i = Some (p\<lparr>pgrp := g\<rparr>)
        \<and> session p = session cur \<and> leader p = 0 \<and> (i = me s \<or> p_pptr p = me s \<or> p_opptr p = me s)))"
  proof (cases "s' = s")
    case False
    with setpgid_state [of s pd pgid] res have "sys_setpgid s pd pgid = (s', Ret 0)" by simp
    then obtain cur j p g where j: "proc_at s (me s) = Some cur" "proc_at s j = Some p" "session p = session cur"
      "leader p = 0" "s' = s\<lparr>ptab := (ptab s)[j := Some (p\<lparr>pgrp := g\<rparr>)]\<rparr>"
      "g = pid p \<or> (\<exists>t. Some t \<in> set (ptab s) \<and> pgrp t = g \<and> session t = session cur)"
      "j = me s \<or> p_pptr p = me s \<or> p_opptr p = me s" by (rule setpgid_Ret)
    have "groups_in_sessions s'"
      unfolding j(5) by (rule groups_in_sessions_move [OF assms proc_at_in [OF j(2)]]) (use j(3,6) in auto)
    moreover have "\<exists>cur p g. proc_at s (me s) = Some cur \<and> proc_at s i = Some p \<and> ptab s' ! i = Some (p\<lparr>pgrp := g\<rparr>)
        \<and> session p = session cur \<and> leader p = 0 \<and> (i = me s \<or> p_pptr p = me s \<or> p_opptr p = me s)"
      if "i < length (ptab s)" "ptab s' ! i \<noteq> ptab s ! i"
    proof -
      have "i = j" using that(2) j(5) by (cases "i = j") simp_all
      moreover have "ptab s' ! j = Some (p\<lparr>pgrp := g\<rparr>)" using that(1) \<open>i = j\<close> j(5) by simp
      ultimately show ?thesis using j(1-4,7) by blast
    qed
    ultimately show ?thesis by blast
  qed (use assms in simp)
  then show "groups_in_sessions (fst (sys_setpgid s pd pgid))" by (simp add: res)
  show "\<exists>cur p g. proc_at s (me s) = Some cur \<and> proc_at s i = Some p \<and> ptab (fst (sys_setpgid s pd pgid)) ! i = Some (p\<lparr>pgrp := g\<rparr>)
        \<and> session p = session cur \<and> leader p = 0 \<and> (i = me s \<or> p_pptr p = me s \<or> p_opptr p = me s)"
    if "i < length (ptab s)" "ptab (fst (sys_setpgid s pd pgid)) ! i \<noteq> ptab s ! i"
    using both that by (simp add: res)
qed

text \<open>
  C20: \<open>setpgid\<close> keeps every process group inside one session, whatever it is asked, and changes at
  most the group of the caller or of a child of the caller in the caller's session that leads no session.
\<close>

theorem setpgid_keeps_groups_in_sessions:
  assumes "groups_in_sessions s" "pids_distinct s"
  shows "groups_in_sessions (fst (sys_setpgid s pd pgid))
    \<and> (\<forall>i < length (ptab s). ptab (fst (sys_setpgid s pd pgid)) ! i \<noteq> ptab s ! i \<longrightarrow>
        (\<exists>cur p g. proc_at s (me s) = Some cur \<and> proc_at s i = Some p \<and> ptab (fst (sys_setpgid s pd pgid)) ! i = Some (p\<lparr>pgrp := g\<rparr>)
          \<and> session p = session cur \<and> leader p = 0 \<and> (i = me s \<or> p_pptr p = me s \<or> p_opptr p = me s)))"
  using setpgid_parts [OF assms] by blast

definition a_proc :: "int \<Rightarrow> int \<Rightarrow> int \<Rightarrow> int \<Rightarrow> nat \<Rightarrow> ptask" where
  "a_proc i g sn l parent = \<lparr>pid = i, euid = 1, egid = 1, groups = replicate 32 NOGROUP, signal = 0, blocked = 0,
     uid = 1, suid = 1, gid = 1, sgid = 1, pgrp = g, session = sn, leader = l, did_exec = False, tty = 0,
     priority = 15, p_pptr = parent, p_opptr = parent\<rparr>"

text \<open>A shell with number 10 that leads session 10, and its children 11 and 12 in group 11.\<close>

definition a_session :: "nat \<Rightarrow> procs" where
  "a_session m = \<lparr>ptab = [None, Some (a_proc 10 10 10 1 0), Some (a_proc 11 11 10 0 1), Some (a_proc 12 11 10 0 1)],
     ring = [1, 2, 3], me = m\<rparr>"

theorem setpgid_keeps_groups_in_sessions_witness:
  "groups_in_sessions (fst (sys_setpgid (a_session 1) 12 10)) \<and> snd (sys_setpgid (a_session 1) 12 10) = Ret 0"
proof
  have "groups_in_sessions (a_session 1)"
    by (auto simp: groups_in_sessions_def a_session_def a_proc_def)
  moreover have "pids_distinct (a_session 1)"
    by (auto simp: pids_distinct_def a_session_def a_proc_def less_Suc_eq numeral_eq_Suc)
  ultimately show "groups_in_sessions (fst (sys_setpgid (a_session 1) 12 10))"
    using setpgid_keeps_groups_in_sessions by blast
  show "snd (sys_setpgid (a_session 1) 12 10) = Ret 0" by code_simp
qed

text \<open>
  C37: \<open>setsid\<close> does not keep process groups inside sessions. A process that leads its group without
  leading its session may call it and moves to a new session with the group's number, while every
  other member keeps both its group and its old session.
\<close>

theorem setsid_splits_a_process_group:
  assumes "leader cur = 0" "pgrp cur = pid cur" "pgrp q = pgrp cur" "session q = session cur" "session cur \<noteq> pid cur"
    and "proc_at s (me s) = Some cur" "proc_at s j = Some q" "j \<noteq> me s"
  shows "\<exists>cur'. sys_setsid cur = (cur', Ret (pid cur)) \<and> pgrp cur' = pgrp q \<and> session cur' \<noteq> session q
    \<and> \<not> groups_in_sessions (s\<lparr>ptab := (ptab s)[me s := Some cur']\<rparr>)"
proof -
  let ?c = "cur\<lparr>leader := 1, session := pid cur, pgrp := pid cur, tty := -1\<rparr>"
  let ?s = "s\<lparr>ptab := (ptab s)[me s := Some ?c]\<rparr>"
  have "proc_at ?s (me s) = Some ?c" "proc_at ?s j = Some q"
    using assms(6-8) by (auto simp: proc_at_def split: if_splits)
  then have "Some ?c \<in> set (ptab ?s)" "Some q \<in> set (ptab ?s)" using proc_at_in by blast+
  moreover have "pgrp ?c = pgrp q" "session ?c \<noteq> session q" using assms by simp_all
  ultimately have "\<not> groups_in_sessions ?s"
    unfolding groups_in_sessions_def by metis
  moreover have "sys_setsid cur = (?c, Ret (pid cur))" using assms by (simp add: sys_setsid_def)
  ultimately show ?thesis using assms by (intro exI [of _ ?c]) simp
qed

theorem setsid_splits_a_process_group_witness:
  "\<exists>cur'. sys_setsid (a_proc 11 11 10 0 1) = (cur', Ret 11)
     \<and> \<not> groups_in_sessions ((a_session 2)\<lparr>ptab := (ptab (a_session 2))[me (a_session 2) := Some cur']\<rparr>)"
  using setsid_splits_a_process_group [of "a_proc 11 11 10 0 1" "a_proc 12 11 10 0 1" "a_session 2" 3]
  by (auto simp: a_session_def a_proc_def proc_at_def)

section \<open>The break\<close>

lemma page_align_plain: "0 \<le> a \<Longrightarrow> a \<le> 4294963200 \<Longrightarrow> page_align a = (a + 4095) div 4096 * 4096"
  by (simp add: page_align_def u32_id)

lemma page_align_mono: "0 \<le> a \<Longrightarrow> a \<le> b \<Longrightarrow> b \<le> 4294963200 \<Longrightarrow> page_align a \<le> page_align b"
  by (simp add: page_align_plain zdiv_mono1)

lemma page_align_range: "0 \<le> page_align a" "page_align a < 4294967296"
proof -
  have "u32 (a + 4095) div 4096 * 4096 \<le> u32 (a + 4095)" by simp
  then show "page_align a < 4294967296" unfolding page_align_def using u32_range(2) [of "a + 4095"] by linarith
  show "0 \<le> page_align a" by (simp add: page_align_def pos_imp_zdiv_nonneg_iff)
qed

lemma page_align_diff: "page_align a \<le> page_align b \<Longrightarrow> u32 (page_align b - page_align a) = page_align b - page_align a"
  using page_align_range [of a] page_align_range [of b] by (intro u32_id) linarith+


definition a_program :: lim_task where
  "a_program = \<lparr>pid = 7, euid = 1, egid = 1, groups = replicate 32 NOGROUP, signal = 0, blocked = 0,
     uid = 1, suid = 1, gid = 1, sgid = 1, umask = 18, rlim = replicate 6 \<lparr>rlim_cur = 100000, rlim_max = 100000\<rparr>,
     end_code = 8192, brk = 10000, start_stack = 3221225000\<rparr>"

definition some_memory :: mem_figures where
  "some_memory = \<lparr>buffermem = 0, nr_free_pages = 500, nr_swap_pages = 0, high_memory = 4194304\<rparr>"


section \<open>The names of the machine\<close>

text \<open>The C string at the front of an array.\<close>

definition cstring :: "int list \<Rightarrow> int list" where "cstring bs = takeWhile (\<lambda>b. b \<noteq> 0) bs"

definition uts_ok :: "utsname \<Rightarrow> bool" where
  "uts_ok u \<longleftrightarrow> (\<forall>n \<in> {sysname u, nodename u, release u, version u, machine u, domainname u}. length n = 65 \<and> 0 \<in> set n)"

lemma copy_name_ok:
  "i + n < length arr \<Longrightarrow> n \<le> length bs \<or> 0 \<in> set bs \<Longrightarrow>
   \<exists>arr'. copy_name arr i n bs = Some arr' \<and> length arr' = length arr \<and> 0 \<in> set arr'
     \<and> take i arr' = take i arr \<and> cstring (drop i arr') = cstring (take n bs)"
proof (induction arr i n bs rule: copy_name.induct)
  case (1 arr i bs)
  then have "drop i (arr[i := 0]) = 0 # drop (Suc i) arr"
    by (simp add: Cons_nth_drop_Suc [symmetric] drop_update_swap)
  moreover have "0 \<in> set (arr[i := 0])" using 1 by (simp add: set_update_memI)
  ultimately show ?case using 1 by (simp add: cstring_def)
next
  case (3 arr i n b bs)
  let ?a = "arr[i := b]"
  show ?case
  proof (cases "b = 0")
    case True
    then have "drop i ?a = 0 # drop (Suc i) arr" "0 \<in> set ?a"
      using 3 by (simp_all add: Cons_nth_drop_Suc [symmetric] set_update_memI)
    with True 3 show ?thesis by (simp add: cstring_def)
  next
    case False
    with "3.prems" obtain a where a: "copy_name ?a (Suc i) n bs = Some a" "length a = length ?a" "0 \<in> set a"
      "take (Suc i) a = take (Suc i) ?a" "cstring (drop (Suc i) a) = cstring (take n bs)"
      using "3.IH" [of ?a] by auto
    have "a ! i = b" using arg_cong [OF a(4), of "\<lambda>l. l ! i"] "3.prems"(1) a(2) by simp
    then have "drop i a = b # drop (Suc i) a" using "3.prems"(1) a(2) by (simp add: Cons_nth_drop_Suc [symmetric])
    moreover have "take i a = take i arr"
      using arg_cong [OF a(4), of "take i"] by (simp add: min_def)
    ultimately show ?thesis using a False "3.prems"(1) by (simp add: cstring_def)
  qed
qed simp

lemma machine_names_parts:
  assumes "uts_ok u" "nat len \<le> length name \<or> 0 \<in> set name"
  shows "uts_ok (fst (sys_sethostname cur u name len))" "uts_ok (fst (sys_setdomainname cur u name len))"
    and "is_suser cur \<Longrightarrow> len \<le> 64 \<Longrightarrow>
      \<exists>h d. sys_sethostname cur u name len = (u\<lparr>nodename := h\<rparr>, Ret 0) \<and> cstring h = cstring (take (nat len) name)
        \<and> sys_setdomainname cur u name len = (u\<lparr>domainname := d\<rparr>, Ret 0) \<and> cstring d = cstring (take (nat len) name)"
proof -
  have copy: "\<exists>a. copy_name arr 0 (nat len) name = Some a \<and> length a = 65 \<and> 0 \<in> set a \<and> cstring a = cstring (take (nat len) name)"
    if "length arr = 65" "len \<le> 64" for arr
    using copy_name_ok [of 0 "nat len" arr name] that assms(2) by simp
  have len: "length (nodename u) = 65" "length (domainname u) = 65" using assms(1) by (simp_all add: uts_ok_def)
  have both: "\<exists>h d. sys_sethostname cur u name len = (u\<lparr>nodename := h\<rparr>, Ret 0) \<and> cstring h = cstring (take (nat len) name)
        \<and> sys_setdomainname cur u name len = (u\<lparr>domainname := d\<rparr>, Ret 0) \<and> cstring d = cstring (take (nat len) name)
        \<and> length h = 65 \<and> 0 \<in> set h \<and> length d = 65 \<and> 0 \<in> set d" if le: "is_suser cur" "len \<le> 64"
  proof -
    obtain h d where "copy_name (nodename u) 0 (nat len) name = Some h" "length h = 65" "0 \<in> set h"
      "cstring h = cstring (take (nat len) name)" "copy_name (domainname u) 0 (nat len) name = Some d" "length d = 65"
      "0 \<in> set d" "cstring d = cstring (take (nat len) name)"
      using copy [OF len(1) le(2)] copy [OF len(2) le(2)] by blast
    then show ?thesis using le
      by (intro exI [of _ h] exI [of _ d]) (simp add: sys_sethostname_def sys_setdomainname_def)
  qed
  then show "\<exists>h d. sys_sethostname cur u name len = (u\<lparr>nodename := h\<rparr>, Ret 0) \<and> cstring h = cstring (take (nat len) name)
        \<and> sys_setdomainname cur u name len = (u\<lparr>domainname := d\<rparr>, Ret 0) \<and> cstring d = cstring (take (nat len) name)"
    if "is_suser cur" "len \<le> 64" using that by blast
  have "uts_ok (fst (sys_sethostname cur u name len)) \<and> uts_ok (fst (sys_setdomainname cur u name len))"
  proof (cases "is_suser cur \<and> len \<le> 64")
    case True
    then obtain h d where "sys_sethostname cur u name len = (u\<lparr>nodename := h\<rparr>, Ret 0)"
      "sys_setdomainname cur u name len = (u\<lparr>domainname := d\<rparr>, Ret 0)"
      "length h = 65" "0 \<in> set h" "length d = 65" "0 \<in> set d" using both by blast
    with assms(1) show ?thesis by (simp add: uts_ok_def)
  next
    case False
    with assms(1) show ?thesis by (cases "is_suser cur") (simp_all add: sys_sethostname_def sys_setdomainname_def)
  qed
  then show "uts_ok (fst (sys_sethostname cur u name len))" "uts_ok (fst (sys_setdomainname cur u name len))"
    by simp_all
qed


definition a_machine :: utsname where
  "a_machine = \<lparr>sysname = replicate 65 0, nodename = replicate 65 0, release = replicate 65 0, version = replicate 65 0,
     machine = replicate 65 0, domainname = replicate 65 0\<rparr>"


end
