(* ===== verification/Vsprintf.thy ===== *)
theory Vsprintf
  imports KPrelude
begin

text \<open>
  kernel/vsprintf.c, the formatting and number parsing of the kernel, with the character classes of
  lib/ctype.c that it uses.

  C strings are lists of characters without the end mark, so the end of the list is the character 0.
  The output buffer is the list of characters stored so far; the code does not know its length. The
  variable arguments are a list of values; taking an argument that is not there or has another type
  has no value. \<open>None\<close> also stands for a loop that does not end and for a read outside an array.
\<close>

section \<open>Character classes\<close>

text \<open>The classes of the table \<open>_ctype\<close>, whose first entry belongs to the index -1.\<close>

definition ct_U :: int where "ct_U = 1"
definition ct_L :: int where "ct_L = 2"
definition ct_D :: int where "ct_D = 4"
definition ct_C :: int where "ct_C = 8"
definition ct_P :: int where "ct_P = 16"
definition ct_S :: int where "ct_S = 32"
definition ct_X :: int where "ct_X = 64"
definition ct_SP :: int where "ct_SP = 128"

definition ctype_table :: "int list" where
  "ctype_table =
     [0] @ replicate 9 ct_C @ replicate 5 (ct_C OR ct_S) @ replicate 18 ct_C
     @ [ct_S OR ct_SP] @ replicate 15 ct_P @ replicate 10 ct_D @ replicate 7 ct_P
     @ replicate 6 (ct_U OR ct_X) @ replicate 20 ct_U @ replicate 6 ct_P
     @ replicate 6 (ct_L OR ct_X) @ replicate 20 ct_L @ replicate 4 ct_P @ [ct_C] @ replicate 128 0"

text \<open>A plain \<open>char\<close> is signed.\<close>

definition char_val :: "char \<Rightarrow> int" where
  "char_val c = (if of_char c < (128 :: int) then of_char c else of_char c - 256)"

definition ctype_is :: "int \<Rightarrow> char \<Rightarrow> bool option" where
  "ctype_is cls c = map_option (\<lambda>v. v AND cls \<noteq> 0) (aget ctype_table (1 + char_val c))"

section \<open>Parsing a number\<close>

text \<open>The value of a character as a digit, and whether it is one in any base.\<close>

definition digit_val :: "char \<Rightarrow> int option" where
  "digit_val c =
     (case (ctype_is ct_D c, ctype_is ct_L c) of
        (Some d, Some l) \<Rightarrow>
          Some (u32 (if d then char_val c - char_val CHR ''0''
                     else (if l then char_val c - (char_val CHR ''a'' - char_val CHR ''A'') else char_val c)
                          - char_val CHR ''A'' + 10))
      | _ \<Rightarrow> None)"

fun strtoul_loop :: "string \<Rightarrow> int \<Rightarrow> int \<Rightarrow> (int \<times> string) option" where
  "strtoul_loop [] base result = Some (result, [])"
| "strtoul_loop (c # cp) base result =
     (case ctype_is (ct_D OR ct_X) c of
        None \<Rightarrow> None
      | Some False \<Rightarrow> Some (result, c # cp)
      | Some True \<Rightarrow>
          (case digit_val c of
             None \<Rightarrow> None
           | Some v \<Rightarrow> if v < base then strtoul_loop cp base (u32 (result * base + v)) else Some (result, c # cp)))"

definition strtoul_base :: "string \<Rightarrow> (string \<times> int) option" where
  "strtoul_base cp =
     (case cp of
        c0 # cp1 \<Rightarrow>
          if c0 = CHR ''0''
          then (case cp1 of
                  c1 # c2 # cp3 \<Rightarrow>
                    if c1 = CHR ''x''
                    then map_option (\<lambda>h. if h then (c2 # cp3, 16) else (cp1, 8)) (ctype_is (ct_D OR ct_X) c2)
                    else Some (cp1, 8)
                | _ \<Rightarrow> Some (cp1, 8))
          else Some (cp, 10)
      | [] \<Rightarrow> Some (cp, 10))"

text \<open>The result and what \<open>*endp\<close> points to.\<close>

definition simple_strtoul :: "string \<Rightarrow> int \<Rightarrow> (int \<times> string) option" where
  "simple_strtoul cp base =
     (if base = 0
      then (case strtoul_base cp of None \<Rightarrow> None | Some (cp, base) \<Rightarrow> strtoul_loop cp base 0)
      else strtoul_loop cp base 0)"

section \<open>Printing a number\<close>

definition is_digit :: "char \<Rightarrow> bool" where
  "is_digit c \<longleftrightarrow> char_val CHR ''0'' \<le> char_val c \<and> char_val c \<le> char_val CHR ''9''"

fun skip_atoi :: "string \<Rightarrow> int \<Rightarrow> string \<times> int" where
  "skip_atoi [] i = ([], i)"
| "skip_atoi (c # s) i =
     (if is_digit c then skip_atoi s (s32 (i * 10 + char_val c - char_val CHR ''0'')) else (c # s, i))"

definition ZEROPAD :: int where "ZEROPAD = 1"
definition SIGN :: int where "SIGN = 2"
definition PLUS :: int where "PLUS = 4"
definition SPACE :: int where "SPACE = 8"
definition LEFT :: int where "LEFT = 16"
definition SPECIAL :: int where "SPECIAL = 32"
definition SMALL :: int where "SMALL = 64"

abbreviation flag :: "int \<Rightarrow> int \<Rightarrow> bool" where "flag typ f \<equiv> typ AND f \<noteq> 0"

definition upper_digits :: string where "upper_digits = ''0123456789ABCDEFGHIJKLMNOPQRSTUVWXYZ''"
definition lower_digits :: string where "lower_digits = ''0123456789abcdefghijklmnopqrstuvwxyz''"

text \<open>The loop over \<open>do_div\<close>, an unsigned division; \<open>tmp\<close> gets the last digit first.\<close>

partial_function (option) digit_loop :: "string \<Rightarrow> int \<Rightarrow> int \<Rightarrow> string \<Rightarrow> string option" where
  "digit_loop digits num base tmp =
     (if num = 0 then Some tmp
      else digit_loop digits (num div base) base (tmp @ [digits ! nat (num mod base)]))"

text \<open>\<open>while (size-- > 0) *str++ = c\<close>: the characters stored and the \<open>size\<close> left.\<close>

definition pad :: "char \<Rightarrow> int \<Rightarrow> string \<times> int" where
  "pad c n = (replicate (nat n) c, if n > 0 then -1 else s32 (n - 1))"

text \<open>The characters from the digits on: padding, sign, prefix, zeros, digits.\<close>

definition number_out :: "string \<Rightarrow> int \<Rightarrow> int \<Rightarrow> int \<Rightarrow> int \<Rightarrow> string \<Rightarrow> string \<Rightarrow> string" where
  "number_out digits base n precision typ sg tmp =
     (let c = (if flag typ ZEROPAD then CHR ''0'' else CHR '' '');
          i = int (length tmp);
          precision = (if i > precision then i else precision);
          n = s32 (n - precision);
          (lead, n) = (if \<not> flag typ (ZEROPAD + LEFT) then pad CHR '' '' n else ([], n));
          prefix = (if flag typ SPECIAL
                    then if base = 8 then [CHR ''0''] else if base = 16 then [CHR ''0'', digits ! 33] else []
                    else []);
          (mid, n) = (if \<not> flag typ LEFT then pad c n else ([], n));
          zeros = replicate (nat (precision - i)) CHR ''0'';
          (trail, n) = pad CHR '' '' n
      in lead @ sg @ prefix @ mid @ zeros @ rev tmp @ trail)"

text \<open>The inner \<open>None\<close> is the null pointer that \<open>number\<close> returns for a base it does not know.\<close>

definition number :: "string \<Rightarrow> int \<Rightarrow> int \<Rightarrow> int \<Rightarrow> int \<Rightarrow> int \<Rightarrow> string option option" where
  "number str num base n precision typ =
     (let digits = (if flag typ SMALL then lower_digits else upper_digits);
          typ = (if flag typ LEFT then typ AND NOT ZEROPAD else typ)
      in if base < 2 \<or> base > 36 then Some None
         else (let neg = (flag typ SIGN \<and> num < 0);
                   num = (if neg then s32 (- num) else num);
                   sg = (if neg then [CHR ''-''] else if flag typ PLUS then [CHR ''+''] else if flag typ SPACE then [CHR '' ''] else []);
                   n = (if sg \<noteq> [] then s32 (n - 1) else n);
                   n = (if flag typ SPECIAL then if base = 16 then s32 (n - 2) else if base = 8 then s32 (n - 1) else n else n)
               in case (if num = 0 then Some [CHR ''0''] else digit_loop digits (u32 num) base []) of
                    None \<Rightarrow> None
                  | Some tmp \<Rightarrow> Some (Some (str @ number_out digits base n precision typ sg tmp))))"

section \<open>Formatting\<close>

text \<open>
  An argument: an integer or pointer, a string, which may be null, or the place of a variable for
  \<open>%n\<close>. The stores of \<open>%n\<close> are collected.
\<close>

datatype varg = AInt int | AStr "string option" | AOut nat

type_synonym stores = "(nat \<times> int) list"

fun flags_loop :: "string \<Rightarrow> int \<Rightarrow> string \<times> int" where
  "flags_loop [] flags = ([], flags)"
| "flags_loop (c # fmt) flags =
     (if c = CHR ''-'' then flags_loop fmt (flags OR LEFT)
      else if c = CHR ''+'' then flags_loop fmt (flags OR PLUS)
      else if c = CHR '' '' then flags_loop fmt (flags OR SPACE)
      else if c = CHR ''#'' then flags_loop fmt (flags OR SPECIAL)
      else if c = CHR ''0'' then flags_loop fmt (flags OR ZEROPAD)
      else (c # fmt, flags))"

fun arg_int :: "varg list \<Rightarrow> (int \<times> varg list) option" where
  "arg_int (AInt i # args) = Some (i, args)"
| "arg_int _ = None"

text \<open>The field width: remaining format and arguments, width, flags. A \<open>*\<close> stays in the format.\<close>

definition get_width :: "string \<Rightarrow> int \<Rightarrow> varg list \<Rightarrow> (string \<times> int \<times> int \<times> varg list) option" where
  "get_width fmt flags args =
     (case fmt of
        c # fmt' \<Rightarrow>
          if is_digit c then (case skip_atoi fmt 0 of (fmt, w) \<Rightarrow> Some (fmt, w, flags, args))
          else if c = CHR ''*''
          then map_option (\<lambda>(w, args). if s32 w < 0 then (fmt, s32 (- s32 w), flags OR LEFT, args) else (fmt, s32 w, flags, args))
                 (arg_int args)
          else Some (fmt, -1, flags, args)
      | [] \<Rightarrow> Some (fmt, -1, flags, args))"

definition get_precision :: "string \<Rightarrow> varg list \<Rightarrow> (string \<times> int \<times> varg list) option" where
  "get_precision fmt args =
     (case fmt of
        d # fmt1 \<Rightarrow>
          if d = CHR ''.''
          then (case fmt1 of
                  c # fmt2 \<Rightarrow>
                    if is_digit c then (case skip_atoi fmt1 0 of (fmt, p) \<Rightarrow> Some (fmt, if p < 0 then 0 else p, args))
                    else if c = CHR ''*'' then map_option (\<lambda>(p, args). (fmt1, if s32 p < 0 then 0 else s32 p, args)) (arg_int args)
                    else Some (fmt1, 0, args)
                | [] \<Rightarrow> Some (fmt1, 0, args))
          else Some (fmt, -1, args)
      | [] \<Rightarrow> Some (fmt, -1, args))"

definition skip_qualifier :: "string \<Rightarrow> string" where
  "skip_qualifier fmt =
     (case fmt of
        c # fmt' \<Rightarrow> if c = CHR ''h'' \<or> c = CHR ''l'' \<or> c = CHR ''L'' then fmt' else fmt
      | [] \<Rightarrow> fmt)"

text \<open>\<open>while (--field_width > 0) *str++ = ' '\<close>, and \<open>while (len < field_width--) *str++ = ' '\<close>.\<close>

definition pad_c :: "int \<Rightarrow> string \<times> int" where
  "pad_c w = (let w = s32 (w - 1) in (replicate (nat w) CHR '' '', if w > 0 then 0 else w))"

definition pad_s :: "int \<Rightarrow> int \<Rightarrow> string \<times> int" where
  "pad_s len w = (replicate (nat (w - len)) CHR '' '', if len < w then len - 1 else s32 (w - 1))"

definition format_c :: "int \<Rightarrow> int \<Rightarrow> int \<Rightarrow> string" where
  "format_c flags w v =
     (let (lead, w) = (if \<not> flag flags LEFT then pad_c w else ([], w)); (trail, w) = pad_c w
      in lead @ [char_of (v mod 256)] @ trail)"

definition format_s :: "int \<Rightarrow> int \<Rightarrow> int \<Rightarrow> string option \<Rightarrow> string" where
  "format_s flags w precision v =
     (let s = (case v of None \<Rightarrow> ''<NULL>'' | Some s \<Rightarrow> s);
          len = int (length s);
          len = (if precision < 0 then len else if len > precision then precision else len);
          (lead, w) = (if \<not> flag flags LEFT then pad_s len w else ([], w));
          (trail, w) = pad_s len w
      in lead @ take (nat len) s @ trail)"

definition format_num :: "string \<Rightarrow> int \<Rightarrow> int \<Rightarrow> int \<Rightarrow> int \<Rightarrow> varg list \<Rightarrow> (varg list \<times> string) option" where
  "format_num str base w precision flags args =
     (case arg_int args of
        None \<Rightarrow> None
      | Some (i, args) \<Rightarrow>
          (case number str (s32 i) base w precision flags of
             Some (Some str) \<Rightarrow> Some (args, str)
           | _ \<Rightarrow> None))"

text \<open>The conversions after flags, width and precision: remaining arguments, the output and the stores.\<close>

definition convert :: "char \<Rightarrow> int \<Rightarrow> int \<Rightarrow> int \<Rightarrow> varg list \<Rightarrow> string \<Rightarrow> stores \<Rightarrow> (varg list \<times> string \<times> stores) option" where
  "convert c flags w precision args str st =
     (if c = CHR ''c'' then map_option (\<lambda>(v, args). (args, str @ format_c flags w v, st)) (arg_int args)
      else if c = CHR ''s''
      then (case args of AStr v # args \<Rightarrow> Some (args, str @ format_s flags w precision v, st) | _ \<Rightarrow> None)
      else if c = CHR ''o'' then map_option (\<lambda>(args, str). (args, str, st)) (format_num str 8 w precision flags args)
      else if c = CHR ''p''
      then map_option (\<lambda>(args, str). (args, str, st))
             (if w = -1 then format_num str 16 8 precision (flags OR ZEROPAD) args else format_num str 16 w precision flags args)
      else if c = CHR ''x'' then map_option (\<lambda>(args, str). (args, str, st)) (format_num str 16 w precision (flags OR SMALL) args)
      else if c = CHR ''X'' then map_option (\<lambda>(args, str). (args, str, st)) (format_num str 16 w precision flags args)
      else if c = CHR ''d'' \<or> c = CHR ''i''
      then map_option (\<lambda>(args, str). (args, str, st)) (format_num str 10 w precision (flags OR SIGN) args)
      else if c = CHR ''u'' then map_option (\<lambda>(args, str). (args, str, st)) (format_num str 10 w precision flags args)
      else if c = CHR ''n''
      then (case args of AOut v # args \<Rightarrow> Some (args, str, st @ [(v, int (length str))]) | _ \<Rightarrow> None)
      else if c = CHR ''%'' then Some (args, str @ [c], st)
      else Some (args, str @ [CHR ''%'', c], st))"

text \<open>One directive, from the character after the \<open>%\<close>.\<close>

definition directive :: "string \<Rightarrow> varg list \<Rightarrow> string \<Rightarrow> stores \<Rightarrow> (string \<times> varg list \<times> string \<times> stores) option" where
  "directive fmt args str st =
     (case flags_loop fmt 0 of
        (fmt, flags) \<Rightarrow>
          (case get_width fmt flags args of
             None \<Rightarrow> None
           | Some (fmt, w, flags, args) \<Rightarrow>
               (case get_precision fmt args of
                  None \<Rightarrow> None
                | Some (fmt, precision, args) \<Rightarrow>
                    (case skip_qualifier fmt of
                       [] \<Rightarrow> Some ([], args, str @ [CHR ''%''], st)
                     | c # fmt \<Rightarrow> map_option (Pair fmt) (convert c flags w precision args str st)))))"

lemma skip_atoi_length: "length (fst (skip_atoi s i)) \<le> length s"
  by (induction s i rule: skip_atoi.induct) auto

lemma flags_loop_length: "length (fst (flags_loop s f)) \<le> length s"
  by (induction s f rule: flags_loop.induct) auto

lemma get_width_length: "get_width s f args = Some (s', r) \<Longrightarrow> length s' \<le> length s"
  using skip_atoi_length [of s 0] by (auto simp: get_width_def split: list.splits if_splits prod.splits)

lemma get_precision_length: "get_precision s args = Some (s', r) \<Longrightarrow> length s' \<le> length s"
  using skip_atoi_length [of "tl s" 0] by (auto simp: get_precision_def split: list.splits if_splits prod.splits)

lemma skip_qualifier_length: "length (skip_qualifier s) \<le> length s"
  by (simp add: skip_qualifier_def split: list.split)

lemma directive_length:
  assumes "directive fmt args str st = Some (fmt', r)"
  shows "length fmt' \<le> length fmt"
proof -
  obtain f1 fl where 1: "flags_loop fmt 0 = (f1, fl)" by fastforce
  obtain f2 w fl2 a2 where 2: "get_width f1 fl args = Some (f2, w, fl2, a2)"
    using assms 1 by (auto simp: directive_def split: option.splits)
  obtain f3 p a3 where 3: "get_precision f2 a2 = Some (f3, p, a3)"
    using assms 1 2 by (auto simp: directive_def split: option.splits)
  have "length fmt' \<le> length (skip_qualifier f3)"
    using assms 1 2 3 by (auto simp: directive_def split: list.splits)
  then show ?thesis
    using flags_loop_length [of fmt 0] get_width_length [OF 2] get_precision_length [OF 3] skip_qualifier_length [of f3] 1
    by simp
qed

function vsprintf_loop :: "string \<Rightarrow> varg list \<Rightarrow> string \<Rightarrow> stores \<Rightarrow> (string \<times> stores) option" where
  "vsprintf_loop [] args str st = Some (str, st)"
| "vsprintf_loop (c # fmt) args str st =
     (if c \<noteq> CHR ''%'' then vsprintf_loop fmt args (str @ [c]) st
      else (case directive fmt args str st of
              None \<Rightarrow> None
            | Some (fmt, args, str, st) \<Rightarrow> vsprintf_loop fmt args str st))"
  by pat_completeness auto
termination
  by (relation "measure (\<lambda>(fmt, _). length fmt)") (auto dest!: directive_length)

text \<open>The output, without the end mark, and the stores; the result of the call is the length of the output.\<close>

definition vsprintf :: "string \<Rightarrow> varg list \<Rightarrow> (string \<times> stores) option" where
  "vsprintf fmt args = vsprintf_loop fmt args [] []"

definition sprintf :: "string \<Rightarrow> varg list \<Rightarrow> (string \<times> stores) option" where
  "sprintf fmt args = vsprintf fmt args"

end
