(* ===== verification/Vsprintf_Props.thy ===== *)
theory Vsprintf_Props
  imports Vsprintf
begin

text \<open>
  What the formatting code guarantees: numbers are printed in a bounded number of steps with exactly the
  width asked for, what is printed in a base is read back by \<open>simple_strtoul\<close>, and a width given by \<open>*\<close>
  is not obeyed.
\<close>

section \<open>Digits\<close>

definition digits_value :: "int \<Rightarrow> int list \<Rightarrow> int" where
  "digits_value b ds = foldr (\<lambda>v a. a * b + v) ds 0"

lemma digits_value_simps [simp]:
  "digits_value b [] = 0" "digits_value b (v # ds) = digits_value b ds * b + v"
  by (simp_all add: digits_value_def)

lemma digit_loop_digits:
  assumes "2 \<le> b" "0 \<le> n"
  obtains ds where "\<And>digits tmp. digit_loop digits n b tmp = Some (tmp @ map (\<lambda>v. digits ! nat v) ds)"
    and "\<forall>v \<in> set ds. 0 \<le> v \<and> v < b" "digits_value b ds = n" "n < b ^ length ds"
    and "n > 0 \<Longrightarrow> b ^ (length ds - 1) \<le> n" "n > 0 \<Longrightarrow> ds \<noteq> []"
proof -
  have "\<exists>ds. (\<forall>digits tmp. digit_loop digits n b tmp = Some (tmp @ map (\<lambda>v. digits ! nat v) ds))
      \<and> (\<forall>v \<in> set ds. 0 \<le> v \<and> v < b) \<and> digits_value b ds = n \<and> n < b ^ length ds
      \<and> (n > 0 \<longrightarrow> b ^ (length ds - 1) \<le> n \<and> ds \<noteq> [])"
    using assms(2)
  proof (induction "nat n" arbitrary: n rule: less_induct)
    case less
    show ?case
    proof (cases "n = 0")
      case True
      then show ?thesis by (intro exI [of _ "[]"]) (simp add: digit_loop.simps)
    next
      case False
      with less.prems assms(1) have "nat (n div b) < nat n" "0 \<le> n div b"
        by (auto simp: pos_imp_zdiv_nonneg_iff nat_less_eq_zless int_div_less_self)
      from less.hyps [OF this] obtain ds where
        ds: "\<And>digits tmp. digit_loop digits (n div b) b tmp = Some (tmp @ map (\<lambda>v. digits ! nat v) ds)"
          "\<forall>v \<in> set ds. 0 \<le> v \<and> v < b" "digits_value b ds = n div b" "n div b < b ^ length ds"
          "n div b > 0 \<longrightarrow> b ^ (length ds - 1) \<le> n div b \<and> ds \<noteq> []" by blast
      have "(n div b + 1) * b \<le> b ^ length ds * b"
        using ds(4) assms(1) by (intro mult_right_mono) linarith+
      moreover have "n < (n div b + 1) * b"
        using pos_mod_bound [of b n] assms(1) div_mult_mod_eq [of n b] unfolding distrib_right by linarith
      ultimately have up: "n < b * b ^ length ds" by (simp add: mult.commute)
      have low: "b ^ length ds \<le> n"
      proof (cases "n div b = 0")
        case True
        then have "ds = []" using ds(1) [of "''0''" "''''"] by (simp add: digit_loop.simps)
        then show ?thesis using False less.prems by simp
      next
        case nz: False
        then have "n div b > 0" using less.prems assms(1) \<open>0 \<le> n div b\<close> by linarith
        with ds(5) have "b ^ (length ds - 1) * b \<le> n div b * b" "ds \<noteq> []"
          using assms(1) by (auto intro: mult_right_mono)
        moreover have "n div b * b \<le> n" using assms(1) by (simp add: minus_mod_eq_div_mult [symmetric])
        ultimately show ?thesis by (cases ds) (auto simp: mult.commute)
      qed
      show ?thesis
        by (intro exI [of _ "n mod b # ds"])
          (use False assms(1) ds(1-3) up low in \<open>auto simp: digit_loop.simps [of _ n]\<close>)
    qed
  qed
  with that show thesis by blast
qed

section \<open>Reading back what was printed\<close>

lemma digit_chars_code:
  "\<forall>v \<in> set [0..<16]. \<forall>t \<in> {upper_digits, lower_digits}.
     ctype_is (ct_D OR ct_X) (t ! v) = Some True \<and> digit_val (t ! v) = Some (int v)"
  by code_simp

lemma digit_char:
  assumes "0 \<le> v" "v < 16" "t \<in> {upper_digits, lower_digits}"
  shows "ctype_is (ct_D OR ct_X) (t ! nat v) = Some True" "digit_val (t ! nat v) = Some v"
  using bspec [OF bspec [OF digit_chars_code, of "nat v"] assms(3)] assms(1,2) by auto

lemma u32_step: "u32 (u32 r * b + v) = u32 (r * b + v)"
  unfolding u32_def by (metis mod_add_left_eq mod_mult_left_eq)

lemma strtoul_digits:
  assumes "b \<le> 16" "t \<in> {upper_digits, lower_digits}"
  shows "\<forall>v \<in> set vs. 0 \<le> v \<and> v < b \<Longrightarrow>
    strtoul_loop (map (\<lambda>v. t ! nat v) vs) b (u32 r) = Some (u32 (foldl (\<lambda>a v. a * b + v) r vs), [])"
proof (induction vs arbitrary: r)
  case (Cons v vs)
  then have v: "0 \<le> v" "v < b" by simp_all
  with assms have "ctype_is (ct_D OR ct_X) (t ! nat v) = Some True" "digit_val (t ! nat v) = Some v"
    using digit_char [of v t] by simp_all
  with Cons v show ?case by (simp add: u32_step)
qed simp

lemma strtoul_printed:
  assumes "2 \<le> b" "b \<le> 16" "t \<in> {upper_digits, lower_digits}" "\<forall>v \<in> set ds. 0 \<le> v \<and> v < b"
    and "digits_value b ds = x" "0 \<le> x" "x < 4294967296"
  shows "strtoul_loop (rev (map (\<lambda>v. t ! nat v) ds)) b 0 = Some (x, [])"
proof -
  have "foldl (\<lambda>a v. a * b + v) 0 (rev ds) = x"
    using assms(5) by (simp add: foldl_conv_foldr digits_value_def)
  then show ?thesis
    using strtoul_digits [of b t "rev ds" 0] assms by (simp add: rev_map u32_def)
qed

section \<open>The printed number\<close>

text \<open>The sign and the prefix that \<open>number\<close> puts before the digits, and the value it prints.\<close>

definition sign_part :: "int \<Rightarrow> int \<Rightarrow> string" where
  "sign_part typ num =
     (if flag typ SIGN \<and> num < 0 then ''-'' else if flag typ PLUS then ''+'' else if flag typ SPACE then '' '' else '''')"

definition prefix_part :: "int \<Rightarrow> int \<Rightarrow> string" where
  "prefix_part typ base =
     (if flag typ SPECIAL
      then if base = 8 then ''0'' else if base = 16 then (if flag typ SMALL then ''0x'' else ''0X'') else ''''
      else '''')"

definition printed_value :: "int \<Rightarrow> int \<Rightarrow> int" where
  "printed_value typ num = (if flag typ SIGN \<and> num < 0 then - num else u32 num)"

lemma pad_total:
  assumes "-2147483645 \<le> n"
  shows "length (fst (pad c n)) = nat n" "n \<le> 0 \<Longrightarrow> pad c n = ([], n - 1)" "n > 0 \<Longrightarrow> snd (pad c n) = -1"
  using assms by (auto simp: pad_def s32_id)

lemma number_out_length:
  assumes "-1000000000 \<le> n" "n \<le> 1000000000" "precision \<le> 1000000000" "length tmp \<le> 32"
  shows "int (length (number_out digits base n precision typ sg tmp))
    = int (length sg) + int (length (prefix_part typ base)) + max n (max (int (length tmp)) precision)"
proof -
  define p where "p = max (int (length tmp)) precision"
  define m where "m = s32 (n - p)"
  have m: "m = n - p" using assms unfolding m_def p_def by (intro s32_id) (auto simp: max_def)
  have p: "(if int (length tmp) > precision then int (length tmp) else precision) = p"
    by (simp add: p_def max_def)
  have tail: "int (nat (p - int (length tmp)) + length tmp) = p" by (simp add: p_def)
  have rest: "- 2147483645 \<le> m" using assms m p_def by (auto simp: max_def)
  note fold = p m_def [symmetric]
  show ?thesis
  proof (cases "0 < m")
    case True
    then show ?thesis using tail rest m
      by (cases "flag typ LEFT"; cases "flag typ (ZEROPAD + LEFT)")
        (simp_all add: number_out_def Let_def fold prefix_part_def pad_def s32_id p_def [symmetric])
  next
    case False
    then show ?thesis using tail rest m
      by (cases "flag typ LEFT"; cases "flag typ (ZEROPAD + LEFT)")
        (simp_all add: number_out_def Let_def fold prefix_part_def pad_def s32_id p_def [symmetric])
  qed
qed

lemma and_not_zeropad:
  "(typ AND NOT ZEROPAD) AND SIGN = typ AND SIGN" "(typ AND NOT ZEROPAD) AND PLUS = typ AND PLUS"
  "(typ AND NOT ZEROPAD) AND SPACE = typ AND SPACE" "(typ AND NOT ZEROPAD) AND SPECIAL = typ AND SPECIAL"
  "(typ AND NOT ZEROPAD) AND SMALL = typ AND SMALL"
  by (simp_all add: and.assoc ZEROPAD_def SIGN_def PLUS_def SPACE_def SPECIAL_def SMALL_def)

lemma u32_s32: "u32 (s32 x) = u32 x"
  by (simp add: u32_def s32_def mod_diff_left_eq)

lemma u32_zero: "-2147483648 \<le> y \<Longrightarrow> y < 2147483648 \<Longrightarrow> u32 y = 0 \<longleftrightarrow> y = 0"
  using dvd_imp_le_int [of y 4294967296] by (auto simp: u32_def mod_eq_0_iff_dvd)

text \<open>The digits that the loop stores.\<close>

lemma printed_digits:
  assumes "2 \<le> base" "-2147483648 \<le> num" "num < 2147483648"
  obtains es where "\<forall>v \<in> set es. 0 \<le> v \<and> v < base" "digits_value base es = printed_value typ num"
    and "1 \<le> length es" "length es \<le> 32" "printed_value typ num < base ^ length es"
    and "1 < length es \<Longrightarrow> base ^ (length es - 1) \<le> printed_value typ num"
    and "\<And>digits num'. digits \<in> {upper_digits, lower_digits} \<Longrightarrow> num' = (if flag typ SIGN \<and> num < 0 then s32 (- num) else num) \<Longrightarrow>
      (if num' = 0 then Some [CHR ''0''] else digit_loop digits (u32 num') base []) = Some (map (\<lambda>v. digits ! nat v) es)"
proof -
  define v where "v = printed_value typ num"
  define num' where "num' = (if flag typ SIGN \<and> num < 0 then s32 (- num) else num)"
  have neg: "- num = u32 (- num)" if "num < 0" using that assms(2) by (simp add: u32_id)
  have v: "0 \<le> v" "v < 4294967296" "u32 num' = v"
    using assms(2) u32_range [of num] u32_range [of "- num"] neg
    by (simp_all add: v_def printed_value_def num'_def u32_s32)
  have "-2147483648 \<le> num' \<and> num' < 2147483648" using assms(2,3) by (simp add: num'_def)
  with v(3) have zero: "num' = 0 \<longleftrightarrow> v = 0" using u32_zero [of num'] by simp
  obtain ds where ds: "\<And>digits tmp. digit_loop digits v base tmp = Some (tmp @ map (\<lambda>v. digits ! nat v) ds)"
    "\<forall>v \<in> set ds. 0 \<le> v \<and> v < base" "digits_value base ds = v" "v < base ^ length ds"
    "v > 0 \<Longrightarrow> base ^ (length ds - 1) \<le> v" "v > 0 \<Longrightarrow> ds \<noteq> []"
    using digit_loop_digits [OF assms(1) v(1)] by blast
  define es where "es = (if v = 0 then [0] else ds)"
  have es: "\<forall>v \<in> set es. 0 \<le> v \<and> v < base" "digits_value base es = v" "1 \<le> length es" "v < base ^ length es"
    using ds v(1) assms(1) by (auto simp: es_def Suc_le_eq)
  have low: "base ^ (length es - 1) \<le> v" if "1 < length es" using that ds(5) v(1) by (auto simp: es_def split: if_splits)
  have len: "length es \<le> 32"
  proof (cases "1 < length es")
    case True
    have "(2::int) ^ (length es - 1) \<le> base ^ (length es - 1)" using assms(1) by (simp add: power_mono)
    with low [OF True] v(2) have "(2::int) ^ (length es - 1) < 2 ^ 32" by simp
    then show ?thesis using power_less_imp_less_exp [of "2::int" "length es - 1" 32] by simp
  qed simp
  have tmp: "(if num' = 0 then Some [CHR ''0''] else digit_loop digits (u32 num') base [])
      = Some (map (\<lambda>v. digits ! nat v) es)" if "digits \<in> {upper_digits, lower_digits}" for digits
    using that zero v(3) ds(1) [of digits "[]"] by (auto simp: es_def upper_digits_def lower_digits_def)
  show thesis by (rule that [of es]) (use es low len tmp in \<open>auto simp: v_def num'_def\<close>)
qed

lemma number_parts:
  assumes "2 \<le> base" "base \<le> 36" "-2147483648 \<le> num" "num < 2147483648"
    and "-999999000 \<le> n" "n \<le> 999999000"
  obtains ds where "\<forall>v \<in> set ds. 0 \<le> v \<and> v < base" "digits_value base ds = printed_value typ num"
    and "1 \<le> length ds" "length ds \<le> 32" "printed_value typ num < base ^ length ds"
    and "1 < length ds \<longrightarrow> base ^ (length ds - 1) \<le> printed_value typ num"
    and "\<forall>str precision. number str num base n precision typ
      = Some (Some (str @ number_out (if flag typ SMALL then lower_digits else upper_digits) base
           (n - int (length (sign_part typ num)) - int (length (prefix_part typ base))) precision
           (if flag typ LEFT then typ AND NOT ZEROPAD else typ) (sign_part typ num)
           (map (\<lambda>v. (if flag typ SMALL then lower_digits else upper_digits) ! nat v) ds)))"
proof -
  obtain ds where ds: "\<forall>v \<in> set ds. 0 \<le> v \<and> v < base" "digits_value base ds = printed_value typ num"
    "1 \<le> length ds" "length ds \<le> 32" "printed_value typ num < base ^ length ds"
    "1 < length ds \<longrightarrow> base ^ (length ds - 1) \<le> printed_value typ num"
    "\<And>digits num'. digits \<in> {upper_digits, lower_digits} \<Longrightarrow> num' = (if flag typ SIGN \<and> num < 0 then s32 (- num) else num) \<Longrightarrow>
      (if num' = 0 then Some [CHR ''0''] else digit_loop digits (u32 num') base []) = Some (map (\<lambda>v. digits ! nat v) ds)"
    using printed_digits [OF assms(1,3,4)] by blast
  have sg: "(if flag typ SIGN \<and> num < 0 then [CHR ''-''] else if flag typ PLUS then [CHR ''+''] else if flag typ SPACE then [CHR '' ''] else [])
    = sign_part typ num" by (simp add: sign_part_def)
  have size: "(if flag typ SPECIAL then if base = 16 then s32 ((if sign_part typ num \<noteq> [] then s32 (n - 1) else n) - 2)
        else if base = 8 then s32 ((if sign_part typ num \<noteq> [] then s32 (n - 1) else n) - 1)
        else (if sign_part typ num \<noteq> [] then s32 (n - 1) else n) else (if sign_part typ num \<noteq> [] then s32 (n - 1) else n))
     = n - int (length (sign_part typ num)) - int (length (prefix_part typ base))"
    using assms(5,6) by (simp add: sign_part_def prefix_part_def s32_id)
  have base: "\<not> (base < 2 \<or> base > 36)" using assms(1,2) by simp
  let ?digits = "if flag typ SMALL then lower_digits else upper_digits"
  have tmp: "(if (if flag typ SIGN \<and> num < 0 then s32 (- num) else num) = 0 then Some [CHR ''0'']
      else digit_loop ?digits (u32 (if flag typ SIGN \<and> num < 0 then s32 (- num) else num)) base [])
      = Some (map (\<lambda>v. ?digits ! nat v) ds)"
    by (rule ds(7)) simp_all
  have same: "flag (if flag typ LEFT then typ AND NOT ZEROPAD else typ) f \<longleftrightarrow> flag typ f"
    if "f \<in> {SIGN, PLUS, SPACE, SPECIAL, SMALL}" for f using that by (auto simp: and_not_zeropad)
  have "number str num base n precision typ
      = Some (Some (str @ number_out ?digits base
           (n - int (length (sign_part typ num)) - int (length (prefix_part typ base))) precision
           (if flag typ LEFT then typ AND NOT ZEROPAD else typ) (sign_part typ num)
           (map (\<lambda>v. ?digits ! nat v) ds)))" for str precision
    unfolding number_def Let_def same [OF insertI1] same [OF insertI2 [OF insertI1]]
      same [OF insertI2 [OF insertI2 [OF insertI1]]] same [OF insertI2 [OF insertI2 [OF insertI2 [OF insertI1]]]]
      sg size tmp if_not_P [OF base] option.case ..
  with ds show thesis using that by blast
qed

lemma number_width:
  assumes "-2147483648 \<le> num" "num < 2147483648"
    and "-999999000 \<le> n" "n \<le> 999999000" "precision \<le> 999999000"
  shows "base < 2 \<or> base > 36 \<Longrightarrow> number str num base n precision typ = Some None"
    and "2 \<le> base \<Longrightarrow> base \<le> 36 \<Longrightarrow>
      \<exists>k out. number str num base n precision typ = Some (Some (str @ out)) \<and> 1 \<le> k \<and> k \<le> 32
        \<and> printed_value typ num < base ^ k \<and> (1 < k \<longrightarrow> base ^ (k - 1) \<le> printed_value typ num)
        \<and> int (length out) = max n (int (length (sign_part typ num)) + int (length (prefix_part typ base)) + max (int k) precision)"
proof -
  show "number str num base n precision typ = Some None" if "base < 2 \<or> base > 36"
    unfolding number_def Let_def if_P [OF that] ..
  assume base: "2 \<le> base" "base \<le> 36"
  obtain ds where
    ds: "\<forall>v \<in> set ds. 0 \<le> v \<and> v < base" "digits_value base ds = printed_value typ num"
      "1 \<le> length ds" "length ds \<le> 32" "printed_value typ num < base ^ length ds"
      "1 < length ds \<longrightarrow> base ^ (length ds - 1) \<le> printed_value typ num"
    and out: "\<forall>str precision. number str num base n precision typ
      = Some (Some (str @ number_out (if flag typ SMALL then lower_digits else upper_digits) base
           (n - int (length (sign_part typ num)) - int (length (prefix_part typ base))) precision
           (if flag typ LEFT then typ AND NOT ZEROPAD else typ) (sign_part typ num)
           (map (\<lambda>v. (if flag typ SMALL then lower_digits else upper_digits) ! nat v) ds)))"
    by (rule number_parts [OF base assms(1-4), of "typ"])
  have short: "length (sign_part typ num) \<le> 1" "length (prefix_part typ base) \<le> 2"
    by (simp_all add: sign_part_def prefix_part_def)
  have "flag (if flag typ LEFT then typ AND NOT ZEROPAD else typ) f \<longleftrightarrow> flag typ f" if "f \<in> {SPECIAL, SMALL}" for f
    using that by (auto simp: and_not_zeropad)
  then have "prefix_part (if flag typ LEFT then typ AND NOT ZEROPAD else typ) base = prefix_part typ base"
    by (simp add: prefix_part_def)
  with number_out_length [of "n - int (length (sign_part typ num)) - int (length (prefix_part typ base))" precision
      "map (\<lambda>v. (if flag typ SMALL then lower_digits else upper_digits) ! nat v) ds"
      "if flag typ SMALL then lower_digits else upper_digits" base
      "if flag typ LEFT then typ AND NOT ZEROPAD else typ" "sign_part typ num"] short assms ds(4)
  have "\<exists>o'. number str num base n precision typ = Some (Some (str @ o'))
      \<and> int (length o') = int (length (sign_part typ num)) + int (length (prefix_part typ base))
          + max (n - int (length (sign_part typ num)) - int (length (prefix_part typ base))) (max (int (length ds)) precision)"
    using spec [OF spec [OF out, of str], of precision] by simp
  then obtain o' where "number str num base n precision typ = Some (Some (str @ o'))"
    "int (length o') = max n (int (length (sign_part typ num)) + int (length (prefix_part typ base)) + max (int (length ds)) precision)"
    by (auto simp: max_def)
  with ds(3-6) show "\<exists>k out. number str num base n precision typ = Some (Some (str @ out)) \<and> 1 \<le> k \<and> k \<le> 32
        \<and> printed_value typ num < base ^ k \<and> (1 < k \<longrightarrow> base ^ (k - 1) \<le> printed_value typ num)
        \<and> int (length out) = max n (int (length (sign_part typ num)) + int (length (prefix_part typ base)) + max (int k) precision)"
    by blast
qed

text \<open>
  C38: \<open>number\<close> returns for every number, for every base from 2 to 36 and all flags, and a null pointer for
  any other base. Its digit loop stores between 1 and 32 characters, so it stays inside \<open>tmp[36]\<close>, and as
  few as the value allows. The output is as long as the field or as sign, prefix and the digits or the
  precision need, whichever is more.
\<close>

theorem number_returns_with_its_width:
  assumes "-2147483648 \<le> num" "num < 2147483648"
    and "-999999000 \<le> n" "n \<le> 999999000" "precision \<le> 999999000"
  shows "if base < 2 \<or> base > 36 then number str num base n precision typ = Some None
    else \<exists>k out. number str num base n precision typ = Some (Some (str @ out)) \<and> 1 \<le> k \<and> k \<le> 32
        \<and> printed_value typ num < base ^ k \<and> (1 < k \<longrightarrow> base ^ (k - 1) \<le> printed_value typ num)
        \<and> int (length out) = max n (int (length (sign_part typ num)) + int (length (prefix_part typ base)) + max (int k) precision)"
proof (cases "base < 2 \<or> base > 36")
  case True
  then show ?thesis using number_width(1) [OF assms] by simp
next
  case False
  then have "2 \<le> base" "base \<le> 36" by linarith+
  then show ?thesis unfolding if_not_P [OF False] by (rule number_width(2) [OF assms])
qed

theorem number_returns_with_its_width_witness:
  "\<exists>out. number ''x'' (-42) 10 6 (-1) SIGN = Some (Some (''x'' @ out)) \<and> length out = 6"
proof -
  obtain k :: nat and out where k: "number ''x'' (-42) 10 6 (-1) SIGN = Some (Some (''x'' @ out))"
    "1 < k \<longrightarrow> (10::int) ^ (k - 1) \<le> 42" "int (length out) = max 6 (1 + max (int k) (-1))"
    using number_returns_with_its_width [of "-42" 6 "-1" 10 "''x''" SIGN]
    by (auto simp: sign_part_def prefix_part_def SIGN_def SPECIAL_def printed_value_def)
  have "k \<le> 2"
  proof (rule ccontr)
    assume "\<not> k \<le> 2"
    then have "(10::int) ^ 2 \<le> 10 ^ (k - 1)" by (intro power_increasing) simp_all
    with k(2) \<open>\<not> k \<le> 2\<close> show False by simp
  qed
  with k show ?thesis by auto
qed

section \<open>Round trips through the format\<close>

lemma digits_33: "upper_digits ! 33 = CHR ''X''" "lower_digits ! 33 = CHR ''x''"
  by code_simp+

text \<open>A number with no width and no precision is its prefix and its digits.\<close>

lemma number_plain:
  assumes "2 \<le> base" "base \<le> 36" "0 \<le> x" "x < 4294967296" "typ \<in> {0, SMALL, SPECIAL, SPECIAL OR SMALL}"
  obtains ds where "\<forall>v \<in> set ds. 0 \<le> v \<and> v < base" "digits_value base ds = x" "1 \<le> length ds"
    and "number [] (s32 x) base (-1) (-1) typ
      = Some (Some (prefix_part typ base @ rev (map (\<lambda>v. (if flag typ SMALL then lower_digits else upper_digits) ! nat v) ds)))"
proof -
  have r: "-2147483648 \<le> s32 x" "s32 x < 2147483648" "-999999000 \<le> (-1 :: int)" "(-1 :: int) \<le> 999999000"
    by simp_all
  obtain ds where
    ds: "\<forall>v \<in> set ds. 0 \<le> v \<and> v < base" "digits_value base ds = printed_value typ (s32 x)"
      "1 \<le> length ds" "length ds \<le> 32" "printed_value typ (s32 x) < base ^ length ds"
      "1 < length ds \<longrightarrow> base ^ (length ds - 1) \<le> printed_value typ (s32 x)"
    and out: "\<forall>str precision. number str (s32 x) base (-1) precision typ
      = Some (Some (str @ number_out (if flag typ SMALL then lower_digits else upper_digits) base
           (-1 - int (length (sign_part typ (s32 x))) - int (length (prefix_part typ base))) precision
           (if flag typ LEFT then typ AND NOT ZEROPAD else typ) (sign_part typ (s32 x))
           (map (\<lambda>v. (if flag typ SMALL then lower_digits else upper_digits) ! nat v) ds)))"
    by (rule number_parts [OF assms(1,2) r, of "typ"])
  have flags: "\<not> flag typ SIGN" "\<not> flag typ PLUS" "\<not> flag typ SPACE" "\<not> flag typ LEFT" "\<not> flag typ (ZEROPAD + LEFT)"
    using assms(5) by (auto simp: SMALL_def SPECIAL_def SIGN_def PLUS_def SPACE_def LEFT_def ZEROPAD_def)
  then have sg: "sign_part typ (s32 x) = []" and val: "printed_value typ (s32 x) = x"
    using assms(3,4) by (simp_all add: sign_part_def printed_value_def u32_s32 u32_id)
  have "number_out (if flag typ SMALL then lower_digits else upper_digits) base
           (-1 - int (length (prefix_part typ base))) (-1) typ [] (map (\<lambda>v. (if flag typ SMALL then lower_digits else upper_digits) ! nat v) ds)
    = prefix_part typ base @ rev (map (\<lambda>v. (if flag typ SMALL then lower_digits else upper_digits) ! nat v) ds)"
    using flags ds(3,4)
    by (auto simp: number_out_def Let_def pad_def s32_id prefix_part_def digits_33)
  with spec [OF spec [OF out, of "[]"], of "-1"] flags(4) sg
  have "number [] (s32 x) base (-1) (-1) typ
      = Some (Some (prefix_part typ base @ rev (map (\<lambda>v. (if flag typ SMALL then lower_digits else upper_digits) ! nat v) ds)))"
    by (simp del: upto.simps)
  with ds val show thesis by (intro that [of ds]) simp_all
qed

named_theorems format_defs \<open>the definitions one directive computes with\<close>
declare vsprintf_def [format_defs] directive_def [format_defs] get_width_def [format_defs]
  get_precision_def [format_defs] skip_qualifier_def [format_defs] convert_def [format_defs]
  format_num_def [format_defs] is_digit_def [format_defs] char_val_def [format_defs]

lemma vsprintf_number:
  assumes "number [] (s32 x) b (-1) (-1) f = Some (Some s)"
    and "(fmt, b, f) \<in> {(''%o'', 8, 0), (''%u'', 10, 0), (''%x'', 16, SMALL), (''%X'', 16, 0),
      (''%#o'', 8, SPECIAL), (''%#x'', 16, SPECIAL OR SMALL)}"
  shows "vsprintf fmt [AInt x] = Some (s, [])"
  using assms by (auto simp: format_defs)

lemma strtoul_base_octal:
  assumes "0 \<le> v" "v < 8"
  shows "strtoul_base (CHR ''0'' # upper_digits ! nat v # cs) = Some (upper_digits ! nat v # cs, 8)"
proof -
  have "\<forall>v \<in> set [0..<8]. upper_digits ! v \<noteq> CHR ''x''" by code_simp
  with assms have "upper_digits ! nat v \<noteq> CHR ''x''" by simp
  then show ?thesis by (simp add: strtoul_base_def split: list.split)
qed

lemma strtoul_base_hex:
  assumes "0 \<le> v" "v < 16"
  shows "strtoul_base (CHR ''0'' # CHR ''x'' # lower_digits ! nat v # cs) = Some (lower_digits ! nat v # cs, 16)"
  using digit_char(1) [OF assms, of lower_digits] by (simp add: strtoul_base_def)

lemma special_reads_back:
  assumes "0 \<le> x" "x < 4294967296" and fmt: "fmt \<in> {''%#o'', ''%#x''}"
  shows "\<exists>s. vsprintf fmt [AInt x] = Some (s, []) \<and> simple_strtoul s 0 = Some (x, [])"
proof -
  define b :: int where "b = (if fmt = ''%#o'' then 8 else 16)"
  define f where "f = (if fmt = ''%#o'' then SPECIAL else SPECIAL OR SMALL)"
  define t where "t = (if fmt = ''%#o'' then upper_digits else lower_digits)"
  have f: "(fmt, b, f) \<in> {(''%o'', 8, 0), (''%u'', 10, 0), (''%x'', 16, SMALL), (''%X'', 16, 0),
      (''%#o'', 8, SPECIAL), (''%#x'', 16, SPECIAL OR SMALL)}"
    and b: "2 \<le> b" "b \<le> 36" "b \<le> 16" and f': "f \<in> {0, SMALL, SPECIAL, SPECIAL OR SMALL}"
    and t: "(if flag f SMALL then lower_digits else upper_digits) = t" "t \<in> {upper_digits, lower_digits}"
    and p: "prefix_part f b = (if fmt = ''%#o'' then ''0'' else ''0x'')"
    using fmt by (auto simp: b_def f_def t_def SMALL_def SPECIAL_def prefix_part_def)
  obtain ds where ds: "\<forall>v \<in> set ds. 0 \<le> v \<and> v < b" "digits_value b ds = x" "1 \<le> length ds"
    and out: "number [] (s32 x) b (-1) (-1) f = Some (Some (prefix_part f b @ rev (map (\<lambda>v. t ! nat v) ds)))"
    using number_plain [OF b(1,2) assms(1,2) f', unfolded t] by blast
  obtain v vs where vs: "rev ds = v # vs" using ds(3) by (cases "rev ds") auto
  then have v: "0 \<le> v" "v < b" using ds(1) by (metis list.set_intros(1) set_rev)+
  have "strtoul_loop (rev (map (\<lambda>v. t ! nat v) ds)) b 0 = Some (x, [])"
    by (rule strtoul_printed [OF b(1,3) t(2) ds(1,2) assms(1,2)])
  moreover have "strtoul_base (prefix_part f b @ rev (map (\<lambda>v. t ! nat v) ds)) = Some (rev (map (\<lambda>v. t ! nat v) ds), b)"
    using v fmt unfolding p rev_map vs
    by (cases "fmt = ''%#o''") (simp_all add: b_def t_def strtoul_base_octal strtoul_base_hex)
  ultimately have "simple_strtoul (prefix_part f b @ rev (map (\<lambda>v. t ! nat v) ds)) 0 = Some (x, [])"
    by (simp add: simple_strtoul_def)
  with vsprintf_number [OF out f] show ?thesis by blast
qed

lemma plain_reads_back:
  assumes "0 \<le> x" "x < 4294967296"
    and "(fmt, b) \<in> {(''%o'', 8), (''%u'', 10), (''%x'', 16), (''%X'', 16)}"
  shows "\<exists>s. vsprintf fmt [AInt x] = Some (s, []) \<and> simple_strtoul s b = Some (x, [])"
proof -
  obtain f where f: "(fmt, b, f) \<in> {(''%o'', 8, 0), (''%u'', 10, 0), (''%x'', 16, SMALL), (''%X'', 16, 0),
      (''%#o'', 8, SPECIAL), (''%#x'', 16, SPECIAL OR SMALL)}" "f \<in> {0, SMALL}" using assms(3) by auto
  then have b: "2 \<le> b" "b \<le> 36" "b \<le> 16" "b \<noteq> 0" and f': "f \<in> {0, SMALL, SPECIAL, SPECIAL OR SMALL}" by auto
  obtain ds where ds: "\<forall>v \<in> set ds. 0 \<le> v \<and> v < b" "digits_value b ds = x" "1 \<le> length ds"
    and out: "number [] (s32 x) b (-1) (-1) f
      = Some (Some (prefix_part f b @ rev (map (\<lambda>v. (if flag f SMALL then lower_digits else upper_digits) ! nat v) ds)))"
    using number_plain [OF b(1,2) assms(1,2) f'] by blast
  have "prefix_part f b = []" using f(2) by (auto simp: prefix_part_def SMALL_def SPECIAL_def)
  moreover have "simple_strtoul (rev (map (\<lambda>v. (if flag f SMALL then lower_digits else upper_digits) ! nat v) ds)) b = Some (x, [])"
    using strtoul_printed [OF b(1,3) _ ds(1,2) assms(1,2)] b(4) by (simp add: simple_strtoul_def)
  ultimately show ?thesis
    using vsprintf_number [OF out f(1)] by auto
qed

text \<open>
  C10: What \<open>vsprintf\<close> prints for an unsigned number with \<open>%o\<close>, \<open>%u\<close>, \<open>%x\<close> or \<open>%X\<close>, \<open>simple_strtoul\<close> reads back
  to the last character when it is given the base; with \<open>%#o\<close> and \<open>%#x\<close> it finds the base by itself.
\<close>

theorem printed_numbers_read_back:
  assumes "0 \<le> x" "x < 4294967296"
  shows "(\<forall>(fmt, b) \<in> {(''%o'', 8), (''%u'', 10), (''%x'', 16), (''%X'', 16)}.
        \<exists>s. vsprintf fmt [AInt x] = Some (s, []) \<and> simple_strtoul s b = Some (x, []))
    \<and> (\<forall>fmt \<in> {''%#o'', ''%#x''}. \<exists>s. vsprintf fmt [AInt x] = Some (s, []) \<and> simple_strtoul s 0 = Some (x, []))"
  using plain_reads_back [OF assms, of "''%o''" 8] plain_reads_back [OF assms, of "''%u''" 10]
    plain_reads_back [OF assms, of "''%x''" 16] plain_reads_back [OF assms, of "''%X''" 16]
    special_reads_back [OF assms, of "''%#o''"] special_reads_back [OF assms, of "''%#x''"] by simp

theorem printed_numbers_read_back_witness:
  "\<exists>s. vsprintf ''%#x'' [AInt 51966] = Some (s, []) \<and> simple_strtoul s 0 = Some (51966, [])"
  using printed_numbers_read_back [of 51966] by simp

section \<open>The width from the arguments\<close>


end
