(* ===== verification/Timers.thy ===== *)
theory Timers
  imports KPrelude
begin

text \<open>
  The two kinds of kernel timers of kernel/sched.c: the list of \<open>struct timer_list\<close> that \<open>add_timer\<close> and
  \<open>del_timer\<close> keep, in which the \<open>expires\<close> field of a timer counts the ticks after the timer before it, and
  the table of 32 fixed timers with the mask \<open>timer_active\<close>.

  The chain from \<open>next_timer\<close> is the list of its timers; a timer is known by its address \<open>tm\<close>. Linking a
  timer that is already in the chain makes the chain circular, which has no value here. The functions
  that timers call are code of the drivers: what a call does to the chain is the argument \<open>call\<close>.
\<close>

section \<open>The timer list\<close>

record timer_list =
  tm :: nat
  expires :: int
  tm_data :: int
  tm_function :: nat

fun add_loop :: "timer_list \<Rightarrow> timer_list list \<Rightarrow> timer_list list" where
  "add_loop timer [] = [timer]"
| "add_loop timer (p # q) =
     (if expires p > expires timer then timer # p\<lparr>expires := u32 (expires p - expires timer)\<rparr> # q
      else p # add_loop (timer\<lparr>expires := u32 (expires timer - expires p)\<rparr>) q)"

text \<open>A null pointer is left alone.\<close>

definition add_timer :: "timer_list option \<Rightarrow> timer_list list \<Rightarrow> timer_list list option" where
  "add_timer t next_timer =
     (case t of
        None \<Rightarrow> Some next_timer
      | Some timer \<Rightarrow> if tm timer \<in> tm ` set next_timer then None else Some (add_loop timer next_timer))"

text \<open>
  \<open>del_timer\<close>: the result, the timer as it is left (its \<open>expires\<close> is the whole time that was left), and
  the chain.
\<close>

fun del_loop :: "nat \<Rightarrow> int \<Rightarrow> timer_list list \<Rightarrow> timer_list option \<times> timer_list list" where
  "del_loop t e [] = (None, [])"
| "del_loop t e (p # q) =
     (if tm p = t
      then (Some (p\<lparr>expires := u32 (expires p + e)\<rparr>),
            case q of [] \<Rightarrow> [] | n # ns \<Rightarrow> n\<lparr>expires := u32 (expires n + expires p)\<rparr> # ns)
      else (case del_loop t (u32 (e + expires p)) q of (r, q) \<Rightarrow> (r, p # q)))"

definition del_timer :: "nat \<Rightarrow> timer_list list \<Rightarrow> timer_list option \<times> timer_list list" where
  "del_timer t next_timer = del_loop t 0 next_timer"

text \<open>
  What the timer interrupt does with the chain: the chain, the count of lost ticks, and whether the
  bottom half is marked.
\<close>

definition timer_tick :: "timer_list list \<Rightarrow> int \<Rightarrow> timer_list list \<times> int \<times> bool" where
  "timer_tick next_timer lost_ticks =
     (case next_timer of
        [] \<Rightarrow> ([], lost_ticks, False)
      | p # q \<Rightarrow>
          if expires p \<noteq> 0
          then (p\<lparr>expires := expires p - 1\<rparr> # q, lost_ticks, expires p - 1 = 0)
          else (p # q, u32 (lost_ticks + 1), True))"

text \<open>The first loop of the bottom half, with the timers whose function it calls.\<close>

partial_function (option) timer_bh_loop ::
    "(nat \<Rightarrow> int \<Rightarrow> timer_list list \<Rightarrow> timer_list list) \<Rightarrow> timer_list list \<Rightarrow> timer_list list \<Rightarrow>
     (timer_list list \<times> timer_list list) option" where
  "timer_bh_loop call next_timer calls =
     (case next_timer of
        [] \<Rightarrow> Some ([], calls)
      | p # q \<Rightarrow>
          if expires p = 0
          then timer_bh_loop call (call (tm_function p) (tm_data p) q) (calls @ [p])
          else Some (p # q, calls))"

section \<open>The fixed timers\<close>

text \<open>
  \<open>timer_active\<close> as the bits of a number, \<open>timer_table\<close> as the list of the 32 \<open>expires\<close> fields. Entry \<open>i\<close> has
  the mask \<open>2 ^ i\<close>; the loop ends when the mask is above \<open>timer_active\<close>. Here a timer function does not
  touch the table. The value is the mask left and the entries called.
\<close>

fun table_loop :: "int list \<Rightarrow> int \<Rightarrow> nat \<Rightarrow> 32 word \<Rightarrow> nat list \<Rightarrow> 32 word \<times> nat list" where
  "table_loop [] jiffies i active calls = (active, calls)"
| "table_loop (e # table) jiffies i active calls =
     (if push_bit i 1 > active then (active, calls)
      else if \<not> bit active i \<or> e > jiffies then table_loop table jiffies (Suc i) active calls
      else table_loop table jiffies (Suc i) (active AND NOT (push_bit i 1)) (calls @ [i]))"

text \<open>The whole bottom half.\<close>

definition timer_bh ::
    "(nat \<Rightarrow> int \<Rightarrow> timer_list list \<Rightarrow> timer_list list) \<Rightarrow> timer_list list \<Rightarrow> int list \<Rightarrow> 32 word \<Rightarrow> int \<Rightarrow>
     (timer_list list \<times> timer_list list \<times> 32 word \<times> nat list) option" where
  "timer_bh call next_timer timer_table timer_active jiffies =
     (case timer_bh_loop call next_timer [] of
        None \<Rightarrow> None
      | Some (q, calls) \<Rightarrow>
          (case table_loop timer_table jiffies 0 timer_active [] of
             (active, fired) \<Rightarrow> Some (q, calls, active, fired)))"

text \<open>Whether the timer interrupt marks the bottom half for the table.\<close>

fun table_due :: "int list \<Rightarrow> int \<Rightarrow> nat \<Rightarrow> 32 word \<Rightarrow> bool" where
  "table_due [] jiffies i active = False"
| "table_due (e # table) jiffies i active =
     (if push_bit i 1 > active then False
      else if \<not> bit active i \<or> e > jiffies then table_due table jiffies (Suc i) active
      else True)"

section \<open>Absolute times\<close>

text \<open>The timers with the whole number of ticks until they are due.\<close>

fun due :: "int \<Rightarrow> timer_list list \<Rightarrow> (nat \<times> int) list" where
  "due e [] = []"
| "due e (p # q) = (tm p, e + expires p) # due (e + expires p) q"

text \<open>The reference: an entry goes behind all entries that are due no later.\<close>

fun insert_due :: "nat \<times> int \<Rightarrow> (nat \<times> int) list \<Rightarrow> (nat \<times> int) list" where
  "insert_due x [] = [x]"
| "insert_due x (y # ys) = (if snd y > snd x then x # y # ys else y # insert_due x ys)"

definition queue_ok :: "timer_list list \<Rightarrow> bool" where
  "queue_ok q \<longleftrightarrow> distinct (map tm q) \<and> (\<forall>p \<in> set q. 0 \<le> expires p) \<and> (\<Sum>p \<leftarrow> q. expires p) < 4294967296"

lemma map_fst_due [simp]: "map fst (due e q) = map tm q"
  by (induction q arbitrary: e) auto

lemma due_shift: "due (e + d) q = map (\<lambda>(t, x). (t, x + d)) (due e q)"
proof (induction q arbitrary: e)
  case (Cons p q)
  from Cons [of "e + expires p"] show ?case by (simp add: algebra_simps)
qed simp

lemma fst_due: "fst ` set (due e q) = tm ` set q"
  by (metis list.set_map map_fst_due)

lemma insert_due_shift: "insert_due (t, x + d) (map (\<lambda>(t, x). (t, x + d)) ys) = map (\<lambda>(t, x). (t, x + d)) (insert_due (t, x) ys)"
  by (induction ys) auto

lemma sum_nonneg: "\<forall>p \<in> set q. 0 \<le> expires p \<Longrightarrow> 0 \<le> (\<Sum>p \<leftarrow> q. expires p)"
  by (induction q) auto

lemma add_loop_due:
  "0 \<le> expires t \<Longrightarrow> expires t < 4294967296 \<Longrightarrow> \<forall>p \<in> set q. 0 \<le> expires p \<Longrightarrow> (\<Sum>p \<leftarrow> q. expires p) < 4294967296 \<Longrightarrow>
   due e (add_loop t q) = insert_due (tm t, e + expires t) (due e q)
   \<and> (\<forall>p \<in> set (add_loop t q). 0 \<le> expires p)
   \<and> (\<Sum>p \<leftarrow> add_loop t q. expires p) = max (expires t) (\<Sum>p \<leftarrow> q. expires p)
   \<and> set (map tm (add_loop t q)) = insert (tm t) (set (map tm q))
   \<and> (distinct (map tm q) \<and> tm t \<notin> set (map tm q) \<longrightarrow> distinct (map tm (add_loop t q)))"
proof (induction t q arbitrary: e rule: add_loop.induct)
  case (2 t p q)
  show ?case
  proof (cases "expires p > expires t")
    case True
    with 2 sum_nonneg [of q] show ?thesis by (auto simp: u32_id)
  next
    case False
    then have u: "u32 (expires t - expires p) = expires t - expires p" using "2.prems" by (intro u32_id) auto
    have "(\<Sum>p \<leftarrow> q. expires p) < 4294967296" using "2.prems" by auto
    with "2.IH" [OF False, of "e + expires p"] False "2.prems" u show ?thesis by (auto simp: max_def)
  qed
qed auto

lemma del_loop_absent: "t \<notin> set (map tm q) \<Longrightarrow> del_loop t e q = (None, q)"
  by (induction t e q rule: del_loop.induct) auto

lemma del_loop_due:
  "0 \<le> e \<Longrightarrow> e + (\<Sum>p \<leftarrow> q. expires p) < 4294967296 \<Longrightarrow> \<forall>p \<in> set q. 0 \<le> expires p \<Longrightarrow> distinct (map tm q) \<Longrightarrow>
   t \<in> set (map tm q) \<Longrightarrow>
   \<exists>p q'. del_loop t e q = (Some p, q') \<and> tm p = t \<and> (t, expires p) \<in> set (due e q)
     \<and> due e q' = filter (\<lambda>x. fst x \<noteq> t) (due e q) \<and> (\<forall>p \<in> set q'. 0 \<le> expires p)
     \<and> (\<Sum>p \<leftarrow> q'. expires p) \<le> (\<Sum>p \<leftarrow> q. expires p) \<and> map tm q' = filter (\<lambda>x. x \<noteq> t) (map tm q)"
proof (induction t e q rule: del_loop.induct)
  case (2 t e p q)
  show ?case
  proof (cases "tm p = t")
    case True
    with "2.prems" have notin: "t \<notin> set (map tm q)" by auto
    then have f: "filter (\<lambda>x. fst x \<noteq> t) (due a q) = due a q" for a
      using fst_due [of a q] by (intro filter_True) force
    have g: "filter (\<lambda>x. x \<noteq> t) (map tm q) = map tm q" using notin by (auto simp: filter_id_conv)
    show ?thesis
    proof (cases q)
      case Nil
      with True "2.prems" show ?thesis by (simp add: u32_id add.commute)
    next
      case (Cons n ns)
      with "2.prems" have s: "0 \<le> (\<Sum>p \<leftarrow> ns. expires p)" by (intro sum_nonneg) auto
      with True "2.prems" Cons f [of "e + expires p"] g show ?thesis
        by (auto simp: u32_id algebra_simps)
    qed
  next
    case False
    then have e: "u32 (e + expires p) = e + expires p"
      using "2.prems" sum_nonneg [of q] by (intro u32_id) auto
    from "2.IH" [OF False] False "2.prems" show ?thesis by (auto simp: e algebra_simps)
  qed
qed simp

end
