(* ===== verification/Timers_Props.thy ===== *)
theory Timers_Props
  imports Timers
begin

text \<open>
  The timer list against absolute times. The locale \<open>timer_service\<close> is what a user of timers relies on: an
  added timer is pending with its delay, and a tick with its bottom half calls exactly the timers that
  were due in one tick and brings the others one tick nearer. Its lemmas say when an added timer fires;
  the interpretation discharges the contract for the list of relative times.
\<close>

section \<open>The contract\<close>

text \<open>Repeated runs of an operation that reports something each time.\<close>

fun run_times :: "('q \<Rightarrow> ('q \<times> 'c) option) \<Rightarrow> nat \<Rightarrow> 'q \<Rightarrow> ('q \<times> 'c list) option" where
  "run_times run 0 q = Some (q, [])"
| "run_times run (Suc n) q =
     (case run q of
        None \<Rightarrow> None
      | Some (q, c) \<Rightarrow> (case run_times run n q of None \<Rightarrow> None | Some (q, cs) \<Rightarrow> Some (q, c # cs)))"

lemma set_insert_due: "set (insert_due x ys) = insert x (set ys)"
  by (induction ys) auto

lemma filter_lowered:
  "filter (\<lambda>x. snd x > 0) (map (\<lambda>(t, x). (t, x - 1)) ys) = map (\<lambda>(t, x). (t, x - 1)) (filter (\<lambda>x. snd x > (1 :: int)) ys)"
  "map fst (filter (\<lambda>x. snd x = 0) (map (\<lambda>(t, x). (t, x - 1)) ys)) = map fst (filter (\<lambda>x. snd x = 1) ys)"
  "a \<ge> 1 \<Longrightarrow> map fst (filter (\<lambda>x. snd x = a) (map (\<lambda>(t, x). (t, x - 1)) (filter (\<lambda>x. snd x > 1) ys)))
    = map fst (filter (\<lambda>x. snd x = a + 1) ys)"
  by (induction ys) auto

locale timer_service =
  fixes ok :: "'q \<Rightarrow> bool" and pending :: "'q \<Rightarrow> (nat \<times> int) list"
    and name :: "'t \<Rightarrow> nat" and delay :: "'t \<Rightarrow> int"
    and add :: "'t \<Rightarrow> 'q \<Rightarrow> 'q option" and run :: "'q \<Rightarrow> ('q \<times> 't list) option"
  assumes add_pending: "ok q \<Longrightarrow> name t \<notin> fst ` set (pending q) \<Longrightarrow> 0 < delay t \<Longrightarrow> delay t < 4294967296 \<Longrightarrow>
      \<exists>q'. add t q = Some q' \<and> ok q' \<and> pending q' = insert_due (name t, delay t) (pending q)"
    and run_pending: "ok q \<Longrightarrow>
      \<exists>q' c. run q = Some (q', c) \<and> ok q' \<and> map name c = map fst (filter (\<lambda>x. snd x = 1) (pending q))
        \<and> pending q' = map (\<lambda>(t, x). (t, x - 1)) (filter (\<lambda>x. snd x > 1) (pending q))"
begin

lemma runs_fire:
  "ok q \<Longrightarrow>
   \<exists>q' cs. run_times run n q = Some (q', cs) \<and> ok q' \<and> length cs = n
     \<and> (\<forall>k < n. map name (cs ! k) = map fst (filter (\<lambda>x. snd x = int k + 1) (pending q)))"
proof (induction n arbitrary: q)
  case (Suc n)
  obtain q1 c where 1: "run q = Some (q1, c)" "ok q1" "map name c = map fst (filter (\<lambda>x. snd x = 1) (pending q))"
    "pending q1 = map (\<lambda>(t, x). (t, x - 1)) (filter (\<lambda>x. snd x > 1) (pending q))"
    using run_pending [OF Suc.prems] by blast
  obtain q2 cs where 2: "run_times run n q1 = Some (q2, cs)" "ok q2" "length cs = n"
    "\<forall>k < n. map name (cs ! k) = map fst (filter (\<lambda>x. snd x = int k + 1) (pending q1))"
    using Suc.IH [OF 1(2)] by blast
  have "map fst (filter (\<lambda>x. snd x = int k + 1) (pending q1)) = map fst (filter (\<lambda>x. snd x = int (Suc k) + 1) (pending q))" for k
    unfolding 1(4) using filter_lowered(3) [of "int k + 1" "pending q"] by (simp add: add.commute)
  then have "map name ((c # cs) ! k) = map fst (filter (\<lambda>x. snd x = int k + 1) (pending q))" if "k < Suc n" for k
    using that 1(3) 2(4) by (cases k) auto
  with 1 2 show ?case by auto
qed simp

lemma added_fires:
  assumes "ok q" "name t \<notin> fst ` set (pending q)" "0 < delay t" "delay t < 4294967296"
  shows "\<exists>q0 q' cs. add t q = Some q0 \<and> run_times run n q0 = Some (q', cs) \<and> length cs = n
    \<and> (\<forall>k < n. name t \<in> name ` set (cs ! k) \<longleftrightarrow> int k + 1 = delay t)"
proof -
  obtain q0 where q0: "add t q = Some q0" "ok q0" "pending q0 = insert_due (name t, delay t) (pending q)"
    using add_pending [OF assms] by blast
  obtain q' cs where r: "run_times run n q0 = Some (q', cs)" "length cs = n"
    "\<forall>k < n. map name (cs ! k) = map fst (filter (\<lambda>x. snd x = int k + 1) (pending q0))"
    using runs_fire [OF q0(2)] by blast
  have "name t \<in> name ` set (cs ! k) \<longleftrightarrow> int k + 1 = delay t" if "k < n" for k
  proof -
    have "name ` set (cs ! k) = fst ` {x \<in> set (pending q0). snd x = int k + 1}"
      using r(3) that by (metis list.set_map set_filter)
    then show ?thesis using assms(2) by (force simp: q0(3) set_insert_due image_iff)
  qed
  with q0 r show ?thesis by blast
qed

end

section \<open>The list of relative times\<close>

text \<open>One tick, with the bottom half where it is marked, when the functions called leave the chain alone.\<close>

definition run_tick :: "timer_list list \<Rightarrow> (timer_list list \<times> timer_list list) option" where
  "run_tick q =
     (case timer_tick q 0 of
        (q, lost, marked) \<Rightarrow> if marked then timer_bh_loop (\<lambda>f d q. q) q [] else Some (q, []))"

definition timers_ok :: "timer_list list \<Rightarrow> bool" where
  "timers_ok q \<longleftrightarrow> queue_ok q \<and> (\<forall>x \<in> set (due 0 q). 0 < snd x)"

lemma due_least: "\<forall>p \<in> set q. 0 \<le> expires p \<Longrightarrow> x \<in> set (due e q) \<Longrightarrow> e \<le> snd x"
proof (induction q arbitrary: e)
  case (Cons p q)
  then show ?case using Cons.IH [of "e + expires p"] by fastforce
qed simp

lemma bh_loop_pops:
  "timer_bh_loop (\<lambda>f d q. q) q calls = Some (dropWhile (\<lambda>p. expires p = 0) q, calls @ takeWhile (\<lambda>p. expires p = 0) q)"
  by (induction q arbitrary: calls) (simp_all add: timer_bh_loop.simps)

lemma popped_due:
  "\<forall>p \<in> set q. 0 \<le> expires p \<Longrightarrow>
   due 0 (dropWhile (\<lambda>p. expires p = 0) q) = filter (\<lambda>x. snd x > 0) (due 0 q)
   \<and> map tm (takeWhile (\<lambda>p. expires p = 0) q) = map fst (filter (\<lambda>x. snd x = 0) (due 0 q))"
proof (induction q)
  case (Cons p q)
  show ?case
  proof (cases "expires p = 0")
    case False
    with Cons.prems have p: "0 < expires p" by simp
    have "\<forall>x \<in> set (due (expires p) q). 0 < snd x" using p due_least [of q _ "expires p"] Cons.prems by force
    then have "filter (\<lambda>x. snd x > 0) (due (expires p) q) = due (expires p) q"
      "filter (\<lambda>x. snd x = 0) (due (expires p) q) = []" by (auto simp: filter_id_conv filter_empty_conv)
    with p show ?thesis by simp
  qed (use Cons in auto)
qed simp

lemma dropWhile_ok:
  assumes "queue_ok q"
  shows "queue_ok (dropWhile P q)"
proof -
  have split: "q = takeWhile P q @ dropWhile P q" by simp
  have "(\<Sum>p \<leftarrow> q. expires p) = (\<Sum>p \<leftarrow> takeWhile P q. expires p) + (\<Sum>p \<leftarrow> dropWhile P q. expires p)"
    by (subst split) (simp only: map_append sum_list_append)
  moreover have "0 \<le> (\<Sum>p \<leftarrow> takeWhile P q. expires p)"
    using assms set_takeWhileD [of _ P q] by (intro sum_nonneg) (auto simp: queue_ok_def)
  ultimately show ?thesis
    using assms set_dropWhileD [of _ P q] distinct_dropWhile [of "map tm q" "\<lambda>x. x \<notin> tm ` set (dropWhile P q)"]
    by (auto simp: queue_ok_def distinct_map inj_on_def)
qed

text \<open>A tick lowers every absolute time by one.\<close>

lemma tick_due:
  assumes "timers_ok (p # q)"
  defines "q1 \<equiv> p\<lparr>expires := expires p - 1\<rparr> # q"
  shows "timer_tick (p # q) l = (q1, l, expires p = 1)" "queue_ok q1"
    and "due 0 q1 = map (\<lambda>(t, x). (t, x - 1)) (due 0 (p # q))"
proof -
  have p: "0 < expires p" using assms(1) by (simp add: timers_ok_def)
  then show "timer_tick (p # q) l = (q1, l, expires p = 1)" by (auto simp: timer_tick_def q1_def)
  show "queue_ok q1" using assms(1) p by (auto simp: timers_ok_def queue_ok_def q1_def)
  show "due 0 q1 = map (\<lambda>(t, x). (t, x - 1)) (due 0 (p # q))"
    using due_shift [of "expires p" "-1" q] by (simp add: q1_def)
qed

lemma run_tick_due:
  assumes "timers_ok q"
  shows "\<exists>q' c. run_tick q = Some (q', c) \<and> timers_ok q' \<and> map tm c = map fst (filter (\<lambda>x. snd x = 1) (due 0 q))
    \<and> due 0 q' = map (\<lambda>(t, x). (t, x - 1)) (filter (\<lambda>x. snd x > 1) (due 0 q))"
proof (cases q)
  case Nil
  with assms show ?thesis by (simp add: run_tick_def timer_tick_def)
next
  case (Cons p r)
  define q1 where "q1 = p\<lparr>expires := expires p - 1\<rparr> # r"
  note t = tick_due [OF assms [unfolded Cons], folded q1_def, folded Cons]
  have nn: "\<forall>p \<in> set q1. 0 \<le> expires p" using t(2) by (simp add: queue_ok_def)
  have all: "filter (\<lambda>x. snd x > 0) (due 0 q1) = map (\<lambda>(t, x). (t, x - 1)) (filter (\<lambda>x. snd x > 1) (due 0 q))"
    "map fst (filter (\<lambda>x. snd x = 0) (due 0 q1)) = map fst (filter (\<lambda>x. snd x = 1) (due 0 q))"
    unfolding t(3) by (rule filter_lowered)+
  let ?drop = "dropWhile (\<lambda>p. expires p = 0) q1" and ?take = "takeWhile (\<lambda>p. expires p = 0) q1"
  have "run_tick q = Some (?drop, ?take)"
    using t(1) by (auto simp: run_tick_def bh_loop_pops q1_def)
  moreover have "timers_ok ?drop"
    using dropWhile_ok [OF t(2)] popped_due [OF nn] by (auto simp: timers_ok_def)
  ultimately show ?thesis using popped_due [OF nn] all by auto
qed

lemma add_timer_due:
  assumes "queue_ok q" "tm t \<notin> tm ` set q" "0 \<le> expires t" "expires t < 4294967296"
  shows "\<exists>q'. add_timer (Some t) q = Some q' \<and> queue_ok q' \<and> due 0 q' = insert_due (tm t, expires t) (due 0 q)"
  using add_loop_due [of t q 0] assms by (auto simp: add_timer_def queue_ok_def)

interpretation kernel_timers: timer_service timers_ok "due 0" tm expires "\<lambda>t. add_timer (Some t)" run_tick
proof
  fix q and t :: timer_list
  assume *: "timers_ok q" "tm t \<notin> fst ` set (due 0 q)" "0 < expires t" "expires t < 4294967296"
  then show "\<exists>q'. add_timer (Some t) q = Some q' \<and> timers_ok q' \<and> due 0 q' = insert_due (tm t, expires t) (due 0 q)"
    using add_timer_due [of q t] by (auto simp: timers_ok_def fst_due set_insert_due)
qed (rule run_tick_due)

section \<open>Properties\<close>

text \<open>
  C8: The list with relative times behaves as a list of timers with absolute times: \<open>add_timer\<close> inserts the
  timer with its own time behind all that are due no later and changes the time of no other, and
  \<open>del_timer\<close> removes exactly its timer, reports the whole time that was left, and reports a timer that
  is not pending as such.
\<close>

theorem timer_list_keeps_absolute_times:
  assumes "queue_ok q" "0 \<le> expires t" "expires t < 4294967296" "tm t \<notin> tm ` set q"
  shows "(\<exists>q'. add_timer (Some t) q = Some q' \<and> queue_ok q' \<and> due 0 q' = insert_due (tm t, expires t) (due 0 q))
    \<and> (case del_timer i q of
         (None, q') \<Rightarrow> i \<notin> tm ` set q \<and> q' = q
       | (Some p, q') \<Rightarrow> tm p = i \<and> (i, expires p) \<in> set (due 0 q) \<and> queue_ok q'
           \<and> due 0 q' = filter (\<lambda>x. fst x \<noteq> i) (due 0 q))"
proof
  show "\<exists>q'. add_timer (Some t) q = Some q' \<and> queue_ok q' \<and> due 0 q' = insert_due (tm t, expires t) (due 0 q)"
    using add_timer_due assms by blast
  show "case del_timer i q of
         (None, q') \<Rightarrow> i \<notin> tm ` set q \<and> q' = q
       | (Some p, q') \<Rightarrow> tm p = i \<and> (i, expires p) \<in> set (due 0 q) \<and> queue_ok q'
           \<and> due 0 q' = filter (\<lambda>x. fst x \<noteq> i) (due 0 q)"
  proof (cases "i \<in> tm ` set q")
    case True
    then obtain p q' where "del_loop i 0 q = (Some p, q')" "tm p = i" "(i, expires p) \<in> set (due 0 q)"
      "due 0 q' = filter (\<lambda>x. fst x \<noteq> i) (due 0 q)" "\<forall>p \<in> set q'. 0 \<le> expires p"
      "(\<Sum>p \<leftarrow> q'. expires p) \<le> (\<Sum>p \<leftarrow> q. expires p)" "map tm q' = filter (\<lambda>x. x \<noteq> i) (map tm q)"
      using del_loop_due [of 0 q i] assms(1) by (auto simp: queue_ok_def)
    with assms(1) show ?thesis by (simp add: del_timer_def queue_ok_def)
  qed (simp add: del_timer_def del_loop_absent)
qed

definition a_timer :: "nat \<Rightarrow> int \<Rightarrow> timer_list" where
  "a_timer t e = \<lparr>tm = t, expires = e, tm_data = 0, tm_function = 0\<rparr>"

theorem timer_list_keeps_absolute_times_witness:
  "(\<exists>q'. add_timer (Some (a_timer 2 5)) [a_timer 1 3, a_timer 3 4] = Some q' \<and> due 0 q' = [(1, 3), (2, 5), (3, 7)])
    \<and> (\<exists>p q'. del_timer 3 [a_timer 1 3, a_timer 3 4] = (Some p, q') \<and> expires p = 7)"
proof -
  have "queue_ok [a_timer 1 3, a_timer 3 4]" by (simp add: queue_ok_def a_timer_def)
  from timer_list_keeps_absolute_times [OF this, of "a_timer 2 5" 3] show ?thesis
    by (auto simp: a_timer_def split: prod.splits option.splits)
qed



end
