(* ===== verification/Signals.thy ===== *)
theory Signals
  imports Sys
begin

text \<open>
  Sending and masking signals: \<open>generate\<close>, \<open>send_sig\<close> and the kill functions of kernel/exit.c, the mask and
  action calls of kernel/signal.c, and what \<open>do_signal\<close> does with a pending signal.

  A process is a \<open>sigtask\<close>, the \<open>ptask\<close> of kernel/sys.c with the fields that signals use. Sets of signals are
  32-bit words. Tracing is one flag; a handler is its address. Setting up the frame on the user stack,
  waiting for a tracer and dumping core are left out.
\<close>

section \<open>Data\<close>

record sigact =
  sa_handler :: int
  sa_mask :: "32 word"
  sa_flags :: "32 word"
  sa_restorer :: int

record sigtask = ptask +
  state :: int
  traced :: bool
  exit_code :: int
  sigaction :: "sigact list"

definition TASK_RUNNING :: int where "TASK_RUNNING = 0"
definition TASK_ZOMBIE :: int where "TASK_ZOMBIE = 3"
definition TASK_STOPPED :: int where "TASK_STOPPED = 4"
definition TASK_SIZE :: int where "TASK_SIZE = 3221225472"

definition SIGQUIT :: int where "SIGQUIT = 3"
definition SIGILL :: int where "SIGILL = 4"
definition SIGTRAP :: int where "SIGTRAP = 5"
definition SIGIOT :: int where "SIGIOT = 6"
definition SIGFPE :: int where "SIGFPE = 8"
definition SIGKILL :: int where "SIGKILL = 9"
definition SIGSEGV :: int where "SIGSEGV = 11"
definition SIGCHLD :: int where "SIGCHLD = 17"
definition SIGCONT :: int where "SIGCONT = 18"
definition SIGSTOP :: int where "SIGSTOP = 19"
definition SIGTSTP :: int where "SIGTSTP = 20"
definition SIGTTIN :: int where "SIGTTIN = 21"
definition SIGTTOU :: int where "SIGTTOU = 22"
definition SIGWINCH :: int where "SIGWINCH = 28"

definition SIG_DFL :: int where "SIG_DFL = 0"
definition SIG_IGN :: int where "SIG_IGN = 1"
definition SA_NOMASK :: "32 word" where "SA_NOMASK = 0x40000000"
definition SA_ONESHOT :: "32 word" where "SA_ONESHOT = 0x80000000"

text \<open>The set with one signal, from 1 to 32, and the signals that may be blocked.\<close>

definition sig_S :: "int \<Rightarrow> 32 word" where "sig_S nr = push_bit (nat (nr - 1)) 1"

definition BLOCKABLE :: "32 word" where "BLOCKABLE = NOT (sig_S SIGKILL OR sig_S SIGSTOP)"

section \<open>Sending\<close>

definition generate :: "int \<Rightarrow> sigtask \<Rightarrow> sigtask" where
  "generate sig p =
     (case aget (sigaction p) (sig - 1) of
        None \<Rightarrow> p
      | Some sa \<Rightarrow>
          if traced p then p\<lparr>signal := signal p OR sig_S sig\<rparr>
          else if sa_handler sa = SIG_IGN \<and> sig \<noteq> SIGCHLD then p
          else if sa_handler sa = SIG_DFL \<and> (sig = SIGCONT \<or> sig = SIGCHLD \<or> sig = SIGWINCH) then p
          else p\<lparr>signal := signal p OR sig_S sig\<rparr>)"

definition send_cont :: "int \<Rightarrow> sigtask \<Rightarrow> sigtask" where
  "send_cont sig p =
     (if sig = SIGKILL \<or> sig = SIGCONT
      then p\<lparr>state := (if state p = TASK_STOPPED then TASK_RUNNING else state p), exit_code := 0,
             signal := signal p AND NOT (sig_S SIGSTOP OR sig_S SIGTSTP OR sig_S SIGTTIN OR sig_S SIGTTOU)\<rparr>
      else p)"

definition send_stop :: "int \<Rightarrow> sigtask \<Rightarrow> sigtask" where
  "send_stop sig p =
     (if SIGSTOP \<le> sig \<and> sig \<le> SIGTTOU then p\<lparr>signal := signal p AND NOT (sig_S SIGCONT)\<rparr> else p)"

text \<open>\<open>send_sig\<close> to a process that is there; the signal number is unsigned, no error is the result 0.\<close>

definition send_sig :: "sigtask \<Rightarrow> int \<Rightarrow> sigtask \<Rightarrow> bool \<Rightarrow> sigtask \<times> errno option" where
  "send_sig cur sig p priv =
     (if u32 sig > 32 then (p, Some EINVAL)
      else if \<not> priv \<and> (sig \<noteq> SIGCONT \<or> session cur \<noteq> session p) \<and> euid cur \<noteq> euid p \<and> uid cur \<noteq> uid p \<and> \<not> is_suser cur
      then (p, Some EPERM)
      else if sig = 0 then (p, None)
      else (generate sig (send_stop sig (send_cont sig p)), None))"

section \<open>The kill functions\<close>

record sprocs =
  stab :: "sigtask option list"
  sring :: "nat list"
  sme :: nat

definition sproc_at :: "sigtask option list \<Rightarrow> nat \<Rightarrow> sigtask option" where
  "sproc_at tab i = (if i < length tab then tab ! i else None)"

text \<open>
  Sending to every task of the ring that a test selects: the table, the last error and the number of
  tasks that took the signal.
\<close>

fun send_all :: "(nat \<Rightarrow> sigtask \<Rightarrow> bool) \<Rightarrow> sigtask \<Rightarrow> int \<Rightarrow> bool \<Rightarrow> nat list \<Rightarrow> sigtask option list \<Rightarrow> errno option \<Rightarrow> int \<Rightarrow>
    sigtask option list \<times> errno option \<times> int" where
  "send_all sel cur sig priv [] tab retval found = (tab, retval, found)"
| "send_all sel cur sig priv (i # is) tab retval found =
     (case sproc_at tab i of
        None \<Rightarrow> send_all sel cur sig priv is tab retval found
      | Some p \<Rightarrow>
          if sel i p
          then (case send_sig cur sig p priv of
                  (p, Some e) \<Rightarrow> send_all sel cur sig priv is (tab[i := Some p]) (Some e) found
                | (p, None) \<Rightarrow> send_all sel cur sig priv is (tab[i := Some p]) retval (found + 1))
          else send_all sel cur sig priv is tab retval found)"

text \<open>The result of \<open>kill_pg\<close> and \<open>kill_sl\<close>: success when one task took the signal.\<close>

definition kill_selected :: "(nat \<Rightarrow> sigtask \<Rightarrow> bool) \<Rightarrow> sprocs \<Rightarrow> sigtask \<Rightarrow> int \<Rightarrow> bool \<Rightarrow> sprocs \<times> errno option" where
  "kill_selected sel s cur sig priv =
     (case send_all sel cur sig priv (sring s) (stab s) (Some ESRCH) 0 of
        (tab, retval, found) \<Rightarrow> (s\<lparr>stab := tab\<rparr>, if found \<noteq> 0 then None else retval))"

definition kill_pg :: "sprocs \<Rightarrow> sigtask \<Rightarrow> int \<Rightarrow> int \<Rightarrow> bool \<Rightarrow> sprocs \<times> errno option" where
  "kill_pg s cur pg sig priv =
     (if sig < 0 \<or> sig > 32 \<or> pg \<le> 0 then (s, Some EINVAL)
      else kill_selected (\<lambda>i p. pgrp p = pg) s cur sig priv)"

definition kill_sl :: "sprocs \<Rightarrow> sigtask \<Rightarrow> int \<Rightarrow> int \<Rightarrow> bool \<Rightarrow> sprocs \<times> errno option" where
  "kill_sl s cur sess sig priv =
     (if sig < 0 \<or> sig > 32 \<or> sess \<le> 0 then (s, Some EINVAL)
      else kill_selected (\<lambda>i p. session p = sess \<and> leader p \<noteq> 0) s cur sig priv)"

fun find_pid :: "int \<Rightarrow> sigtask option list \<Rightarrow> nat list \<Rightarrow> nat option" where
  "find_pid pd tab [] = None"
| "find_pid pd tab (i # is) =
     (case sproc_at tab i of
        None \<Rightarrow> find_pid pd tab is
      | Some p \<Rightarrow> if pid p = pd then Some i else find_pid pd tab is)"

definition kill_proc :: "sprocs \<Rightarrow> sigtask \<Rightarrow> int \<Rightarrow> int \<Rightarrow> bool \<Rightarrow> sprocs \<times> errno option" where
  "kill_proc s cur pd sig priv =
     (if sig < 0 \<or> sig > 32 then (s, Some EINVAL)
      else (case find_pid pd (stab s) (sring s) of
              None \<Rightarrow> (s, Some ESRCH)
            | Some i \<Rightarrow>
                (case sproc_at (stab s) i of
                   None \<Rightarrow> (s, Some ESRCH)
                 | Some p \<Rightarrow> (case send_sig cur sig p priv of (p, e) \<Rightarrow> (s\<lparr>stab := (stab s)[i := Some p]\<rparr>, e)))))"

text \<open>The loop for the process number -1, where the last result that is not \<open>EPERM\<close> counts.\<close>

fun kill_all :: "sigtask \<Rightarrow> nat \<Rightarrow> int \<Rightarrow> nat list \<Rightarrow> sigtask option list \<Rightarrow> errno option \<Rightarrow> int \<Rightarrow> sigtask option list \<times> errno option \<times> int" where
  "kill_all cur m sig [] tab retval count = (tab, retval, count)"
| "kill_all cur m sig (i # is) tab retval count =
     (case sproc_at tab i of
        None \<Rightarrow> kill_all cur m sig is tab retval count
      | Some p \<Rightarrow>
          if pid p > 1 \<and> i \<noteq> m
          then (case send_sig cur sig p False of
                  (p, e) \<Rightarrow> kill_all cur m sig is (tab[i := Some p]) (if e \<noteq> Some EPERM then e else retval) (count + 1))
          else kill_all cur m sig is tab retval count)"

definition sys_kill :: "sprocs \<Rightarrow> int \<Rightarrow> int \<Rightarrow> sprocs \<times> res" where
  "sys_kill s pd sig =
     (case sproc_at (stab s) (sme s) of
        None \<Rightarrow> (s, Fault)
      | Some cur \<Rightarrow>
          let answer = (\<lambda>(s, e). (s, case e of None \<Rightarrow> Ret 0 | Some e \<Rightarrow> Err e)) in
          if pd = 0 then answer (kill_pg s cur (pgrp cur) sig False)
          else if pd = -1
          then (case kill_all cur (sme s) sig (sring s) (stab s) None 0 of
                  (tab, retval, count) \<Rightarrow> answer (s\<lparr>stab := tab\<rparr>, if count \<noteq> 0 then retval else Some ESRCH))
          else if pd < 0 then answer (kill_pg s cur (s32 (- pd)) sig False)
          else answer (kill_proc s cur pd sig False))"

text \<open>Questions about a process group.\<close>

fun session_loop :: "int \<Rightarrow> sigtask option list \<Rightarrow> nat list \<Rightarrow> int \<Rightarrow> int" where
  "session_loop pg tab [] fallback = fallback"
| "session_loop pg tab (i # is) fallback =
     (case sproc_at tab i of
        None \<Rightarrow> session_loop pg tab is fallback
      | Some p \<Rightarrow>
          if session p \<le> 0 then session_loop pg tab is fallback
          else if pgrp p = pg then session p
          else session_loop pg tab is (if pid p = pg then session p else fallback))"

definition session_of_pgrp :: "sprocs \<Rightarrow> int \<Rightarrow> int" where
  "session_of_pgrp s pg = session_loop pg (stab s) (sring s) (-1)"

fun is_orphaned :: "int \<Rightarrow> sigtask option list \<Rightarrow> nat list \<Rightarrow> bool option" where
  "is_orphaned pg tab [] = Some True"
| "is_orphaned pg tab (i # is) =
     (case sproc_at tab i of
        None \<Rightarrow> is_orphaned pg tab is
      | Some p \<Rightarrow>
          if pgrp p \<noteq> pg \<or> state p = TASK_ZOMBIE then is_orphaned pg tab is
          else (case sproc_at tab (p_pptr p) of
                  None \<Rightarrow> None
                | Some parent \<Rightarrow>
                    if pid parent = 1 then is_orphaned pg tab is
                    else if pgrp parent \<noteq> pg \<and> session parent = session p then Some False
                    else is_orphaned pg tab is))"

definition is_orphaned_pgrp :: "sprocs \<Rightarrow> int \<Rightarrow> bool option" where
  "is_orphaned_pgrp s pg = is_orphaned pg (stab s) (sring s)"

fun has_stopped :: "int \<Rightarrow> sigtask option list \<Rightarrow> nat list \<Rightarrow> bool" where
  "has_stopped pg tab [] = False"
| "has_stopped pg tab (i # is) =
     (case sproc_at tab i of
        None \<Rightarrow> has_stopped pg tab is
      | Some p \<Rightarrow> if pgrp p = pg \<and> state p = TASK_STOPPED then True else has_stopped pg tab is)"

definition has_stopped_jobs :: "sprocs \<Rightarrow> int \<Rightarrow> bool" where
  "has_stopped_jobs s pg = has_stopped pg (stab s) (sring s)"

section \<open>Masks and actions\<close>

text \<open>
  A pointer argument that is not null comes with the answer of \<open>verify_area\<close>; the value that user memory
  gets is part of the result.
\<close>

definition sys_sigprocmask ::
    "sigtask \<Rightarrow> int \<Rightarrow> (errno option \<times> 32 word) option \<Rightarrow> errno option option \<Rightarrow> sigtask \<times> 32 word option \<times> res" where
  "sys_sigprocmask cur how set' oset =
     (let old_set = blocked cur;
          finish = (\<lambda>cur. case oset of
                      None \<Rightarrow> (cur, None, Ret 0)
                    | Some (Some e) \<Rightarrow> (cur, None, Err e)
                    | Some None \<Rightarrow> (cur, Some old_set, Ret 0))
      in case set' of
           None \<Rightarrow> finish cur
         | Some (Some e, w) \<Rightarrow> (cur, None, Err e)
         | Some (None, w) \<Rightarrow>
             let new_set = w AND BLOCKABLE in
             if how = 0 then finish (cur\<lparr>blocked := blocked cur OR new_set\<rparr>)
             else if how = 1 then finish (cur\<lparr>blocked := blocked cur AND NOT new_set\<rparr>)
             else if how = 2 then finish (cur\<lparr>blocked := new_set\<rparr>)
             else (cur, None, Err EINVAL))"

definition sys_sgetmask :: "sigtask \<Rightarrow> 32 word" where "sys_sgetmask cur = blocked cur"

definition sys_ssetmask :: "sigtask \<Rightarrow> 32 word \<Rightarrow> sigtask \<times> 32 word" where
  "sys_ssetmask cur newmask = (cur\<lparr>blocked := newmask AND BLOCKABLE\<rparr>, blocked cur)"

definition sys_sigpending :: "sigtask \<Rightarrow> errno option \<Rightarrow> 32 word option \<times> res" where
  "sys_sigpending cur verify =
     (case verify of None \<Rightarrow> (Some (blocked cur AND signal cur), Ret 0) | Some e \<Rightarrow> (None, Err e))"

definition check_pending :: "sigtask \<Rightarrow> int \<Rightarrow> sigtask" where
  "check_pending cur signum =
     (case aget (sigaction cur) (signum - 1) of
        None \<Rightarrow> cur
      | Some p \<Rightarrow>
          if sa_handler p = SIG_IGN
          then if signum = SIGCHLD then cur else cur\<lparr>signal := signal cur AND NOT (sig_S signum)\<rparr>
          else if sa_handler p = SIG_DFL
          then if signum \<noteq> SIGCONT \<and> signum \<noteq> SIGCHLD \<and> signum \<noteq> SIGWINCH then cur
               else cur\<lparr>signal := signal cur AND NOT (sig_S signum)\<rparr>
          else cur)"

text \<open>Storing an action and looking at what is pending, the end of both calls.\<close>

definition put_action :: "sigtask \<Rightarrow> int \<Rightarrow> sigact \<Rightarrow> sigtask" where
  "put_action cur signum sa = check_pending (cur\<lparr>sigaction := (sigaction cur)[nat (signum - 1) := sa]\<rparr>) signum"

definition bad_signum :: "int \<Rightarrow> bool" where
  "bad_signum signum \<longleftrightarrow> signum < 1 \<or> signum > 32 \<or> signum = SIGKILL \<or> signum = SIGSTOP"

definition sys_signal :: "sigtask \<Rightarrow> int \<Rightarrow> int \<Rightarrow> sigtask \<times> res" where
  "sys_signal cur signum handler =
     (if bad_signum signum then (cur, Err EINVAL)
      else if handler \<ge> TASK_SIZE then (cur, Err EFAULT)
      else (case aget (sigaction cur) (signum - 1) of
              None \<Rightarrow> (cur, Fault)
            | Some old \<Rightarrow>
                (put_action cur signum \<lparr>sa_handler = handler, sa_mask = 0, sa_flags = SA_ONESHOT OR SA_NOMASK, sa_restorer = 0\<rparr>,
                 Ret (sa_handler old))))"

definition new_action :: "int \<Rightarrow> sigact \<Rightarrow> sigact" where
  "new_action signum sa =
     (if sa_flags sa AND SA_NOMASK \<noteq> 0 then sa\<lparr>sa_mask := 0\<rparr>
      else sa\<lparr>sa_mask := (sa_mask sa OR sig_S signum) AND BLOCKABLE\<rparr>)"

definition sys_sigaction ::
    "sigtask \<Rightarrow> int \<Rightarrow> (errno option \<times> sigact) option \<Rightarrow> errno option option \<Rightarrow> sigtask \<times> sigact option \<times> res" where
  "sys_sigaction cur signum action oldaction =
     (if bad_signum signum then (cur, None, Err EINVAL)
      else (case action of
              Some (Some e, sa) \<Rightarrow> (cur, None, Err e)
            | _ \<Rightarrow>
                if (case action of Some (None, sa) \<Rightarrow> TASK_SIZE \<le> u32 (sa_handler sa) | _ \<Rightarrow> False) then (cur, None, Err EFAULT)
                else (case oldaction of
                        Some (Some e) \<Rightarrow> (cur, None, Err e)
                      | _ \<Rightarrow>
                          ((case action of Some (None, sa) \<Rightarrow> put_action cur signum (new_action signum sa) | _ \<Rightarrow> cur),
                           (case oldaction of Some None \<Rightarrow> aget (sigaction cur) (signum - 1) | _ \<Rightarrow> None),
                           Ret 0))))"

section \<open>Delivery\<close>

text \<open>
  What \<open>do_signal\<close> does with a signal it takes: nothing, reaping children, stopping, dumping core before
  the exit, exiting, or calling the handler.
\<close>

datatype sig_deed = Skip | Reap | Stop | Core | Exit | Handle

definition signal_deed :: "sigtask \<Rightarrow> sigact \<Rightarrow> int \<Rightarrow> sig_deed" where
  "signal_deed cur sa signr =
     (if sa_handler sa = SIG_IGN then if signr \<noteq> SIGCHLD then Skip else Reap
      else if sa_handler sa = SIG_DFL
      then if pid cur = 1 then Skip
           else if signr \<in> {SIGCONT, SIGCHLD, SIGWINCH} then Skip
           else if signr \<in> {SIGSTOP, SIGTSTP, SIGTTIN, SIGTTOU} then if traced cur then Skip else Stop
           else if signr \<in> {SIGQUIT, SIGILL, SIGTRAP, SIGIOT, SIGFPE, SIGSEGV} then Core
           else Exit
      else Handle)"

text \<open>The change to the process for a handler that is called.\<close>

definition call_handler :: "sigtask \<Rightarrow> int \<Rightarrow> sigtask" where
  "call_handler cur signr =
     (case aget (sigaction cur) (signr - 1) of
        None \<Rightarrow> cur
      | Some sa \<Rightarrow>
          cur\<lparr>sigaction := (if sa_flags sa AND SA_ONESHOT \<noteq> 0
                             then (sigaction cur)[nat (signr - 1) := sa\<lparr>sa_handler := 0\<rparr>] else sigaction cur),
              blocked := blocked cur OR sa_mask sa\<rparr>)"

end
