(* ===== verification/Signals_Props.thy ===== *)
theory Signals_Props
  imports Signals
begin

text \<open>
  SIGKILL and SIGSTOP. No sequence of the calls that change masks and actions, of signals received and of
  handlers called can block, ignore or catch them, so a permitted SIGKILL always leaves the process with
  a deliverable signal whose only effect is the exit, except for init.
\<close>

section \<open>Steps of a process\<close>

datatype sig_call =
    Procmask int "(errno option \<times> 32 word) option" "errno option option"
  | Ssetmask "32 word"
  | Signal int int
  | Sigaction int "(errno option \<times> sigact) option" "errno option option"
  | Received sigtask int bool
  | Handler int

fun sig_do :: "sigtask \<Rightarrow> sig_call \<Rightarrow> sigtask" where
  "sig_do p (Procmask how s os) = fst (sys_sigprocmask p how s os)"
| "sig_do p (Ssetmask m) = fst (sys_ssetmask p m)"
| "sig_do p (Signal n h) = fst (sys_signal p n h)"
| "sig_do p (Sigaction n a oa) = fst (sys_sigaction p n a oa)"
| "sig_do p (Received cur n priv) = fst (send_sig cur n p priv)"
| "sig_do p (Handler n) = call_handler p n"

fun sig_run :: "sigtask \<Rightarrow> sig_call list \<Rightarrow> sigtask" where
  "sig_run p [] = p"
| "sig_run p (c # cs) = sig_run (sig_do p c) cs"

section \<open>The invariant\<close>

definition lets_through :: "32 word \<Rightarrow> bool" where
  "lets_through w \<longleftrightarrow> \<not> bit w 8 \<and> \<not> bit w 18"

definition actions_ok :: "sigact list \<Rightarrow> bool" where
  "actions_ok as \<longleftrightarrow> length as = 32 \<and> sa_handler (as ! 8) = SIG_DFL \<and> sa_handler (as ! 18) = SIG_DFL
     \<and> (\<forall>sa \<in> set as. lets_through (sa_mask sa))"

definition sig_ok :: "sigtask \<Rightarrow> bool" where
  "sig_ok p \<longleftrightarrow> lets_through (blocked p) \<and> actions_ok (sigaction p)"

lemma bit_sig_S: "0 < n \<Longrightarrow> bit (sig_S n) k \<longleftrightarrow> k = nat (n - 1) \<and> k < 32"
  by (auto simp: sig_S_def bit_simps)

lemma blockable_lets_through [simp]: "lets_through (w AND BLOCKABLE)"
  by (simp add: lets_through_def BLOCKABLE_def bit_simps bit_sig_S SIGKILL_def SIGSTOP_def)

lemma lets_through_simps [simp]:
  "lets_through 0" "lets_through v \<Longrightarrow> lets_through (v AND w)"
  "lets_through (v OR w) \<longleftrightarrow> lets_through v \<and> lets_through w"
  by (auto simp: lets_through_def bit_simps)

lemma actions_ok_update:
  assumes "actions_ok as" "lets_through (sa_mask sa)" "i \<noteq> 8 \<and> i \<noteq> 18 \<or> sa_handler sa = SIG_DFL"
  shows "actions_ok (as[i := sa])"
proof -
  have "sa_handler (as[i := sa] ! k) = SIG_DFL" if "k = 8 \<or> k = 18" for k
    using that assms(1,3) by (cases "i = k") (auto simp: actions_ok_def)
  then show ?thesis using assms(1,2) set_update_subset_insert [of as i sa] by (auto simp: actions_ok_def)
qed

lemma generate_fields: "sigaction (generate n p) = sigaction p" "blocked (generate n p) = blocked p"
  by (simp_all add: generate_def split: option.split)

lemma send_prepare_fields:
  "sigaction (send_cont n p) = sigaction p" "blocked (send_cont n p) = blocked p"
  "sigaction (send_stop n p) = sigaction p" "blocked (send_stop n p) = blocked p"
  by (simp_all add: send_cont_def send_stop_def)

lemma send_sig_fields:
  "sigaction (fst (send_sig cur n p priv)) = sigaction p" "blocked (fst (send_sig cur n p priv)) = blocked p"
  by (simp_all add: send_sig_def generate_fields send_prepare_fields)

lemma check_pending_fields: "sigaction (check_pending p n) = sigaction p" "blocked (check_pending p n) = blocked p"
  by (simp_all add: check_pending_def split: option.split)

lemma put_action_ok:
  assumes "sig_ok p" "\<not> bad_signum n" "lets_through (sa_mask sa)"
  shows "sig_ok (put_action p n sa)"
proof -
  have "nat (n - 1) \<noteq> 8" "nat (n - 1) \<noteq> 18" using assms(2) by (auto simp: bad_signum_def SIGKILL_def SIGSTOP_def)
  with assms(1,3) show ?thesis
    by (simp add: sig_ok_def put_action_def check_pending_fields actions_ok_update)
qed

lemma new_action_lets_through: "lets_through (sa_mask (new_action n sa))"
  by (simp add: new_action_def)

lemma set_mask_ok: "sig_ok p \<Longrightarrow> lets_through w \<Longrightarrow> sig_ok (p\<lparr>blocked := w\<rparr>)"
  by (simp add: sig_ok_def)

lemma sig_ok_blocked: "sig_ok p \<Longrightarrow> lets_through (blocked p)"
  by (simp add: sig_ok_def)

lemma sigprocmask_ok:
  assumes "sig_ok p"
  shows "sig_ok (fst (sys_sigprocmask p how s os))"
proof -
  have finish: "fst (case os of None \<Rightarrow> (q, None, Ret 0) | Some (Some e) \<Rightarrow> (q, None, Err e) | Some None \<Rightarrow> (q, Some w, Ret 0)) = q" for q w
    by (simp split: option.split)
  have "sig_ok (fst (sys_sigprocmask p how (Some (None, w)) os))" for w
    using assms sig_ok_blocked [OF assms] unfolding sys_sigprocmask_def Let_def option.case prod.case
    by (cases "how = 0"; cases "how = 1"; cases "how = 2") (simp_all add: finish set_mask_ok)
  moreover have "fst (sys_sigprocmask p how None os) = p" "fst (sys_sigprocmask p how (Some (Some e, w)) os) = p" for e w
    by (simp_all add: sys_sigprocmask_def finish)
  ultimately show ?thesis using assms by (metis not_None_eq surj_pair)
qed

lemma signal_ok: "sig_ok p \<Longrightarrow> sig_ok (fst (sys_signal p n h))"
  by (simp add: sys_signal_def put_action_ok split: option.split)

lemma sigaction_ok: "sig_ok p \<Longrightarrow> sig_ok (fst (sys_sigaction p n a oa))"
  by (simp add: sys_sigaction_def put_action_ok new_action_lets_through split: option.split prod.split)

lemma call_handler_ok:
  assumes "sig_ok p"
  shows "sig_ok (call_handler p n)"
proof (cases "aget (sigaction p) (n - 1)")
  case (Some sa)
  with assms have "lets_through (sa_mask sa)" by (auto simp: sig_ok_def actions_ok_def aget_Some_iff)
  with assms Some show ?thesis by (auto simp: call_handler_def sig_ok_def SIG_DFL_def intro!: actions_ok_update)
qed (use assms in \<open>simp add: call_handler_def\<close>)

lemma sig_do_ok: "sig_ok p \<Longrightarrow> sig_ok (sig_do p c)"
  by (cases c)
    (simp_all add: sigprocmask_ok signal_ok sigaction_ok call_handler_ok sys_ssetmask_def set_mask_ok
      sig_ok_def [of "fst (send_sig _ _ _ _)"] sig_ok_def [of p] send_sig_fields)

lemma sig_run_ok: "sig_ok p \<Longrightarrow> sig_ok (sig_run p cs)"
  by (induction cs arbitrary: p) (simp_all add: sig_do_ok)

text \<open>
  C5: SIGKILL gets through. Whatever masks and actions a process has set, whatever signals it got and
  whatever handlers it runs, a SIGKILL from a sender with permission succeeds, starts the process if it
  was stopped, is pending and not blocked, and has exiting as its only effect unless the process is init.
\<close>

theorem sigkill_gets_through:
  assumes "sig_ok p" "priv \<or> euid cur = euid (sig_run p cs) \<or> uid cur = uid (sig_run p cs) \<or> is_suser cur"
  shows "\<exists>q. send_sig cur SIGKILL (sig_run p cs) priv = (q, None) \<and> signal_pending (task.truncate q)
    \<and> bit (signal q) 8 \<and> \<not> bit (blocked q) 8 \<and> state q \<noteq> TASK_STOPPED
    \<and> signal_deed q (sigaction q ! 8) SIGKILL = (if pid q = 1 then Skip else Exit)"
proof -
  define r where "r = sig_run p cs"
  define q where "q = fst (send_sig cur SIGKILL r priv)"
  have ok: "sig_ok r" using sig_run_ok [OF assms(1)] by (simp add: r_def)
  then have act: "aget (sigaction r) (SIGKILL - 1) = Some (sigaction r ! 8)" "sa_handler (sigaction r ! 8) = SIG_DFL"
    by (simp_all add: sig_ok_def actions_ok_def aget_def SIGKILL_def)
  have send: "send_sig cur SIGKILL r priv = (generate SIGKILL (send_cont SIGKILL r), None)"
    using assms(2) by (auto simp: send_sig_def send_stop_def r_def SIGKILL_def SIGCONT_def SIGSTOP_def u32_def)
  have q: "q = (send_cont SIGKILL r)\<lparr>signal := signal (send_cont SIGKILL r) OR sig_S SIGKILL\<rparr>"
    using act send by (simp add: q_def generate_def send_cont_def SIG_DFL_def SIG_IGN_def SIGKILL_def
        SIGCONT_def SIGCHLD_def SIGWINCH_def)
  have sig: "bit (signal q) 8" by (simp add: q bit_simps bit_sig_S SIGKILL_def)
  moreover have blk: "\<not> bit (blocked q) 8" using ok by (simp add: q send_cont_def sig_ok_def lets_through_def)
  ultimately have "bit (signal q AND NOT (blocked q)) 8" by (simp add: bit_simps)
  then have "signal_pending (task.truncate q)" by (auto simp: signal_pending_def task.truncate_def)
  moreover have "state q \<noteq> TASK_STOPPED" by (simp add: q send_cont_def SIGKILL_def TASK_STOPPED_def TASK_RUNNING_def)
  moreover have "signal_deed q (sigaction q ! 8) SIGKILL = (if pid q = 1 then Skip else Exit)"
    using act by (simp add: q send_cont_def signal_deed_def SIG_DFL_def SIG_IGN_def SIGKILL_def SIGCONT_def SIGCHLD_def
        SIGWINCH_def SIGSTOP_def SIGTSTP_def SIGTTIN_def SIGTTOU_def SIGQUIT_def SIGILL_def SIGTRAP_def SIGIOT_def SIGFPE_def SIGSEGV_def)
  ultimately show ?thesis using sig blk send unfolding r_def [symmetric] q_def by simp
qed

definition a_stopped_process :: sigtask where
  "a_stopped_process = \<lparr>pid = 50, euid = 1, egid = 1, groups = replicate 32 NOGROUP, signal = 0, blocked = 0,
     uid = 1, suid = 1, gid = 1, sgid = 1, pgrp = 50, session = 50, leader = 0, did_exec = False, tty = 0,
     priority = 15, p_pptr = 1, p_opptr = 1, state = TASK_STOPPED, traced = False, exit_code = 0,
     sigaction = replicate 32 \<lparr>sa_handler = SIG_DFL, sa_mask = 0, sa_flags = 0, sa_restorer = 0\<rparr>\<rparr>"

theorem sigkill_gets_through_witness:
  "\<exists>q. send_sig a_stopped_process SIGKILL (sig_run a_stopped_process [Ssetmask (-1), Signal SIGKILL SIG_IGN]) True = (q, None)
     \<and> bit (signal q) 8 \<and> \<not> bit (blocked q) 8 \<and> state q \<noteq> TASK_STOPPED"
proof -
  have "sig_ok a_stopped_process"
    by (simp add: sig_ok_def actions_ok_def a_stopped_process_def)
  from sigkill_gets_through [OF this, of True a_stopped_process "[Ssetmask (-1), Signal SIGKILL SIG_IGN]"]
  show ?thesis by blast
qed

end
