(* ===== verification/Sched.thy ===== *)
theory Sched
  imports Signals
begin

text \<open>
  kernel/sched.c: the scheduler, waking up, the accounting of the timer interrupt, the load average and
  \<open>sys_nice\<close>, and the interval timers of kernel/itimer.c that the scheduler and the interrupt run down.

  A process is the record \<open>rtask\<close> of the fields this code uses. The scheduler works on the table of
  processes and the ring that starts after the first task; the value \<open>None\<close> for the task it chooses is
  that first task, which runs when no other can. Switching to the chosen task is left out.
\<close>

section \<open>Processes as the scheduler sees them\<close>

record rtask =
  r_state :: int
  counter :: int
  r_priority :: int
  r_signal :: "32 word"
  r_blocked :: "32 word"
  timeout :: int
  it_real_value :: int
  it_real_incr :: int
  r_traced :: bool
  alarm_handler :: int

definition TASK_INTERRUPTIBLE :: int where "TASK_INTERRUPTIBLE = 1"
definition TASK_UNINTERRUPTIBLE :: int where "TASK_UNINTERRUPTIBLE = 2"
definition TASK_SWAPPING :: int where "TASK_SWAPPING = 5"
definition SIGALRM :: int where "SIGALRM = 14"

text \<open>\<open>send_sig (SIGALRM, p, 1)\<close>: the sender is privileged, so only \<open>generate\<close> decides.\<close>

definition send_alarm :: "rtask \<Rightarrow> rtask" where
  "send_alarm p =
     (if r_traced p then p\<lparr>r_signal := r_signal p OR sig_S SIGALRM\<rparr>
      else if alarm_handler p = SIG_IGN then p
      else p\<lparr>r_signal := r_signal p OR sig_S SIGALRM\<rparr>)"

section \<open>Interval timers in real time\<close>

text \<open>The loop that adds the interval until the timer is past the ticks that have gone by.\<close>

partial_function (option) reload_loop :: "int \<Rightarrow> int \<Rightarrow> int \<Rightarrow> int option" where
  "reload_loop v incr ticks =
     (let v = u32 (v + incr) in if v \<le> ticks then reload_loop v incr ticks else Some v)"

text \<open>The timer of one task: the task and \<open>itimer_next\<close>.\<close>

definition run_itimer :: "int \<Rightarrow> rtask \<Rightarrow> int \<Rightarrow> (rtask \<times> int) option" where
  "run_itimer ticks p nxt =
     (if ticks \<noteq> 0 \<and> it_real_value p \<noteq> 0
      then if it_real_value p \<le> ticks
           then (let p = send_alarm p in
                 if it_real_incr p = 0 then Some (p\<lparr>it_real_value := 0\<rparr>, nxt)
                 else (case reload_loop (it_real_value p) (it_real_incr p) ticks of
                         None \<Rightarrow> None
                       | Some v \<Rightarrow> Some (p\<lparr>it_real_value := v - ticks\<rparr>, if v - ticks < nxt then v - ticks else nxt)))
           else (let v = it_real_value p - ticks in Some (p\<lparr>it_real_value := v\<rparr>, if v < nxt then v else nxt))
      else Some (p, nxt))"

text \<open>A sleeper with a signal to take, or whose timeout has passed, runs again.\<close>

definition wake_sleeper :: "int \<Rightarrow> rtask \<Rightarrow> rtask" where
  "wake_sleeper jiffies p =
     (if r_state p \<noteq> TASK_INTERRUPTIBLE then p
      else if r_signal p AND NOT (r_blocked p) \<noteq> 0 then p\<lparr>r_state := TASK_RUNNING\<rparr>
      else if timeout p \<noteq> 0 \<and> timeout p \<le> jiffies then p\<lparr>timeout := 0, r_state := TASK_RUNNING\<rparr>
      else p)"

section \<open>The scheduler\<close>

record sched =
  rtab :: "rtask option list"
  rring :: "nat list"
  itimer_ticks :: int
  itimer_next :: int
  need_resched :: bool
  jiffies :: int

definition rtask_at :: "rtask option list \<Rightarrow> nat \<Rightarrow> rtask option" where
  "rtask_at tab i = (if i < length tab then tab ! i else None)"

text \<open>The first pass; \<open>None\<close> also for a ring that leaves the table.\<close>

fun check_alarms :: "int \<Rightarrow> int \<Rightarrow> nat list \<Rightarrow> rtask option list \<Rightarrow> int \<Rightarrow> (rtask option list \<times> int) option" where
  "check_alarms ticks j [] tab nxt = Some (tab, nxt)"
| "check_alarms ticks j (i # is) tab nxt =
     (case rtask_at tab i of
        None \<Rightarrow> None
      | Some p \<Rightarrow>
          (case run_itimer ticks p nxt of
             None \<Rightarrow> None
           | Some (p, nxt) \<Rightarrow> check_alarms ticks j is (tab[i := Some (wake_sleeper j p)]) nxt))"

text \<open>The search for the runnable task with the highest counter.\<close>

fun pick :: "nat list \<Rightarrow> rtask option list \<Rightarrow> int \<Rightarrow> nat option \<Rightarrow> int \<times> nat option" where
  "pick [] tab c next = (c, next)"
| "pick (i # is) tab c next =
     (case rtask_at tab i of
        None \<Rightarrow> pick is tab c next
      | Some p \<Rightarrow>
          if r_state p = TASK_RUNNING \<and> counter p > c then pick is tab (counter p) (Some i) else pick is tab c next)"

definition new_counter :: "rtask \<Rightarrow> int" where
  "new_counter p = s32 (counter p div 2 + r_priority p)"

fun recharge :: "nat list \<Rightarrow> rtask option list \<Rightarrow> rtask option list" where
  "recharge [] tab = tab"
| "recharge (i # is) tab =
     (case rtask_at tab i of
        None \<Rightarrow> recharge is tab
      | Some p \<Rightarrow> recharge is (tab[i := Some (p\<lparr>counter := new_counter p\<rparr>)]))"

definition schedule :: "sched \<Rightarrow> (sched \<times> nat option) option" where
  "schedule s =
     (case check_alarms (itimer_ticks s) (jiffies s) (rring s) (rtab s) 4294967295 of
        None \<Rightarrow> None
      | Some (tab, nxt) \<Rightarrow>
          (case pick (rring s) tab (-1) None of
             (c, next) \<Rightarrow>
               Some (s\<lparr>rtab := (if c = 0 then recharge (rring s) tab else tab), itimer_ticks := 0, itimer_next := nxt,
                       need_resched := False\<rparr>, next)))"

section \<open>Waking up\<close>

text \<open>
  The queue is the list of the tasks that wait in it, in its order; the counter of the current task
  decides whether to reschedule.
\<close>

fun wake_up_loop :: "(int \<Rightarrow> bool) \<Rightarrow> int \<Rightarrow> nat list \<Rightarrow> rtask option list \<Rightarrow> bool \<Rightarrow> rtask option list \<times> bool" where
  "wake_up_loop wakes c [] tab resched = (tab, resched)"
| "wake_up_loop wakes c (i # q) tab resched =
     (case rtask_at tab i of
        None \<Rightarrow> wake_up_loop wakes c q tab resched
      | Some p \<Rightarrow>
          if wakes (r_state p)
          then wake_up_loop wakes c q (tab[i := Some (p\<lparr>r_state := TASK_RUNNING\<rparr>)]) (if counter p > c then True else resched)
          else wake_up_loop wakes c q tab resched)"

definition sched_wake_up :: "int \<Rightarrow> nat list \<Rightarrow> sched \<Rightarrow> sched" where
  "sched_wake_up c q s =
     (case wake_up_loop (\<lambda>st. st = TASK_UNINTERRUPTIBLE \<or> st = TASK_INTERRUPTIBLE) c q (rtab s) (need_resched s) of
        (tab, r) \<Rightarrow> s\<lparr>rtab := tab, need_resched := r\<rparr>)"

definition sched_wake_up_interruptible :: "int \<Rightarrow> nat list \<Rightarrow> sched \<Rightarrow> sched" where
  "sched_wake_up_interruptible c q s =
     (case wake_up_loop (\<lambda>st. st = TASK_INTERRUPTIBLE) c q (rtab s) (need_resched s) of
        (tab, r) \<Rightarrow> s\<lparr>rtab := tab, need_resched := r\<rparr>)"

section \<open>The timer interrupt: accounting\<close>

record tick_task =
  t_utime :: int
  t_stime :: int
  t_counter :: int
  t_priority :: int
  it_virt_value :: int
  it_virt_incr :: int
  it_prof_value :: int
  it_prof_incr :: int

record kstat =
  cpu_user :: int
  cpu_nice :: int
  cpu_system :: int

datatype tick_sig = Vtalrm | Prof

text \<open>
  One tick of the current task, in user mode or not, which may be the first task. The value also has the
  signals sent and whether to reschedule.
\<close>

definition tick_mode :: "bool \<Rightarrow> bool \<Rightarrow> tick_task \<Rightarrow> kstat \<Rightarrow> tick_task \<times> kstat \<times> tick_sig list" where
  "tick_mode user idle t k =
     (if user
      then (let t = t\<lparr>t_utime := s32 (t_utime t + 1)\<rparr>;
                k = (if idle then k else if t_priority t < 15 then k\<lparr>cpu_nice := u32 (cpu_nice k + 1)\<rparr>
                     else k\<lparr>cpu_user := u32 (cpu_user k + 1)\<rparr>)
            in if it_virt_value t \<noteq> 0
               then if it_virt_value t - 1 = 0 then (t\<lparr>it_virt_value := it_virt_incr t\<rparr>, k, [Vtalrm])
                    else (t\<lparr>it_virt_value := it_virt_value t - 1\<rparr>, k, [])
               else (t, k, []))
      else (t\<lparr>t_stime := s32 (t_stime t + 1)\<rparr>, if idle then k else k\<lparr>cpu_system := u32 (cpu_system k + 1)\<rparr>, []))"

definition tick_counter :: "bool \<Rightarrow> tick_task \<Rightarrow> tick_task \<times> bool" where
  "tick_counter idle t =
     (if idle then (t\<lparr>t_counter := 0\<rparr>, True)
      else if s32 (t_counter t - 1) \<le> 0 then (t\<lparr>t_counter := 0\<rparr>, True)
      else (t\<lparr>t_counter := s32 (t_counter t - 1)\<rparr>, False))"

definition tick_prof :: "tick_task \<Rightarrow> tick_task \<times> tick_sig list" where
  "tick_prof t =
     (if it_prof_value t \<noteq> 0
      then if it_prof_value t - 1 = 0 then (t\<lparr>it_prof_value := it_prof_incr t\<rparr>, [Prof])
           else (t\<lparr>it_prof_value := it_prof_value t - 1\<rparr>, [])
      else (t, []))"

definition tick_account :: "bool \<Rightarrow> bool \<Rightarrow> tick_task \<Rightarrow> kstat \<Rightarrow> tick_task \<times> kstat \<times> tick_sig list \<times> bool" where
  "tick_account user idle t k =
     (case tick_mode user idle t k of
        (t, k, s1) \<Rightarrow>
          (case tick_counter idle t of
             (t, r) \<Rightarrow> (case tick_prof t of (t, s2) \<Rightarrow> (t, k, s1 @ s2, r))))"

text \<open>The ticks since the last run of the scheduler, and whether a real timer is due.\<close>

definition tick_itimer :: "sched \<Rightarrow> sched" where
  "tick_itimer s =
     (let n = u32 (itimer_ticks s + 1)
      in s\<lparr>itimer_ticks := n, need_resched := (if n > itimer_next s then True else need_resched s)\<rparr>)"

section \<open>Load average and priority\<close>

fun count_active :: "nat \<Rightarrow> rtask option list \<Rightarrow> int \<Rightarrow> int" where
  "count_active 0 tab nr = nr"
| "count_active (Suc i) tab nr =
     count_active i tab
       (case rtask_at tab (Suc i) of
          None \<Rightarrow> nr
        | Some p \<Rightarrow> if r_state p \<in> {TASK_RUNNING, TASK_UNINTERRUPTIBLE, TASK_SWAPPING} then u32 (nr + 2048) else nr)"

definition count_active_tasks :: "rtask option list \<Rightarrow> int" where
  "count_active_tasks tab = count_active (NR_TASKS - 1) tab 0"

definition CALC_LOAD :: "int \<Rightarrow> int \<Rightarrow> int \<Rightarrow> int" where
  "CALC_LOAD l e n = u32 (u32 (l * e) + u32 (n * (2048 - e))) div 2048"

text \<open>The three averages and the count until the next calculation.\<close>

definition calc_load :: "int \<Rightarrow> int \<times> int \<times> int \<Rightarrow> rtask option list \<Rightarrow> int \<times> int \<times> int \<times> int" where
  "calc_load count avenrun tab =
     (case avenrun of
        (a1, a5, a15) \<Rightarrow>
          if count > 0 then (count - 1, a1, a5, a15)
          else (let n = count_active_tasks tab
                in (5 * HZ, CALC_LOAD a1 1884 n, CALC_LOAD a5 2014 n, CALC_LOAD a15 2037 n)))"

definition sys_nice :: "ptask \<Rightarrow> int \<Rightarrow> ptask \<times> res" where
  "sys_nice cur increment =
     (if increment < 0 \<and> \<not> is_suser cur then (cur, Err EPERM)
      else (let newprio = s32 (priority cur - increment);
                newprio = (if newprio < 1 then 1 else newprio);
                newprio = (if newprio > 35 then 35 else newprio)
            in (cur\<lparr>priority := newprio\<rparr>, Ret 0)))"

definition sys_getpid :: "ptask \<Rightarrow> res" where "sys_getpid cur = Ret (pid cur)"
definition sys_getuid :: "ids_task \<Rightarrow> res" where "sys_getuid cur = Ret (uid cur)"
definition sys_geteuid :: "ids_task \<Rightarrow> res" where "sys_geteuid cur = Ret (euid cur)"
definition sys_getgid :: "ids_task \<Rightarrow> res" where "sys_getgid cur = Ret (gid cur)"
definition sys_getegid :: "ids_task \<Rightarrow> res" where "sys_getegid cur = Ret (egid cur)"

definition sys_getppid :: "procs \<Rightarrow> res" where
  "sys_getppid s =
     (case proc_at s (me s) of
        None \<Rightarrow> Fault
      | Some cur \<Rightarrow> (case proc_at s (p_opptr cur) of None \<Rightarrow> Fault | Some p \<Rightarrow> Ret (pid p)))"

section \<open>Setting interval timers\<close>

record itimerval =
  it_interval :: timeval
  it_value :: timeval

record itimers =
  real_value :: int
  real_incr :: int
  virt_value :: int
  virt_incr :: int
  prof_value :: int
  prof_incr :: int

definition tvtojiffies :: "timeval \<Rightarrow> int" where
  "tvtojiffies v = u32 (u32 (tv_sec v) * HZ + u32 (tv_usec v + (1000000 div HZ - 1)) div (1000000 div HZ))"

definition jiffiestotv :: "int \<Rightarrow> timeval" where
  "jiffiestotv j = \<lparr>tv_sec = j div HZ, tv_usec = (j mod HZ) * (1000000 div HZ)\<rparr>"

definition getitimer :: "itimers \<Rightarrow> int \<Rightarrow> itimerval option" where
  "getitimer t which =
     (let answer = (\<lambda>v i. Some \<lparr>it_interval = jiffiestotv i, it_value = jiffiestotv v\<rparr>)
      in if which = 0 then answer (real_value t) (real_incr t)
         else if which = 1 then answer (virt_value t) (virt_incr t)
         else if which = 2 then answer (prof_value t) (prof_incr t)
         else None)"

text \<open>\<open>value\<close> is NULL, or comes with the answer of \<open>verify_area\<close>; the value is what user memory gets.\<close>

definition sys_getitimer :: "itimers \<Rightarrow> int \<Rightarrow> errno option option \<Rightarrow> itimerval option \<times> res" where
  "sys_getitimer t which value =
     (case value of
        None \<Rightarrow> (None, Err EFAULT)
      | Some verify \<Rightarrow>
          (case getitimer t which of
             None \<Rightarrow> (None, Err EINVAL)
           | Some v \<Rightarrow> (case verify of Some e \<Rightarrow> (None, Err e) | None \<Rightarrow> (Some v, Ret 0))))"

text \<open>\<open>_setitimer\<close>: the timers of the task, \<open>itimer_next\<close>, the old value if asked for, and the result.\<close>

definition setitimer :: "itimers \<Rightarrow> int \<Rightarrow> int \<Rightarrow> int \<Rightarrow> itimerval \<Rightarrow> bool \<Rightarrow> itimers \<times> int \<times> itimerval option \<times> errno option" where
  "setitimer t ticks nxt which v old =
     (let i = tvtojiffies (it_interval v); j = tvtojiffies (it_value v);
          ov = (if old then getitimer t which else None)
      in if old \<and> ov = None then (t, nxt, None, Some EINVAL)
         else if which = 0
         then (let j' = (if j \<noteq> 0 then u32 (j + (1 + ticks)) else j)
               in (t\<lparr>real_value := j', real_incr := i\<rparr>, if j \<noteq> 0 \<and> j' < nxt then j' else nxt, ov, None))
         else if which = 1
         then (t\<lparr>virt_value := (if j \<noteq> 0 then u32 (j + 1) else j), virt_incr := i\<rparr>, nxt, ov, None)
         else if which = 2
         then (t\<lparr>prof_value := (if j \<noteq> 0 then u32 (j + 1) else j), prof_incr := i\<rparr>, nxt, ov, None)
         else (t, nxt, ov, Some EINVAL))"

text \<open>\<open>value\<close> and \<open>ovalue\<close> may be NULL; \<open>ovalue\<close> comes with the answer of \<open>verify_area\<close>.\<close>

definition sys_setitimer ::
    "itimers \<Rightarrow> int \<Rightarrow> int \<Rightarrow> int \<Rightarrow> itimerval option \<Rightarrow> errno option option \<Rightarrow> itimers \<times> int \<times> itimerval option \<times> res" where
  "sys_setitimer t ticks nxt which value ovalue =
     (let zero = \<lparr>tv_sec = 0, tv_usec = 0\<rparr>;
          v = (case value of None \<Rightarrow> \<lparr>it_interval = zero, it_value = zero\<rparr> | Some v \<Rightarrow> v)
      in case setitimer t ticks nxt which v (ovalue \<noteq> None) of
           (t, nxt, ov, Some e) \<Rightarrow> (t, nxt, None, Err e)
         | (t, nxt, ov, None) \<Rightarrow>
             (case ovalue of
                None \<Rightarrow> (t, nxt, None, Ret 0)
              | Some (Some e) \<Rightarrow> (t, nxt, None, Err e)
              | Some None \<Rightarrow> (t, nxt, ov, Ret 0)))"

definition sys_alarm :: "itimers \<Rightarrow> int \<Rightarrow> int \<Rightarrow> int \<Rightarrow> itimers \<times> int \<times> res" where
  "sys_alarm t ticks nxt seconds =
     (case setitimer t ticks nxt 0 \<lparr>it_interval = \<lparr>tv_sec = 0, tv_usec = 0\<rparr>, it_value = \<lparr>tv_sec = seconds, tv_usec = 0\<rparr>\<rparr> True of
        (t, nxt, Some old, e) \<Rightarrow> (t, nxt, Ret (tv_sec (it_value old) + tv_usec (it_value old) div 1000000))
      | (t, nxt, None, e) \<Rightarrow> (t, nxt, Fault))"

end
