(* ===== verification/Sched_Props.thy ===== *)
theory Sched_Props
  imports Sched
begin

text \<open>
  The scheduler: it always returns, chooses a runnable process with the highest counter, gives every
  process new time when the runnable ones have used theirs up, and keeps the counters between 0 and twice
  the priority.
\<close>

section \<open>Interval timers\<close>

lemma reload_loop_returns:
  assumes "0 < incr" "0 \<le> v" "v \<le> ticks" "ticks + incr < 4294967296"
  shows "\<exists>r. reload_loop v incr ticks = Some r \<and> ticks < r \<and> r \<le> ticks + incr \<and> r mod incr = v mod incr"
  using assms(2,3)
proof (induction "nat (ticks - v)" arbitrary: v rule: less_induct)
  case less
  have u: "u32 (v + incr) = v + incr" using less.prems assms by (intro u32_id) linarith+
  show ?case
  proof (cases "v + incr \<le> ticks")
    case True
    with less.hyps [of "v + incr"] less.prems assms(1) obtain r where
      "reload_loop (v + incr) incr ticks = Some r" "ticks < r" "r \<le> ticks + incr" "r mod incr = (v + incr) mod incr"
      by auto
    with True u show ?thesis by (subst reload_loop.simps) (simp add: Let_def)
  next
    case False
    with u less.prems show ?thesis by (subst reload_loop.simps) (simp add: Let_def)
  qed
qed

text \<open>What the passes over the processes leave as it is.\<close>

definition same_share :: "rtask \<Rightarrow> rtask \<Rightarrow> bool" where
  "same_share p q \<longleftrightarrow> counter q = counter p \<and> r_priority q = r_priority p \<and> it_real_incr q = it_real_incr p"

definition timer_fine :: "int \<Rightarrow> rtask \<Rightarrow> bool" where
  "timer_fine ticks p \<longleftrightarrow> 0 \<le> ticks \<and> 0 \<le> it_real_value p \<and> 0 \<le> it_real_incr p \<and> ticks + it_real_incr p < 4294967296"

lemma send_alarm_fields:
  "same_share p (send_alarm p)" "it_real_value (send_alarm p) = it_real_value p" "it_real_incr (send_alarm p) = it_real_incr p"
  by (simp_all add: send_alarm_def same_share_def)

lemma run_itimer_returns:
  assumes "timer_fine ticks p"
  shows "\<exists>q n. run_itimer ticks p nxt = Some (q, n) \<and> same_share p q \<and> 0 \<le> it_real_value q"
proof (cases "ticks \<noteq> 0 \<and> it_real_value p \<noteq> 0 \<and> it_real_value p \<le> ticks \<and> it_real_incr p \<noteq> 0")
  case True
  with assms obtain r where "reload_loop (it_real_value p) (it_real_incr p) ticks = Some r" "ticks < r"
    using reload_loop_returns [of "it_real_incr p" "it_real_value p" ticks] by (auto simp: timer_fine_def)
  with True send_alarm_fields [of p] show ?thesis by (simp add: run_itimer_def Let_def same_share_def)
next
  case False
  with assms send_alarm_fields [of p] show ?thesis
    by (auto simp: run_itimer_def Let_def same_share_def timer_fine_def)
qed

lemma wake_sleeper_fields: "same_share p (wake_sleeper j p)" "it_real_value (wake_sleeper j p) = it_real_value p"
  by (simp_all add: wake_sleeper_def same_share_def)

section \<open>The passes of the scheduler\<close>

lemma rtask_at_update: "rtask_at (tab[i := x]) j = (if i = j \<and> i < length tab then x else rtask_at tab j)"
  by (simp add: rtask_at_def)

lemma rtask_at_length: "rtask_at tab i = Some p \<Longrightarrow> i < length tab"
  by (simp add: rtask_at_def split: if_splits)

lemma check_alarms_returns:
  "distinct is \<Longrightarrow> \<forall>i \<in> set is. \<exists>p. rtask_at tab i = Some p \<and> timer_fine ticks p \<Longrightarrow>
   \<exists>tab' n. check_alarms ticks j is tab nxt = Some (tab', n)
     \<and> (\<forall>i. i \<notin> set is \<longrightarrow> rtask_at tab' i = rtask_at tab i)
     \<and> (\<forall>i \<in> set is. \<exists>p q. rtask_at tab i = Some p \<and> rtask_at tab' i = Some q \<and> same_share p q \<and> 0 \<le> it_real_value q)"
proof (induction "is" arbitrary: tab nxt)
  case (Cons i "is")
  obtain p where p: "rtask_at tab i = Some p" "timer_fine ticks p" using Cons.prems(2) by auto
  obtain q n where q: "run_itimer ticks p nxt = Some (q, n)" "same_share p q" "0 \<le> it_real_value q"
    using run_itimer_returns [OF p(2)] by blast
  let ?tab = "tab[i := Some (wake_sleeper j q)]"
  have at: "rtask_at ?tab k = (if k = i then Some (wake_sleeper j q) else rtask_at tab k)" for k
    using rtask_at_length [OF p(1)] by (auto simp: rtask_at_update)
  have prem: "\<forall>k \<in> set is. \<exists>p. rtask_at ?tab k = Some p \<and> timer_fine ticks p"
    unfolding at using Cons.prems by auto
  obtain tab' n' where r: "check_alarms ticks j is ?tab n = Some (tab', n')"
    "\<forall>k. k \<notin> set is \<longrightarrow> rtask_at tab' k = rtask_at ?tab k"
    "\<forall>k \<in> set is. \<exists>p q. rtask_at ?tab k = Some p \<and> rtask_at tab' k = Some q \<and> same_share p q \<and> 0 \<le> it_real_value q"
    using Cons.IH [OF _ prem, where nxt = n] Cons.prems(1) by auto
  have "same_share p (wake_sleeper j q)" "0 \<le> it_real_value (wake_sleeper j q)"
    using q(2,3) wake_sleeper_fields [where p = q and j = j] by (simp_all add: same_share_def)
  moreover have "check_alarms ticks j (i # is) tab nxt = Some (tab', n')" using p(1) q(1) r(1) by simp
  moreover have "\<exists>p q. rtask_at tab k = Some p \<and> rtask_at tab' k = Some q \<and> same_share p q \<and> 0 \<le> it_real_value q"
    if k: "k \<in> set is" for k
  proof -
    have "rtask_at ?tab k = rtask_at tab k" using k Cons.prems(1) at by auto
    with bspec [OF r(3) k] show ?thesis by simp
  qed
  moreover have "rtask_at tab' i = Some (wake_sleeper j q)" "\<forall>k. k \<notin> set (i # is) \<longrightarrow> rtask_at tab' k = rtask_at tab k"
    using r(2) Cons.prems(1) at by auto
  ultimately show ?case using p(1) by (intro exI [of _ tab'] exI [of _ n'] conjI) simp_all
qed simp

lemma pick_best:
  "pick is tab c nx = (c', nx') \<Longrightarrow>
   c \<le> c' \<and> (\<forall>j \<in> set is. \<forall>p. rtask_at tab j = Some p \<longrightarrow> r_state p = TASK_RUNNING \<longrightarrow> counter p \<le> c')
   \<and> (c' = c \<and> nx' = nx \<or> c < c' \<and> (\<exists>i \<in> set is. \<exists>p. nx' = Some i \<and> rtask_at tab i = Some p \<and> r_state p = TASK_RUNNING \<and> counter p = c'))"
proof (induction "is" arbitrary: c nx)
  case (Cons i "is")
  show ?case
  proof (cases "\<exists>p. rtask_at tab i = Some p \<and> r_state p = TASK_RUNNING \<and> counter p > c")
    case True
    then obtain p where p: "rtask_at tab i = Some p" "r_state p = TASK_RUNNING" "counter p > c" by blast
    with Cons.prems have "pick is tab (counter p) (Some i) = (c', nx')" by simp
    from Cons.IH [OF this] p show ?thesis by auto
  next
    case False
    with Cons.prems have "pick is tab c nx = (c', nx')" by (auto split: option.splits if_splits)
    from Cons.IH [OF this] False show ?thesis by fastforce
  qed
qed simp

lemma recharge_at:
  "distinct is \<Longrightarrow>
   rtask_at (recharge is tab) k
   = (if k \<in> set is then map_option (\<lambda>p. p\<lparr>counter := new_counter p\<rparr>) (rtask_at tab k) else rtask_at tab k)"
proof (induction "is" arbitrary: tab)
  case (Cons i "is")
  show ?case
  proof (cases "rtask_at tab i")
    case (Some p)
    with Cons show ?thesis using rtask_at_length [OF Some] by (auto simp: rtask_at_update)
  qed (use Cons in auto)
qed simp

section \<open>The invariant and the choice\<close>

definition share_ok :: "rtask \<Rightarrow> bool" where
  "share_ok p \<longleftrightarrow> 1 \<le> r_priority p \<and> r_priority p \<le> 1000000 \<and> 0 \<le> counter p \<and> counter p \<le> 2 * r_priority p"

definition sched_ok :: "sched \<Rightarrow> bool" where
  "sched_ok s \<longleftrightarrow> distinct (rring s)
     \<and> (\<forall>i \<in> set (rring s). \<exists>p. rtask_at (rtab s) i = Some p \<and> share_ok p \<and> timer_fine (itimer_ticks s) p)"

text \<open>The process with an index, for indices of the ring.\<close>

definition proc :: "sched \<Rightarrow> nat \<Rightarrow> rtask" where "proc s i = the (rtask_at (rtab s) i)"

lemma new_counter_ok:
  assumes "share_ok p"
  shows "new_counter p = counter p div 2 + r_priority p" "0 < new_counter p" "new_counter p \<le> 2 * r_priority p"
proof -
  have b: "0 \<le> counter p div 2" "counter p div 2 \<le> r_priority p" using assms by (auto simp: share_ok_def)
  then show eq: "new_counter p = counter p div 2 + r_priority p"
    using assms unfolding new_counter_def by (intro s32_id) (auto simp: share_ok_def)
  show "0 < new_counter p" "new_counter p \<le> 2 * r_priority p" using b assms by (auto simp: eq share_ok_def)
qed

text \<open>What \<open>schedule\<close> leaves of one process.\<close>

lemma schedule_effect:
  assumes "sched_ok s"
  obtains s' nx c tab where "schedule s = Some (s', nx)" "pick (rring s) tab (-1) None = (c, nx)"
    and "rring s' = rring s" "itimer_ticks s' = 0"
    and "\<forall>j \<in> set (rring s). \<exists>q. rtask_at tab j = Some q \<and> same_share (proc s j) q \<and> 0 \<le> it_real_value q \<and> share_ok q
      \<and> timer_fine (itimer_ticks s) (proc s j)
      \<and> rtask_at (rtab s') j = Some (if c = 0 then q\<lparr>counter := new_counter q\<rparr> else q)"
proof -
  have ring: "distinct (rring s)" using assms by (simp add: sched_ok_def)
  have "\<forall>i \<in> set (rring s). \<exists>p. rtask_at (rtab s) i = Some p \<and> timer_fine (itimer_ticks s) p"
    using assms by (auto simp: sched_ok_def)
  from check_alarms_returns [OF ring this, of "jiffies s" 4294967295] obtain tab n where
    tab: "check_alarms (itimer_ticks s) (jiffies s) (rring s) (rtab s) 4294967295 = Some (tab, n)"
    "\<forall>i \<in> set (rring s). \<exists>p q. rtask_at (rtab s) i = Some p \<and> rtask_at tab i = Some q \<and> same_share p q \<and> 0 \<le> it_real_value q"
    by blast
  obtain c nx where pk: "pick (rring s) tab (-1) None = (c, nx)" by fastforce
  define s' where "s' = s\<lparr>rtab := (if c = 0 then recharge (rring s) tab else tab), itimer_ticks := 0, itimer_next := n,
    need_resched := False\<rparr>"
  have "\<exists>q. rtask_at tab j = Some q \<and> same_share (proc s j) q \<and> 0 \<le> it_real_value q \<and> share_ok q
      \<and> timer_fine (itimer_ticks s) (proc s j)
      \<and> rtask_at (rtab s') j = Some (if c = 0 then q\<lparr>counter := new_counter q\<rparr> else q)" if j: "j \<in> set (rring s)" for j
  proof -
    obtain p q where pq: "rtask_at (rtab s) j = Some p" "rtask_at tab j = Some q" "same_share p q" "0 \<le> it_real_value q"
      using tab(2) j by blast
    have "share_ok p" "timer_fine (itimer_ticks s) p" using assms j pq(1) by (auto simp: sched_ok_def)
    moreover have "proc s j = p" using pq(1) by (simp add: proc_def)
    moreover have "share_ok q" using \<open>share_ok p\<close> pq(3) by (simp add: share_ok_def same_share_def)
    moreover have "rtask_at (rtab s') j = Some (if c = 0 then q\<lparr>counter := new_counter q\<rparr> else q)"
      using pq(2) j recharge_at [OF ring, of tab j] by (simp add: s'_def)
    ultimately show ?thesis using pq by blast
  qed
  then show thesis using that [of s' nx tab c] tab(1) pk by (simp add: schedule_def s'_def)
qed

text \<open>The same in terms of the processes before and after.\<close>

lemma schedule_each:
  assumes "sched_ok s"
  obtains s' nx c tab where "schedule s = Some (s', nx)" "pick (rring s) tab (-1) None = (c, nx)"
    and "rring s' = rring s" "itimer_ticks s' = 0"
    and "\<forall>j \<in> set (rring s). \<exists>q. rtask_at tab j = Some q \<and> 0 \<le> counter q \<and> r_state (proc s' j) = r_state q \<and> counter q = counter (proc s j)
      \<and> counter (proc s' j) = (if c = 0 then counter (proc s j) div 2 + r_priority (proc s j) else counter (proc s j))
      \<and> rtask_at (rtab s') j = Some (proc s' j) \<and> share_ok (proc s' j) \<and> timer_fine 0 (proc s' j)"
proof -
  obtain s' nx c tab where e: "schedule s = Some (s', nx)" "pick (rring s) tab (-1) None = (c, nx)"
    "rring s' = rring s" "itimer_ticks s' = 0"
    "\<forall>j \<in> set (rring s). \<exists>q. rtask_at tab j = Some q \<and> same_share (proc s j) q \<and> 0 \<le> it_real_value q \<and> share_ok q
      \<and> timer_fine (itimer_ticks s) (proc s j)
      \<and> rtask_at (rtab s') j = Some (if c = 0 then q\<lparr>counter := new_counter q\<rparr> else q)"
    by (rule schedule_effect [OF assms])
  have each: "\<exists>q. rtask_at tab j = Some q \<and> 0 \<le> counter q \<and> r_state (proc s' j) = r_state q \<and> counter q = counter (proc s j)
      \<and> counter (proc s' j) = (if c = 0 then counter (proc s j) div 2 + r_priority (proc s j) else counter (proc s j))
      \<and> rtask_at (rtab s') j = Some (proc s' j) \<and> share_ok (proc s' j) \<and> timer_fine 0 (proc s' j)"
    if j: "j \<in> set (rring s)" for j
  proof -
    obtain q where q: "rtask_at tab j = Some q" "same_share (proc s j) q" "0 \<le> it_real_value q" "share_ok q"
      "timer_fine (itimer_ticks s) (proc s j)" "rtask_at (rtab s') j = Some (if c = 0 then q\<lparr>counter := new_counter q\<rparr> else q)"
      using e(5) j by blast
    have p: "proc s' j = (if c = 0 then q\<lparr>counter := new_counter q\<rparr> else q)" using q(6) by (simp add: proc_def)
    have "share_ok (proc s' j)" using q(4) new_counter_ok [OF q(4)] by (simp add: p share_ok_def)
    moreover have "timer_fine 0 (proc s' j)" using q(2,3,5) by (simp add: p timer_fine_def same_share_def)
    moreover have "0 \<le> counter q" using q(4) by (simp add: share_ok_def)
    ultimately show ?thesis using q new_counter_ok(1) [OF q(4)] p by (simp add: same_share_def)
  qed
  with e(1-4) show thesis by (intro that [of s' nx tab c]) blast+
qed

text \<open>
  C7: \<open>schedule\<close> returns, whatever alarms are due. It chooses a runnable process whose counter no other
  runnable process exceeds, or the first task exactly when none is runnable. When the best counter is 0
  every process, runnable or not, gets half its counter and its priority as its new counter, which is
  then positive; otherwise no counter changes. Counters stay between 0 and twice the priority.
\<close>

theorem schedule_picks_a_best_process:
  assumes "sched_ok s"
  shows "\<exists>s' nx. schedule s = Some (s', nx) \<and> sched_ok s'
    \<and> (case nx of
         None \<Rightarrow> \<forall>j \<in> set (rring s). r_state (proc s' j) \<noteq> TASK_RUNNING
       | Some i \<Rightarrow> i \<in> set (rring s) \<and> r_state (proc s' i) = TASK_RUNNING
           \<and> (\<forall>j \<in> set (rring s). r_state (proc s' j) = TASK_RUNNING \<longrightarrow> counter (proc s j) \<le> counter (proc s i)))
    \<and> (\<forall>j \<in> set (rring s). counter (proc s' j)
         = (if nx \<noteq> None \<and> counter (proc s (the nx)) = 0 then counter (proc s j) div 2 + r_priority (proc s j)
            else counter (proc s j)))"
proof -
  obtain s' nx c tab where e: "schedule s = Some (s', nx)" "pick (rring s) tab (-1) None = (c, nx)"
    "rring s' = rring s" "itimer_ticks s' = 0" and all: "\<forall>j \<in> set (rring s). \<exists>q. rtask_at tab j = Some q \<and> 0 \<le> counter q \<and> r_state (proc s' j) = r_state q \<and> counter q = counter (proc s j)
      \<and> counter (proc s' j) = (if c = 0 then counter (proc s j) div 2 + r_priority (proc s j) else counter (proc s j))
      \<and> rtask_at (rtab s') j = Some (proc s' j) \<and> share_ok (proc s' j) \<and> timer_fine 0 (proc s' j)"
    by (rule schedule_each [OF assms])
  note best = pick_best [OF e(2)] and each = bspec [OF all]
  have choice: "(c = 0 \<longleftrightarrow> nx \<noteq> None \<and> counter (proc s (the nx)) = 0) \<and> (case nx of
         None \<Rightarrow> \<forall>j \<in> set (rring s). r_state (proc s' j) \<noteq> TASK_RUNNING
       | Some i \<Rightarrow> i \<in> set (rring s) \<and> r_state (proc s' i) = TASK_RUNNING
           \<and> (\<forall>j \<in> set (rring s). r_state (proc s' j) = TASK_RUNNING \<longrightarrow> counter (proc s j) \<le> counter (proc s i)))"
  proof (cases nx)
    case None
    with best have c: "c = -1" by auto
    have "r_state (proc s' j) \<noteq> TASK_RUNNING" if "j \<in> set (rring s)" for j
      using each [OF that] best that c by force
    with None c show ?thesis by simp
  next
    case (Some i)
    with best obtain p where i: "i \<in> set (rring s)" "rtask_at tab i = Some p" "r_state p = TASK_RUNNING" "counter p = c" by auto
    with each [OF i(1)] have c: "counter (proc s i) = c" "r_state (proc s' i) = TASK_RUNNING" by auto
    have "counter (proc s j) \<le> c" if "j \<in> set (rring s)" "r_state (proc s' j) = TASK_RUNNING" for j
      using each [OF that(1)] best that by force
    with Some i(1) c show ?thesis by simp
  qed
  have "sched_ok s'"
    using assms each e(3,4) by (auto simp: sched_ok_def)
  moreover have "counter (proc s' j) = (if c = 0 then counter (proc s j) div 2 + r_priority (proc s j) else counter (proc s j))"
    if "j \<in> set (rring s)" for j using each [OF that] by blast
  ultimately show ?thesis using e(1) choice by (intro exI [of _ s'] exI [of _ nx] conjI ballI) (simp_all only:)
qed

definition a_task :: "int \<Rightarrow> int \<Rightarrow> rtask" where
  "a_task st c = \<lparr>r_state = st, counter = c, r_priority = 15, r_signal = 0, r_blocked = 0, timeout = 0,
     it_real_value = 3, it_real_incr = 2, r_traced = False, alarm_handler = SIG_DFL\<rparr>"

definition a_schedule :: sched where
  "a_schedule = \<lparr>rtab = [None, Some (a_task TASK_RUNNING 4), Some (a_task TASK_INTERRUPTIBLE 20)], rring = [1, 2],
     itimer_ticks = 6, itimer_next = 3, need_resched = True, jiffies = 100\<rparr>"

theorem schedule_picks_a_best_process_witness:
  "\<exists>s' nx. schedule a_schedule = Some (s', nx) \<and> sched_ok s'"
proof -
  have "sched_ok a_schedule"
    by (simp add: sched_ok_def a_schedule_def a_task_def rtask_at_def share_ok_def timer_fine_def)
  from schedule_picks_a_best_process [OF this] show ?thesis by blast
qed

text \<open>The alarm signal of the scheduler is the one of \<open>send_sig\<close> from a privileged sender.\<close>

lemma send_alarm_is_send_sig:
  assumes "aget (sigaction p) (SIGALRM - 1) = Some sa"
    and "r_signal t = signal p" "r_traced t = traced p" "alarm_handler t = sa_handler sa"
  shows "r_signal (send_alarm t) = signal (fst (send_sig cur SIGALRM p True))"
proof -
  have "send_sig cur SIGALRM p True = (generate SIGALRM p, None)"
    by (simp add: send_sig_def send_cont_def send_stop_def SIGALRM_def SIGKILL_def SIGCONT_def SIGSTOP_def u32_def)
  then show ?thesis using assms
    by (simp add: generate_def send_alarm_def SIGALRM_def SIGCHLD_def SIGCONT_def SIGWINCH_def)
qed

end
