(* ===== verification/Clock.thy ===== *)
theory Clock
  imports Sys
begin

text \<open>
  The time of day: \<open>kernel_mktime\<close> of kernel/mktime.c, the calls of kernel/time.c that read, set and adjust
  the clock, and the part of the timer interrupt of kernel/sched.c that moves it on.

  The kernel's variables are the records \<open>kclock\<close> and \<open>pll\<close>. What the hardware answers is an argument: the
  count of the timer chip and whether its interrupt is pending in \<open>do_gettimeoffset\<close>, and whether the CMOS
  clock could be set in \<open>second_overflow\<close>. Shift counts are taken modulo 32, as the processor takes them.
\<close>

section \<open>Seconds from a date\<close>

record mktime =
  mk_sec :: int
  mk_min :: int
  mk_hour :: int
  mk_day :: int
  mk_mon :: int
  mk_year :: int

definition MINUTE :: int where "MINUTE = 60"
definition HOUR :: int where "HOUR = 60 * MINUTE"
definition DAY :: int where "DAY = 24 * HOUR"
definition YEAR :: int where "YEAR = 365 * DAY"

definition month :: "int list" where
  "month = map (\<lambda>d. DAY * d)
     [0, 31, 31 + 29, 31 + 29 + 31, 31 + 29 + 31 + 30, 31 + 29 + 31 + 30 + 31, 31 + 29 + 31 + 30 + 31 + 30,
      31 + 29 + 31 + 30 + 31 + 30 + 31, 31 + 29 + 31 + 30 + 31 + 30 + 31 + 31,
      31 + 29 + 31 + 30 + 31 + 30 + 31 + 31 + 30, 31 + 29 + 31 + 30 + 31 + 30 + 31 + 31 + 30 + 31,
      31 + 29 + 31 + 30 + 31 + 30 + 31 + 31 + 30 + 31 + 30]"

definition kernel_mktime :: "mktime \<Rightarrow> int option" where
  "kernel_mktime t =
     (let year = s32 (mk_year t - 70);
          res = YEAR * year + DAY * (s32 (year + 1) sdiv 4)
      in case aget month (mk_mon t) of
           None \<Rightarrow> None
         | Some m \<Rightarrow>
             let res = res + m;
                 res = (if mk_mon t > 1 \<and> s32 (year + 2) smod 4 \<noteq> 0 then res - DAY else res)
             in Some (s32 (res + DAY * (mk_day t - 1) + HOUR * mk_hour t + MINUTE * mk_min t + mk_sec t)))"

section \<open>The variables of the clock\<close>

record pll =
  time_status :: int
  time_offset :: int
  time_constant :: int
  time_tolerance :: int
  time_precision :: int
  time_maxerror :: int
  time_esterror :: int
  time_phase :: int
  time_freq :: int
  time_adj :: int
  time_reftime :: int

record kclock =
  xtime :: timeval
  tick :: int
  tickadj :: int
  time_adjust :: int
  time_adjust_step :: int
  minuteswest :: int
  dsttime :: int
  firsttime :: bool
  last_rtc_update :: int
  the_pll :: pll

definition TIME_OK :: int where "TIME_OK = 0"
definition TIME_INS :: int where "TIME_INS = 1"
definition TIME_DEL :: int where "TIME_DEL = 2"
definition TIME_OOP :: int where "TIME_OOP = 3"
definition TIME_BAD :: int where "TIME_BAD = 4"

definition MAXERROR :: int where "MAXERROR = 0x70000000"

definition set_status_bad :: "kclock \<Rightarrow> kclock" where
  "set_status_bad k =
     k\<lparr>the_pll := (the_pll k)\<lparr>time_status := TIME_BAD, time_maxerror := MAXERROR, time_esterror := MAXERROR\<rparr>\<rparr>"

text \<open>Arithmetic shifts of 32-bit values.\<close>

definition shr :: "int \<Rightarrow> int \<Rightarrow> int" where "shr x n = x div 2 ^ nat (n mod 32)"
definition shl :: "int \<Rightarrow> int \<Rightarrow> int" where "shl x n = s32 (x * 2 ^ nat (n mod 32))"

section \<open>Reading and setting the time\<close>

text \<open>A pointer argument is NULL or comes with the answer of \<open>verify_area\<close>.\<close>

definition sys_time :: "kclock \<Rightarrow> errno option option \<Rightarrow> int option \<times> res" where
  "sys_time k tloc =
     (let i = tv_sec (xtime k)
      in case tloc of
           None \<Rightarrow> (None, Ret i)
         | Some (Some e) \<Rightarrow> (None, Err e)
         | Some None \<Rightarrow> (Some i, Ret i))"

definition sys_stime :: "ids_task \<Rightarrow> kclock \<Rightarrow> int \<Rightarrow> kclock \<times> res" where
  "sys_stime cur k t =
     (if \<not> is_suser cur then (k, Err EPERM)
      else (set_status_bad (k\<lparr>xtime := \<lparr>tv_sec = s32 t, tv_usec = 0\<rparr>\<rparr>), Ret 0))"

definition LATCH :: int where "LATCH = (1193180 + HZ div 2) div HZ"

definition do_gettimeoffset :: "kclock \<Rightarrow> int \<Rightarrow> bool \<Rightarrow> int" where
  "do_gettimeoffset k count pending =
     (let offset = (if count > LATCH - LATCH div 100 \<and> pending then tick k else 0);
          count = s32 ((LATCH - 1 - count) * tick k);
          count = s32 (count + LATCH div 2) sdiv LATCH
      in u32 (offset + count))"

definition do_gettimeofday :: "kclock \<Rightarrow> int \<Rightarrow> timeval" where
  "do_gettimeofday k offset =
     (let usec = s32 (tv_usec (xtime k) + offset)
      in if usec \<ge> 1000000 then \<lparr>tv_sec = s32 (tv_sec (xtime k) + 1), tv_usec = usec - 1000000\<rparr>
         else \<lparr>tv_sec = tv_sec (xtime k), tv_usec = usec\<rparr>)"

text \<open>The values that user memory gets for the time and the time zone.\<close>

definition sys_gettimeofday :: "kclock \<Rightarrow> int \<Rightarrow> errno option option \<Rightarrow> errno option option \<Rightarrow> timeval option \<times> (int \<times> int) option \<times> res" where
  "sys_gettimeofday k offset tv tz =
     (case tv of
        Some (Some e) \<Rightarrow> (None, None, Err e)
      | _ \<Rightarrow>
          let got = (if tv = None then None else Some (do_gettimeofday k offset))
          in case tz of
               None \<Rightarrow> (got, None, Ret 0)
             | Some (Some e) \<Rightarrow> (got, None, Err e)
             | Some None \<Rightarrow> (got, Some (minuteswest k, dsttime k), Ret 0))"

definition warp_clock :: "kclock \<Rightarrow> kclock" where
  "warp_clock k = k\<lparr>xtime := (xtime k)\<lparr>tv_sec := s32 (tv_sec (xtime k) + minuteswest k * 60)\<rparr>\<rparr>"

definition set_zone :: "kclock \<Rightarrow> int \<times> int \<Rightarrow> bool \<Rightarrow> kclock" where
  "set_zone k z no_tv =
     (let k = k\<lparr>minuteswest := fst z, dsttime := snd z\<rparr>
      in if firsttime k then if no_tv then warp_clock (k\<lparr>firsttime := False\<rparr>) else k\<lparr>firsttime := False\<rparr> else k)"

definition set_xtime :: "kclock \<Rightarrow> int \<Rightarrow> timeval \<Rightarrow> kclock" where
  "set_xtime k offset tv =
     (let usec = s32 (tv_usec tv - offset);
          v = (if usec < 0 then \<lparr>tv_sec = s32 (tv_sec tv - 1), tv_usec = s32 (usec + 1000000)\<rparr>
               else \<lparr>tv_sec = tv_sec tv, tv_usec = usec\<rparr>)
      in set_status_bad (k\<lparr>xtime := v\<rparr>))"

definition sys_settimeofday :: "ids_task \<Rightarrow> kclock \<Rightarrow> int \<Rightarrow> timeval option \<Rightarrow> (int \<times> int) option \<Rightarrow> kclock \<times> res" where
  "sys_settimeofday cur k offset tv tz =
     (if \<not> is_suser cur then (k, Err EPERM)
      else (let k = (case tz of None \<Rightarrow> k | Some z \<Rightarrow> set_zone k z (tv = None));
                k = (case tv of None \<Rightarrow> k | Some v \<Rightarrow> set_xtime k offset v)
            in (k, Ret 0)))"

section \<open>Adjusting the clock\<close>

record timex =
  tx_mode :: int
  tx_offset :: int
  tx_frequency :: int
  tx_maxerror :: int
  tx_esterror :: int
  tx_status :: int
  tx_time_constant :: int
  tx_precision :: int
  tx_tolerance :: int
  tx_time :: timeval
  tx_tick :: int

definition ADJ_OFFSET :: int where "ADJ_OFFSET = 1"
definition ADJ_FREQUENCY :: int where "ADJ_FREQUENCY = 2"
definition ADJ_MAXERROR :: int where "ADJ_MAXERROR = 4"
definition ADJ_ESTERROR :: int where "ADJ_ESTERROR = 8"
definition ADJ_STATUS :: int where "ADJ_STATUS = 16"
definition ADJ_TIMECONST :: int where "ADJ_TIMECONST = 32"
definition ADJ_TICK :: int where "ADJ_TICK = 16384"
definition ADJ_OFFSET_SINGLESHOT :: int where "ADJ_OFFSET_SINGLESHOT = 32769"

abbreviation mode_has :: "timex \<Rightarrow> int \<Rightarrow> bool" where "mode_has x f \<equiv> tx_mode x AND f \<noteq> 0"

definition timex_bad :: "timex \<Rightarrow> bool" where
  "timex_bad x \<longleftrightarrow>
     mode_has x ADJ_OFFSET \<and> (tx_offset x \<le> - (2 ^ 17) \<or> tx_offset x \<ge> 2 ^ 17)
     \<or> mode_has x ADJ_STATUS \<and> (tx_status x < TIME_OK \<or> tx_status x > TIME_BAD)
     \<or> mode_has x ADJ_TICK \<and> (tx_tick x < 900000 div HZ \<or> tx_tick x > 1100000 div HZ)"

definition adj_status :: "timex \<Rightarrow> pll \<Rightarrow> pll" where
  "adj_status x p =
     p\<lparr>time_status := (if mode_has x ADJ_STATUS then tx_status x else if time_status p = TIME_BAD then TIME_OK else time_status p),
       time_freq := (if mode_has x ADJ_FREQUENCY then shl (tx_frequency x) 4 else time_freq p),
       time_maxerror := (if mode_has x ADJ_MAXERROR then tx_maxerror x else time_maxerror p),
       time_esterror := (if mode_has x ADJ_ESTERROR then tx_esterror x else time_esterror p),
       time_constant := (if mode_has x ADJ_TIMECONST then tx_time_constant x else time_constant p)\<rparr>"

definition limit :: "int \<Rightarrow> int \<Rightarrow> int" where
  "limit l f = (if f > l then l else if f < - l then - l else f)"

definition adj_offset :: "timex \<Rightarrow> int \<Rightarrow> pll \<Rightarrow> pll" where
  "adj_offset x now p =
     (let mtemp = s32 (now - time_reftime p);
          mtemp = (if mtemp > 1202 \<or> mtemp < 0 then 0 else mtemp);
          freq = (if tx_offset x < 0
                  then s32 (time_freq p - shr (s32 (- tx_offset x * mtemp)) (time_constant p + time_constant p))
                  else s32 (time_freq p + shr (s32 (tx_offset x * mtemp)) (time_constant p + time_constant p)))
      in p\<lparr>time_offset := shl (tx_offset x) 14, time_reftime := now, time_freq := limit (shl (time_tolerance p) 20) freq\<rparr>)"

definition adj_apply :: "timex \<Rightarrow> kclock \<Rightarrow> kclock" where
  "adj_apply x k =
     (if tx_mode x = 0 then k
      else (let k = k\<lparr>the_pll := adj_status x (the_pll k)\<rparr>;
                k = (if mode_has x ADJ_OFFSET
                     then if tx_mode x = ADJ_OFFSET_SINGLESHOT then k\<lparr>time_adjust := tx_offset x\<rparr>
                          else k\<lparr>the_pll := adj_offset x (tv_sec (xtime k)) (the_pll k)\<rparr>
                     else k)
            in if mode_has x ADJ_TICK then k\<lparr>tick := tx_tick x\<rparr> else k))"

definition adj_answer :: "timex \<Rightarrow> int \<Rightarrow> kclock \<Rightarrow> timex" where
  "adj_answer x save_adjust k =
     (let p = the_pll k
      in x\<lparr>tx_offset := save_adjust, tx_frequency := shr (s32 (time_freq p + 1)) 4, tx_maxerror := time_maxerror p,
           tx_esterror := time_esterror p, tx_status := time_status p, tx_time_constant := time_constant p,
           tx_precision := time_precision p, tx_tolerance := time_tolerance p, tx_time := xtime k, tx_tick := tick k\<rparr>)"

definition sys_adjtimex :: "ids_task \<Rightarrow> kclock \<Rightarrow> errno option \<Rightarrow> timex \<Rightarrow> kclock \<times> timex option \<times> res" where
  "sys_adjtimex cur k verify x =
     (case verify of
        Some e \<Rightarrow> (k, None, Err e)
      | None \<Rightarrow>
          if tx_mode x \<noteq> 0 \<and> \<not> is_suser cur then (k, None, Err EPERM)
          else if timex_bad x then (k, None, Err EINVAL)
          else (let k' = adj_apply x k
                in (k', Some (adj_answer x (time_adjust k) k'), Ret (time_status (the_pll k')))))"

section \<open>The clock in the timer interrupt\<close>

definition FINETUNE :: int where
  "FINETUNE = (((LATCH * HZ - 1193180) * 128 * (1000000 div 20)) div (1193180 div 20) * 2 ^ 17) div HZ"

definition pll_adjust :: "pll \<Rightarrow> pll" where
  "pll_adjust p =
     (let adj0 = shl (shr (- (time_offset p + 1)) (8 + time_constant p) + 1) 3;
          adj1 = shl (shr (time_offset p - 1) (8 + time_constant p) + 1) 3;
          p = (if time_offset p < 0
               then p\<lparr>time_offset := s32 (time_offset p + shr (s32 (adj0 * HZ)) 10), time_adj := s32 (- adj0)\<rparr>
               else if time_offset p > 0
               then p\<lparr>time_offset := s32 (time_offset p - shr (s32 (adj1 * HZ)) 10), time_adj := adj1\<rparr>
               else p\<lparr>time_adj := 0\<rparr>)
      in p\<lparr>time_adj := s32 (time_adj p + (shr (time_freq p) 3 + FINETUNE))\<rparr>)"

definition leap_second :: "kclock \<Rightarrow> kclock" where
  "leap_second k =
     (let p = the_pll k; s = tv_sec (xtime k)
      in if time_status p = TIME_INS
         then if s smod 86400 = 0
              then k\<lparr>xtime := (xtime k)\<lparr>tv_sec := s32 (s - 1)\<rparr>, the_pll := p\<lparr>time_status := TIME_OOP\<rparr>\<rparr> else k
         else if time_status p = TIME_DEL
         then if s smod 86400 = 86399
              then k\<lparr>xtime := (xtime k)\<lparr>tv_sec := s32 (s + 1)\<rparr>, the_pll := p\<lparr>time_status := TIME_OK\<rparr>\<rparr> else k
         else if time_status p = TIME_OOP then k\<lparr>the_pll := p\<lparr>time_status := TIME_OK\<rparr>\<rparr>
         else k)"

definition second_overflow :: "bool \<Rightarrow> kclock \<Rightarrow> kclock" where
  "second_overflow rtc_set k =
     (let p = the_pll k;
          p = p\<lparr>time_maxerror := (if s32 (MAXERROR - time_maxerror p) < time_tolerance p then MAXERROR
                                  else s32 (time_maxerror p + time_tolerance p))\<rparr>;
          k = leap_second (k\<lparr>the_pll := pll_adjust p\<rparr>)
      in if tv_sec (xtime k) > s32 (last_rtc_update k + 660) \<and> rtc_set then k\<lparr>last_rtc_update := tv_sec (xtime k)\<rparr> else k)"

text \<open>The phase, the step of the tick and the carry into the seconds.\<close>

definition tick_usec :: "kclock \<Rightarrow> kclock" where
  "tick_usec k =
     (let p = the_pll k; phase = s32 (time_phase p + time_adj p);
          down = shr (- phase) 24; up = shr phase 24;
          usec = tv_usec (xtime k) + tick k + time_adjust_step k
      in if phase < - (2 ^ 24)
         then k\<lparr>the_pll := p\<lparr>time_phase := s32 (phase + down * 2 ^ 24)\<rparr>, xtime := (xtime k)\<lparr>tv_usec := s32 (usec - down)\<rparr>\<rparr>
         else if phase > 2 ^ 24
         then k\<lparr>the_pll := p\<lparr>time_phase := s32 (phase - up * 2 ^ 24)\<rparr>, xtime := (xtime k)\<lparr>tv_usec := s32 (usec + up)\<rparr>\<rparr>
         else k\<lparr>the_pll := p\<lparr>time_phase := phase\<rparr>, xtime := (xtime k)\<lparr>tv_usec := s32 usec\<rparr>\<rparr>)"

definition tick_adjust :: "kclock \<Rightarrow> kclock" where
  "tick_adjust k =
     (if time_adjust k \<noteq> 0
      then (let step = limit (tickadj k) (time_adjust k)
            in k\<lparr>time_adjust_step := step, time_adjust := s32 (time_adjust k - step)\<rparr>)
      else k\<lparr>time_adjust_step := 0\<rparr>)"

definition tick_clock :: "bool \<Rightarrow> kclock \<Rightarrow> kclock" where
  "tick_clock rtc_set k =
     (let k = tick_adjust (tick_usec k)
      in if tv_usec (xtime k) \<ge> 1000000
         then second_overflow rtc_set
                (k\<lparr>xtime := \<lparr>tv_sec = s32 (tv_sec (xtime k) + 1), tv_usec = tv_usec (xtime k) - 1000000\<rparr>\<rparr>)
         else k)"

section \<open>The calendar\<close>

text \<open>The reference: days counted year by year and month by month.\<close>

definition leap :: "int \<Rightarrow> bool" where
  "leap y \<longleftrightarrow> y mod 4 = 0 \<and> (y mod 100 \<noteq> 0 \<or> y mod 400 = 0)"

fun days_to_year :: "nat \<Rightarrow> int" where
  "days_to_year 0 = 0"
| "days_to_year (Suc n) = days_to_year n + (if leap (1970 + int n) then 366 else 365)"

definition month_days :: "int \<Rightarrow> int list" where
  "month_days y = [31, if leap y then 29 else 28, 31, 30, 31, 30, 31, 31, 30, 31, 30, 31]"

definition days_to_month :: "int \<Rightarrow> nat \<Rightarrow> int" where
  "days_to_month y m = sum_list (take m (month_days y))"

text \<open>The part of \<open>kernel_mktime\<close> that depends on the year and the month, in days.\<close>

definition mktime_days :: "int \<Rightarrow> int \<Rightarrow> int" where
  "mktime_days year mon =
     365 * year + (year + 1) div 4 + month ! nat mon div DAY - (if mon > 1 \<and> (year + 2) mod 4 \<noteq> 0 then 1 else 0)"

lemma mktime_days_calendar_code:
  "\<forall>n \<in> set [0..<68]. \<forall>m \<in> set [0..<12].
     mktime_days (int n) (int m) = days_to_year n + days_to_month (1970 + int n) m"
  by code_simp

lemma month_nth: "m < 12 \<Longrightarrow> month ! m = DAY * (month ! m div DAY) \<and> 0 \<le> month ! m div DAY \<and> month ! m div DAY \<le> 335"
proof -
  have "\<forall>m \<in> set [0..<12]. month ! m = DAY * (month ! m div DAY) \<and> 0 \<le> month ! m div DAY \<and> month ! m div DAY \<le> 335"
    by code_simp
  then show "m < 12 \<Longrightarrow> ?thesis" by simp
qed

lemma sdiv_nonneg: "0 \<le> x \<Longrightarrow> 0 < y \<Longrightarrow> x sdiv y = x div (y :: int)"
  by (simp add: signed_divide_int_def sgn_if)

lemma smod_nonneg: "0 \<le> x \<Longrightarrow> 0 < y \<Longrightarrow> x smod y = x mod (y :: int)"
  by (cases "x = 0") (simp_all add: signed_modulo_int_def)

lemma small_time:
  fixes k d h i s :: int
  assumes "- 1 \<le> k" "k \<le> 24807" "1 \<le> d" "d \<le> 31" "0 \<le> h" "h < 24" "0 \<le> i" "i < 60" "0 \<le> s" "s < 60"
  shows "s32 (86400 * k + 86400 * (d - 1) + 3600 * h + 60 * i + s) = 86400 * k + 86400 * (d - 1) + 3600 * h + 60 * i + s"
proof (rule s32_id)
  have "- 86400 \<le> 86400 * k" "86400 * k \<le> 86400 * 24807" "0 \<le> 86400 * (d - 1)" "86400 * (d - 1) \<le> 86400 * 30"
    "0 \<le> 3600 * h" "3600 * h \<le> 3600 * 23" "0 \<le> 60 * i" "60 * i \<le> 60 * 59" using assms by simp_all
  then show "- 2147483648 \<le> 86400 * k + 86400 * (d - 1) + 3600 * h + 60 * i + s"
    "86400 * k + 86400 * (d - 1) + 3600 * h + 60 * i + s < 2147483648" using assms(9,10) by linarith+
qed

text \<open>
  C14: For every date from 1970 to 2037 \<open>kernel_mktime\<close> gives the seconds since the start of 1970 that counting
  the days of the calendar, year by year and month by month with all leap years, gives. The month
  table for leap years and its corrections are right in every one of these years.
\<close>

theorem kernel_mktime_counts_the_calendar:
  assumes "n < 68" "m < 12" "1 \<le> d" "d \<le> 31" "0 \<le> h" "h < 24" "0 \<le> i" "i < 60" "0 \<le> s" "s < 60"
  shows "kernel_mktime \<lparr>mk_sec = s, mk_min = i, mk_hour = h, mk_day = d, mk_mon = int m, mk_year = 70 + int n\<rparr>
    = Some (86400 * (days_to_year n + days_to_month (1970 + int n) m + (d - 1)) + 3600 * h + 60 * i + s)"
proof -
  have cal: "mktime_days (int n) (int m) = days_to_year n + days_to_month (1970 + int n) m"
    using bspec [OF bspec [OF mktime_days_calendar_code, of n], of m] assms(1,2) by simp
  have len: "length month = 12" by (simp add: month_def)
  have y: "s32 (70 + int n - 70) = int n" "s32 (int n + 1) = int n + 1" "s32 (int n + 2) = int n + 2"
    using assms(1) by (auto intro!: s32_id)
  note mm = month_nth [OF assms(2)]
  have res: "YEAR * int n + DAY * ((int n + 1) div 4) + month ! m
      - (if int m > 1 \<and> (int n + 2) mod 4 \<noteq> 0 then DAY else 0) = DAY * mktime_days (int n) (int m)"
    using mm by (simp add: mktime_days_def YEAR_def algebra_simps)
  have "0 \<le> (int n + 1) div 4" "(int n + 1) div 4 \<le> 17" using assms(1) by auto
  then have days: "- 1 \<le> mktime_days (int n) (int m)" "mktime_days (int n) (int m) \<le> 24807"
    using mm assms(1) by (auto simp: mktime_days_def)
  have day: "DAY = 86400" "HOUR = 3600" "MINUTE = 60" by (simp_all add: DAY_def HOUR_def MINUTE_def)
  have small: "s32 (DAY * mktime_days (int n) (int m) + DAY * (d - 1) + HOUR * h + MINUTE * i + s)
    = DAY * mktime_days (int n) (int m) + DAY * (d - 1) + HOUR * h + MINUTE * i + s"
    using small_time [OF days assms(3-10)] by (simp only: day)
  have "kernel_mktime \<lparr>mk_sec = s, mk_min = i, mk_hour = h, mk_day = d, mk_mon = int m, mk_year = 70 + int n\<rparr>
    = Some (s32 (YEAR * int n + DAY * ((int n + 1) div 4) + month ! m
        - (if int m > 1 \<and> (int n + 2) mod 4 \<noteq> 0 then DAY else 0) + DAY * (d - 1) + HOUR * h + MINUTE * i + s))"
    using assms(2) len y by (simp add: kernel_mktime_def Let_def sdiv_nonneg smod_nonneg)
  also have "\<dots> = Some (DAY * mktime_days (int n) (int m) + DAY * (d - 1) + HOUR * h + MINUTE * i + s)"
    unfolding res small ..
  finally show ?thesis by (simp add: cal day algebra_simps)
qed

theorem kernel_mktime_counts_the_calendar_witness:
  "kernel_mktime \<lparr>mk_sec = 0, mk_min = 0, mk_hour = 12, mk_day = 29, mk_mon = int 1, mk_year = 70 + int 26\<rparr> = Some 825595200"
proof -
  have "days_to_year 26 = 9496" "days_to_month (1970 + int 26) 1 = 31" by code_simp+
  with kernel_mktime_counts_the_calendar [of 26 1 29 12 0 0] show ?thesis by simp
qed

end
