(* ===== verification/Kmalloc.thy ===== *)
theory Kmalloc
  imports Runs
begin

text \<open>
  mm/kmalloc.c: the allocator of the kernel.

  Memory is two heaps, the page descriptors at the start of the pages the allocator owns and the block
  headers in them. The union in a header, the length of a used block or the link of a free one, is one
  word. Addresses are integers and 0 is NULL; reading a descriptor or a header where none was written is
  \<open>Fault\<close>. Interrupts are off only between \<open>cli\<close> and \<open>restore_flags\<close>, and \<open>__get_free_page\<close> may sleep, so
  \<open>kmalloc\<close> is given as runs: one for every pass of its loop up to the request for a page, and one that
  adds the page, whose address is an argument. Messages to the console are left out.
\<close>

section \<open>Data\<close>

record block_header =
  bh_flags :: int
  vp :: int

record page_descriptor =
  pg_next :: int
  pg_firstfree :: int
  pg_order :: int
  nfree :: int

record size_descriptor =
  sz_firstfree :: int
  sz_size :: int
  nblocks :: int
  nmallocs :: int
  nfrees :: int
  nbytesmalloced :: int
  npages :: int

record kmem =
  sizes :: "size_descriptor list"
  pages :: "int \<Rightarrow> page_descriptor option"
  blocks :: "int \<Rightarrow> block_header option"

definition MF_USED :: int where "MF_USED = 0xffaa0055"
definition MF_FREE :: int where "MF_FREE = 0x0055ffaa"
definition MAX_KMALLOC_K :: int where "MAX_KMALLOC_K = 4"
definition MAX_GET_FREE_PAGE_TRIES :: nat where "MAX_GET_FREE_PAGE_TRIES = 4"
definition GFP_ATOMIC :: int where "GFP_ATOMIC = 1"
definition PAGE_SIZE :: int where "PAGE_SIZE = 4096"
definition sizeof_block_header :: int where "sizeof_block_header = 8"
definition sizeof_page_descriptor :: int where "sizeof_page_descriptor = 16"

definition PAGE_DESC :: "int \<Rightarrow> int" where
  "PAGE_DESC p = p - p mod PAGE_SIZE"

definition size_class :: "int \<times> int \<Rightarrow> size_descriptor" where
  "size_class c = \<lparr>sz_firstfree = 0, sz_size = fst c, nblocks = snd c, nmallocs = 0, nfrees = 0, nbytesmalloced = 0, npages = 0\<rparr>"

definition size_classes :: "(int \<times> int) list" where
  "size_classes = [(32, 127), (64, 63), (128, 31), (252, 16), (508, 8), (1020, 4), (2040, 2), (4080, 1), (0, 0)]"

definition kmem0 :: kmem where
  "kmem0 = \<lparr>sizes = map size_class size_classes, pages = (\<lambda>_. None), blocks = (\<lambda>_. None)\<rparr>"

section \<open>The table\<close>

text \<open>The check at start-up; \<open>False\<close> stands for the panic.\<close>

fun init_check :: "size_descriptor list \<Rightarrow> bool" where
  "init_check [] = False"
| "init_check (d # ds) =
     (if sz_size d = 0 then True
      else if nblocks d * sz_size d + sizeof_page_descriptor > PAGE_SIZE then False
      else init_check ds)"

fun order_from :: "size_descriptor list \<Rightarrow> int \<Rightarrow> int \<Rightarrow> int" where
  "order_from [] sz order = -1"
| "order_from (d # ds) sz order =
     (if sz_size d = 0 then -1 else if sz \<le> sz_size d then order else order_from ds sz (order + 1))"

definition get_order :: "kmem \<Rightarrow> int \<Rightarrow> int" where
  "get_order s sz = order_from (sizes s) (s32 (sz + sizeof_block_header)) 0"

section \<open>Allocation\<close>

text \<open>What a call keeps over a sleep, and the two places where others can run: in the request for a page, and
  before the next pass of the loop.\<close>

record kcall =
  kc_size :: int
  kc_order :: int
  kc_tries :: nat
  kc_prio :: int

datatype kwait = GetPage kcall | Again kcall

type_synonym krun = "kmem \<times> (kwait, int) outcome"

text \<open>Taking the first free block \<open>p\<close>, with header \<open>b\<close>, of the first page of a size.\<close>

definition take_block :: "kmem \<Rightarrow> kcall \<Rightarrow> size_descriptor \<Rightarrow> page_descriptor \<Rightarrow> block_header \<Rightarrow> kmem" where
  "take_block s c d page b =
     (let a = sz_firstfree d;
          p = pg_firstfree page;
          page = page\<lparr>pg_firstfree := vp b, nfree := nfree page - 1\<rparr>;
          d = (if nfree page = 0 then d\<lparr>sz_firstfree := pg_next page\<rparr> else d);
          page = (if nfree page = 0 then page\<lparr>pg_next := 0\<rparr> else page);
          d = d\<lparr>nmallocs := s32 (nmallocs d + 1), nbytesmalloced := s32 (nbytesmalloced d + kc_size c)\<rparr>
      in s\<lparr>sizes := (sizes s)[nat (kc_order c) := d], pages := (pages s)(a \<mapsto> page),
           blocks := (blocks s)(p \<mapsto> \<lparr>bh_flags = MF_USED, vp = kc_size c\<rparr>)\<rparr>)"

text \<open>One pass of \<open>while (tries --)\<close>, up to the request for a page.\<close>

definition kmalloc_loop :: "kmem \<Rightarrow> kcall \<Rightarrow> krun" where
  "kmalloc_loop s c =
     (if kc_tries c = 0 then (s, Ret 0)
      else (let c = c\<lparr>kc_tries := kc_tries c - 1\<rparr> in
            case aget (sizes s) (kc_order c) of
              None \<Rightarrow> (s, Fault)
            | Some d \<Rightarrow>
                if sz_firstfree d = 0 then (s, Sleep (GetPage c))
                else (case pages s (sz_firstfree d) of
                        None \<Rightarrow> (s, Fault)
                      | Some page \<Rightarrow>
                          if pg_firstfree page = 0 then (s, Sleep (GetPage c))
                          else (case blocks s (pg_firstfree page) of
                                  None \<Rightarrow> (s, Fault)
                                | Some b \<Rightarrow>
                                    if bh_flags b = MF_FREE
                                    then (take_block s c d page b, Ret (pg_firstfree page + sizeof_block_header))
                                    else (s, Ret 0)))))"

text \<open>The loop that cuts a page into free blocks.\<close>

fun carve :: "nat \<Rightarrow> int \<Rightarrow> int \<Rightarrow> (int \<Rightarrow> block_header option) \<Rightarrow> int \<Rightarrow> block_header option" where
  "carve 0 p sz h = h(p \<mapsto> \<lparr>bh_flags = MF_FREE, vp = 0\<rparr>)"
| "carve (Suc 0) p sz h = h(p \<mapsto> \<lparr>bh_flags = MF_FREE, vp = 0\<rparr>)"
| "carve (Suc (Suc i)) p sz h = carve (Suc i) (p + sz) sz (h(p \<mapsto> \<lparr>bh_flags = MF_FREE, vp = p + sz\<rparr>))"

text \<open>From the return of \<open>__get_free_page\<close> to the end of the loop body.\<close>

definition kmalloc_page :: "kmem \<Rightarrow> kcall \<Rightarrow> int \<Rightarrow> krun" where
  "kmalloc_page s c page =
     (if page = 0 then (s, Ret 0)
      else (case aget (sizes s) (kc_order c) of
              None \<Rightarrow> (s, Fault)
            | Some d \<Rightarrow>
                let first = page + sizeof_page_descriptor
                in (s\<lparr>sizes := (sizes s)[nat (kc_order c) := d\<lparr>npages := s32 (npages d + 1), sz_firstfree := page\<rparr>],
                      pages := (pages s)(page \<mapsto> \<lparr>pg_next = sz_firstfree d, pg_firstfree = first,
                                                   pg_order = kc_order c, nfree = nblocks d\<rparr>),
                      blocks := carve (nat (nblocks d)) first (sz_size d) (blocks s)\<rparr>,
                    Sleep (Again c))))"

definition kmalloc :: "bool \<Rightarrow> kmem \<Rightarrow> int \<Rightarrow> int \<Rightarrow> krun" where
  "kmalloc intr s sz priority =
     (let priority = (if intr \<and> priority \<noteq> GFP_ATOMIC then GFP_ATOMIC else priority) in
      if sz > MAX_KMALLOC_K * 1024 then (s, Ret 0)
      else (let order = get_order s sz in
            if order < 0 then (s, Ret 0)
            else kmalloc_loop s \<lparr>kc_size = sz, kc_order = order, kc_tries = MAX_GET_FREE_PAGE_TRIES, kc_prio = priority\<rparr>))"

section \<open>Freeing\<close>

text \<open>The search for the page before another one on the list of its size.\<close>

partial_function (option) page_before :: "(int \<Rightarrow> page_descriptor option) \<Rightarrow> int \<Rightarrow> int \<Rightarrow> int option" where
  "page_before h pg2 page =
     (if pg2 = 0 then Some 0
      else (case h pg2 of
              None \<Rightarrow> None
            | Some d \<Rightarrow> if pg_next d = page then Some pg2 else page_before h (pg_next d) page))"

declare page_before.simps [code]

text \<open>The block \<open>p\<close> goes to the front of the list of its page, and a page that was full goes to the list of
  its size.\<close>

definition link_block :: "kmem \<Rightarrow> int \<Rightarrow> page_descriptor \<Rightarrow> size_descriptor \<Rightarrow> int \<Rightarrow> kmem" where
  "link_block s a page d p =
     (let b = \<lparr>bh_flags = MF_FREE, vp = pg_firstfree page\<rparr>;
          page = page\<lparr>pg_firstfree := p, nfree := nfree page + 1\<rparr>;
          onlist = (nfree page = 1 \<and> pg_next page = 0)
      in s\<lparr>sizes := (if onlist then (sizes s)[nat (pg_order page) := d\<lparr>sz_firstfree := a\<rparr>] else sizes s),
           pages := (pages s)(a \<mapsto> (if onlist then page\<lparr>pg_next := sz_firstfree d\<rparr> else page)),
           blocks := (blocks s)(p \<mapsto> b)\<rparr>)"

text \<open>\<open>free_page\<close>: the page with all its headers is no longer the allocator's.\<close>

definition give_page :: "int \<Rightarrow> kmem \<Rightarrow> kmem" where
  "give_page a s = s\<lparr>pages := (pages s)(a := None), blocks := (\<lambda>x. if PAGE_DESC x = a then None else blocks s x)\<rparr>"

text \<open>A page without used blocks leaves the list and is given back.\<close>

definition drop_page :: "kmem \<Rightarrow> int \<Rightarrow> page_descriptor \<Rightarrow> size_descriptor \<Rightarrow> kmem option" where
  "drop_page s a page d =
     (if sz_firstfree d = a
      then Some (give_page a (s\<lparr>sizes := (sizes s)[nat (pg_order page) := d\<lparr>sz_firstfree := pg_next page\<rparr>]\<rparr>))
      else (case page_before (pages s) (sz_firstfree d) a of
              None \<Rightarrow> None
            | Some pg2 \<Rightarrow>
                if pg2 = 0 then Some (give_page a s)
                else (case pages s pg2 of
                        None \<Rightarrow> None
                      | Some d2 \<Rightarrow> Some (give_page a (s\<lparr>pages := (pages s)(pg2 \<mapsto> d2\<lparr>pg_next := pg_next page\<rparr>)\<rparr>)))))"

definition count_free :: "kmem \<Rightarrow> int \<Rightarrow> int \<Rightarrow> kmem" where
  "count_free s order sz =
     s\<lparr>sizes := (sizes s)[nat order := (sizes s ! nat order)
         \<lparr>nfrees := s32 (nfrees (sizes s ! nat order) + 1),
          nbytesmalloced := s32 (nbytesmalloced (sizes s ! nat order) - sz)\<rparr>]\<rparr>"

text \<open>The part with interrupts off, and the statistics.\<close>

definition free_block :: "kmem \<Rightarrow> int \<Rightarrow> page_descriptor \<Rightarrow> int \<Rightarrow> int \<Rightarrow> krun" where
  "free_block s a page p sz =
     (case aget (sizes s) (pg_order page) of
        None \<Rightarrow> (s, Fault)
      | Some d \<Rightarrow>
          let s = link_block s a page d p in
          (case (pages s a, aget (sizes s) (pg_order page)) of
             (Some page, Some d) \<Rightarrow>
               if nfree page = nblocks d
               then (case drop_page s a page d of
                       None \<Rightarrow> (s, Fault)
                     | Some s \<Rightarrow> (count_free s (pg_order page) sz, Ret 0))
               else (count_free s (pg_order page) sz, Ret 0)
           | _ \<Rightarrow> (s, Fault)))"

definition kfree_s :: "kmem \<Rightarrow> int \<Rightarrow> int \<Rightarrow> krun" where
  "kfree_s s ptr sz =
     (let p = ptr - sizeof_block_header; a = PAGE_DESC p in
      case pages s a of
        None \<Rightarrow> (s, Fault)
      | Some page \<Rightarrow>
          if pg_order page < 0 \<or> pg_order page > 9 \<or> pg_next page mod PAGE_SIZE \<noteq> 0 then (s, Ret 0)
          else (case blocks s p of
                  None \<Rightarrow> (s, Fault)
                | Some b \<Rightarrow>
                    if bh_flags b \<noteq> MF_USED then (s, Ret 0)
                    else if sz \<noteq> 0 \<and> u32 sz \<noteq> vp b then (s, Ret 0)
                    else free_block s a page p (s32 (vp b))))"

section \<open>The system\<close>

text \<open>The blocks in use with the lengths asked for, by the address that was returned.\<close>

definition live :: "kmem \<Rightarrow> int \<Rightarrow> int option" where
  "live s ptr =
     (case blocks s (ptr - sizeof_block_header) of
        None \<Rightarrow> None
      | Some b \<Rightarrow> if bh_flags b = MF_USED then Some (vp b) else None)"

text \<open>\<open>__get_free_page\<close> returns 0 or a page that the allocator does not have. Only blocks in use are freed.\<close>

definition fresh_page :: "kmem \<Rightarrow> int \<Rightarrow> bool" where
  "fresh_page s page \<longleftrightarrow> page = 0 \<or> page mod PAGE_SIZE = 0 \<and> 0 < page \<and> pages s page = None"

inductive km_enters :: "kmem \<Rightarrow> krun \<Rightarrow> bool" where
  "0 \<le> sz \<Longrightarrow> km_enters s (kmalloc intr s sz priority)"
| "live s ptr \<noteq> None \<Longrightarrow> km_enters s (kfree_s s ptr sz)"

inductive km_resumes :: "kmem \<Rightarrow> kwait \<Rightarrow> krun \<Rightarrow> bool" where
  "fresh_page s page \<Longrightarrow> km_resumes s (GetPage c) (kmalloc_page s c page)"
| "km_resumes s (Again c) (kmalloc_loop s c)"

abbreviation km_step :: "(kmem, kwait) world \<Rightarrow> (kmem, kwait) world \<Rightarrow> bool" where
  "km_step \<equiv> run_step km_enters km_resumes"

definition km_start :: "(kmem, kwait) world" where
  "km_start = \<lparr>kern = kmem0, sleepers = {#}\<rparr>"

end
