(* ===== verification/Kmalloc_Props.thy ===== *)
theory Kmalloc_Props
  imports Kmalloc
begin

text \<open>
  The allocator against an abstract one that knows only the blocks in use. Every page is cut into slots; the
  headers of the slots that are not in use form the free list of the page, and the pages with a free slot form
  the list of their size. All runs keep this, so blocks in use never overlap, whatever calls
  interleave, a request is served when a page is to be had, and a page without used blocks is given back.
\<close>

section \<open>Slots\<close>

definition bsize :: "int \<Rightarrow> int" where "bsize k = fst (size_classes ! nat k)"
definition nblk :: "int \<Rightarrow> int" where "nblk k = snd (size_classes ! nat k)"

definition slots :: "int \<Rightarrow> int \<Rightarrow> int set" where
  "slots pg k = (\<lambda>i. pg + 16 + i * bsize k) ` {0..<nblk k}"

lemma class_bounds:
  assumes "0 \<le> k" "k < 8"
  shows "32 \<le> bsize k" "1 \<le> nblk k" "16 + nblk k * bsize k \<le> 4096"
proof -
  have "k = 0 \<or> k = 1 \<or> k = 2 \<or> k = 3 \<or> k = 4 \<or> k = 5 \<or> k = 6 \<or> k = 7" using assms by auto
  then have "32 \<le> bsize k \<and> 1 \<le> nblk k \<and> 16 + nblk k * bsize k \<le> 4096"
    by (elim disjE) (simp_all add: bsize_def nblk_def size_classes_def)
  then show "32 \<le> bsize k" "1 \<le> nblk k" "16 + nblk k * bsize k \<le> 4096" by simp_all
qed

lemma slot_bounds:
  assumes "x \<in> slots pg k" "0 \<le> k" "k < 8"
  shows "pg + 16 \<le> x" "x + bsize k \<le> pg + 4096"
proof -
  obtain i where i: "0 \<le> i" "i < nblk k" "x = pg + 16 + i * bsize k" using assms(1) by (auto simp: slots_def)
  have b: "0 \<le> bsize k" using class_bounds(1) [OF assms(2,3)] by simp
  have "(i + 1) * bsize k \<le> nblk k * bsize k" using i(2) b by (intro mult_right_mono) simp_all
  then show "x + bsize k \<le> pg + 4096" using i(3) class_bounds(3) [OF assms(2,3)] by (simp add: algebra_simps)
  show "pg + 16 \<le> x" using i b by simp
qed

lemma page_of:
  assumes "pg mod 4096 = 0" "pg \<le> x" "x < pg + 4096"
  shows "PAGE_DESC x = pg"
proof -
  have "x mod 4096 = (x - pg + pg) mod 4096" by simp
  also have "\<dots> = (x - pg) mod 4096" using assms(1) by (metis add.right_neutral mod_add_right_eq)
  also have "\<dots> = x - pg" using assms(2,3) by simp
  finally show ?thesis by (simp add: PAGE_DESC_def PAGE_SIZE_def)
qed

lemma pages_apart:
  assumes "a mod 4096 = 0" "b mod 4096 = 0" "a \<noteq> (b :: int)"
  shows "a + 4096 \<le> b \<or> b + 4096 \<le> a"
proof -
  obtain i j where "a = 4096 * i" "b = 4096 * j" using assms(1,2) by (auto simp: mod_eq_0_iff_dvd elim!: dvdE)
  moreover have "i + 1 \<le> j \<or> j + 1 \<le> i" using assms(3) calculation by auto
  ultimately show ?thesis by auto
qed

lemma slot_page: "x \<in> slots pg k \<Longrightarrow> pg mod 4096 = 0 \<Longrightarrow> 0 \<le> k \<Longrightarrow> k < 8 \<Longrightarrow> PAGE_DESC x = pg"
  using slot_bounds [of x pg k] class_bounds(1) [of k] by (intro page_of) simp_all

lemma slots_apart:
  assumes "x \<in> slots pg k" "y \<in> slots pg k" "x \<noteq> y" "0 \<le> k" "k < 8"
  shows "x + bsize k \<le> y \<or> y + bsize k \<le> x"
proof -
  obtain i j where i: "x = pg + 16 + i * bsize k" and j: "y = pg + 16 + j * bsize k"
    using assms(1,2) by (auto simp: slots_def)
  have b: "0 \<le> bsize k" using class_bounds(1) [OF assms(4,5)] by simp
  consider "i + 1 \<le> j" | "j + 1 \<le> i" using i j assms(3) by force
  then show ?thesis
  proof cases
    case 1
    then have "(i + 1) * bsize k \<le> j * bsize k" using b by (rule mult_right_mono)
    then show ?thesis using i j by (simp add: algebra_simps)
  next
    case 2
    then have "(j + 1) * bsize k \<le> i * bsize k" using b by (rule mult_right_mono)
    then show ?thesis using i j by (simp add: algebra_simps)
  qed
qed

lemma card_slots: "0 \<le> k \<Longrightarrow> k < 8 \<Longrightarrow> finite (slots pg k) \<and> card (slots pg k) = nat (nblk k)"
  using class_bounds(1) [of k] by (auto simp: slots_def card_image inj_on_def)

section \<open>Chains\<close>

fun chain :: "(int \<Rightarrow> int option) \<Rightarrow> int \<Rightarrow> int list \<Rightarrow> bool" where
  "chain nx p [] \<longleftrightarrow> p = 0"
| "chain nx p (x # xs) \<longleftrightarrow> p = x \<and> x \<noteq> 0 \<and> (case nx x of None \<Rightarrow> False | Some q \<Rightarrow> chain nx q xs)"

lemma chain_cong: "(\<And>x. x \<in> set xs \<Longrightarrow> nx' x = nx x) \<Longrightarrow> chain nx' p xs = chain nx p xs"
  by (induction xs arbitrary: p) (auto split: option.splits)

lemma chain_head: "chain nx p xs \<Longrightarrow> p = (case xs of [] \<Rightarrow> 0 | x # _ \<Rightarrow> x)"
  by (cases xs) auto

lemma chain_nonempty: "chain nx p xs \<Longrightarrow> p \<noteq> 0 \<Longrightarrow> \<exists>ys q. xs = p # ys \<and> nx p = Some q \<and> chain nx q ys"
  by (cases xs) (auto split: option.splits)

lemma chain_next: "chain nx p xs \<Longrightarrow> x \<in> set xs \<Longrightarrow> \<exists>q. nx x = Some q \<and> (q = 0 \<or> q \<in> set xs)"
proof (induction xs arbitrary: p)
  case (Cons y ys)
  then obtain q where q: "nx y = Some q" "chain nx q ys" by (auto split: option.splits)
  show ?case
  proof (cases "x = y")
    case True
    then show ?thesis using q chain_head [OF q(2)] by (cases ys) auto
  next
    case False
    then show ?thesis using Cons.IH [OF q(2)] Cons.prems(2) by auto
  qed
qed simp

lemma chain_unlink:
  "chain nx p (ys @ b # a # zs) \<Longrightarrow> distinct (ys @ b # a # zs) \<Longrightarrow>
   chain (nx(b := nx a)) p (ys @ b # zs)"
proof (induction ys arbitrary: p)
  case Nil
  then obtain q where q: "nx a = Some q" "chain nx q zs" by (auto split: option.splits)
  have "chain (nx(b := nx a)) q zs" using q(2) Nil.prems(2) by (subst chain_cong [where nx = nx]) auto
  then show ?case using q(1) Nil.prems(1) by (simp add: fun_upd_def)
next
  case (Cons y ys)
  then show ?case by (auto split: option.splits)
qed

lemma page_before_finds:
  "chain (\<lambda>x. map_option pg_next (h x)) p xs \<Longrightarrow> a \<in> set xs \<Longrightarrow> p \<noteq> a \<Longrightarrow>
   \<exists>ys b zs. xs = ys @ b # a # zs \<and> page_before h p a = Some b"
proof (induction xs arbitrary: p)
  case (Cons x xs)
  then obtain d where d: "h x = Some d" "chain (\<lambda>x. map_option pg_next (h x)) (pg_next d) xs" "p = x" "x \<noteq> 0"
    by (auto split: option.splits)
  have a: "a \<in> set xs" using Cons.prems d(3) by auto
  show ?case
  proof (cases "pg_next d = a")
    case True
    then have "\<exists>zs. xs = a # zs" using d(2) a by (cases xs) auto
    then show ?thesis using True d by (subst page_before.simps) force
  next
    case False
    obtain ys b zs where r: "xs = ys @ b # a # zs" "page_before h (pg_next d) a = Some b"
      using Cons.IH [OF d(2) a False] by blast
    have "page_before h p a = Some b" using r(2) d(1,3,4) False by (subst page_before.simps) simp
    moreover have "x # xs = (x # ys) @ b # a # zs" using r(1) by simp
    ultimately show ?thesis by blast
  qed
qed simp

section \<open>The invariant\<close>

text \<open>\<open>fs\<close> is the free list of a page: its slots are headers marked free, the others are in use.\<close>

definition free_ok :: "(int \<Rightarrow> block_header option) \<Rightarrow> int \<Rightarrow> page_descriptor \<Rightarrow> int list \<Rightarrow> bool" where
  "free_ok h pg pd fs \<longleftrightarrow>
     chain (\<lambda>x. map_option vp (h x)) (pg_firstfree pd) fs \<and> distinct fs \<and> set fs \<subseteq> slots pg (pg_order pd) \<and> nfree pd = int (length fs)"

definition headers_ok :: "(int \<Rightarrow> block_header option) \<Rightarrow> int \<Rightarrow> int \<Rightarrow> int list \<Rightarrow> bool" where
  "headers_ok h pg k fs \<longleftrightarrow>
     (\<forall>x \<in> slots pg k. \<exists>b. h x = Some b \<and>
        (if x \<in> set fs then bh_flags b = MF_FREE else bh_flags b = MF_USED \<and> 0 \<le> vp b \<and> vp b + 8 \<le> bsize k))"

definition page_ok :: "(int \<Rightarrow> block_header option) \<Rightarrow> int \<Rightarrow> page_descriptor \<Rightarrow> int list \<Rightarrow> bool" where
  "page_ok h pg pd fs \<longleftrightarrow>
     pg mod 4096 = 0 \<and> 0 < pg \<and> 0 \<le> pg_order pd \<and> pg_order pd < 8 \<and> free_ok h pg pd fs \<and>
     headers_ok h pg (pg_order pd) fs \<and> (nfree pd = 0 \<longrightarrow> pg_next pd = 0)"

definition blocks_ok :: "kmem \<Rightarrow> bool" where
  "blocks_ok s \<longleftrightarrow>
     (\<forall>x. blocks s x \<noteq> None \<longrightarrow> (\<exists>pd. pages s (PAGE_DESC x) = Some pd \<and> x \<in> slots (PAGE_DESC x) (pg_order pd)))"

text \<open>The pages of a size with a free slot.\<close>

definition open_pages :: "(int \<Rightarrow> page_descriptor option) \<Rightarrow> int \<Rightarrow> int set" where
  "open_pages h k = {pg. \<exists>pd. h pg = Some pd \<and> pg_order pd = k \<and> 0 < nfree pd}"

definition list_ok :: "(int \<Rightarrow> page_descriptor option) \<Rightarrow> int \<Rightarrow> int \<Rightarrow> int list \<Rightarrow> bool" where
  "list_ok h k first ps \<longleftrightarrow> chain (\<lambda>x. map_option pg_next (h x)) first ps \<and> distinct ps \<and> set ps = open_pages h k"

definition first_of :: "kmem \<Rightarrow> int \<Rightarrow> int" where
  "first_of s k = sz_firstfree (sizes s ! nat k)"

definition shape :: "kmem \<Rightarrow> bool" where
  "shape s \<longleftrightarrow> map (\<lambda>d. (sz_size d, nblocks d)) (sizes s) = size_classes"

definition kmem_ok :: "kmem \<Rightarrow> bool" where
  "kmem_ok s \<longleftrightarrow> shape s \<and> blocks_ok s \<and> (\<forall>pg pd. pages s pg = Some pd \<longrightarrow> (\<exists>fs. page_ok (blocks s) pg pd fs))
     \<and> (\<forall>k. 0 \<le> k \<and> k < 8 \<longrightarrow> (\<exists>ps. list_ok (pages s) k (first_of s k) ps))"

lemma kmem_okI:
  assumes "shape s" "blocks_ok s" "\<And>pg pd. pages s pg = Some pd \<Longrightarrow> \<exists>fs. page_ok (blocks s) pg pd fs"
    "\<And>k. 0 \<le> k \<Longrightarrow> k < 8 \<Longrightarrow> \<exists>ps. list_ok (pages s) k (first_of s k) ps"
  shows "kmem_ok s"
  using assms by (simp add: kmem_ok_def)

lemma kmem_okD:
  assumes "kmem_ok s"
  shows "shape s" "blocks_ok s" "pages s pg = Some pd \<Longrightarrow> \<exists>fs. page_ok (blocks s) pg pd fs"
    "0 \<le> k \<Longrightarrow> k < 8 \<Longrightarrow> \<exists>ps. list_ok (pages s) k (first_of s k) ps"
  using assms by (simp_all add: kmem_ok_def)

text \<open>What the invariant of a page depends on.\<close>

lemma page_ok_cong:
  assumes "page_ok h pg pd fs" "\<And>x. PAGE_DESC x = pg \<Longrightarrow> h' x = h x"
  shows "page_ok h' pg pd fs"
proof -
  have same: "h' x = h x" if "x \<in> slots pg (pg_order pd)" for x
    using assms slot_page [OF that] by (auto simp: page_ok_def)
  have "chain (\<lambda>x. map_option vp (h' x)) (pg_firstfree pd) fs = chain (\<lambda>x. map_option vp (h x)) (pg_firstfree pd) fs"
    using assms(1) same by (intro chain_cong) (auto simp: page_ok_def free_ok_def)
  then show ?thesis using assms(1) same by (simp add: page_ok_def free_ok_def headers_ok_def)
qed

lemma list_ok_cong:
  assumes "list_ok h k p ps" "\<And>pg. pg \<in> open_pages h k \<Longrightarrow> map_option pg_next (h' pg) = map_option pg_next (h pg)"
    "open_pages h' k = open_pages h k"
  shows "list_ok h' k p ps"
  using assms chain_cong [of ps "\<lambda>x. map_option pg_next (h' x)" "\<lambda>x. map_option pg_next (h x)" p] by (auto simp: list_ok_def)

lemma shape_len: "shape s \<Longrightarrow> length (sizes s) = 9"
  unfolding shape_def using map_eq_imp_length_eq by (fastforce simp: size_classes_def)

lemma shape_at:
  assumes "shape s" "0 \<le> k" "k < 8"
  shows "aget (sizes s) k = Some (sizes s ! nat k)" "sz_size (sizes s ! nat k) = bsize k" "nblocks (sizes s ! nat k) = nblk k"
proof -
  have len: "nat k < length (sizes s)" using shape_len [OF assms(1)] assms(3) by simp
  then have "(sz_size (sizes s ! nat k), nblocks (sizes s ! nat k)) = size_classes ! nat k"
    using assms(1) by (metis (mono_tags, lifting) shape_def nth_map)
  then show "sz_size (sizes s ! nat k) = bsize k" "nblocks (sizes s ! nat k) = nblk k"
    by (simp_all add: bsize_def nblk_def prod_eq_iff)
  show "aget (sizes s) k = Some (sizes s ! nat k)" using len assms(2) by (simp add: aget_def)
qed

lemma shape_upd:
  assumes "shape s" "sz_size d = sz_size (sizes s ! n)" "nblocks d = nblocks (sizes s ! n)"
  shows "shape (s\<lparr>sizes := (sizes s)[n := d]\<rparr>)"
proof -
  have "map (\<lambda>d. (sz_size d, nblocks d)) ((sizes s)[n := d]) = map (\<lambda>d. (sz_size d, nblocks d)) (sizes s)"
  proof (cases "n < length (sizes s)")
    case True
    then show ?thesis using assms(2,3) by (metis (mono_tags, lifting) list_update_id map_update)
  qed (simp add: list_update_beyond not_less)
  then show ?thesis using assms(1) by (simp add: shape_def)
qed

lemma used_slot:
  assumes "kmem_ok s" "live s ptr = Some n"
  shows "\<exists>pg pd fs. pages s pg = Some pd \<and> page_ok (blocks s) pg pd fs \<and> pg = PAGE_DESC (ptr - 8) \<and>
    ptr - 8 \<in> slots pg (pg_order pd) \<and> ptr - 8 \<notin> set fs \<and> 0 \<le> n \<and> n + 8 \<le> bsize (pg_order pd)"
proof -
  obtain b where b: "blocks s (ptr - 8) = Some b" "bh_flags b = MF_USED" "vp b = n"
    using assms(2) by (auto simp: live_def sizeof_block_header_def split: option.splits if_splits)
  obtain pd where pd: "pages s (PAGE_DESC (ptr - 8)) = Some pd" "ptr - 8 \<in> slots (PAGE_DESC (ptr - 8)) (pg_order pd)"
    using kmem_okD(2) [OF assms(1)] b(1) unfolding blocks_ok_def by (metis option.distinct(1))
  obtain fs where fs: "page_ok (blocks s) (PAGE_DESC (ptr - 8)) pd fs" using kmem_okD(3) [OF assms(1) pd(1)] by blast
  have "headers_ok (blocks s) (PAGE_DESC (ptr - 8)) (pg_order pd) fs" using fs by (simp add: page_ok_def)
  then have "if ptr - 8 \<in> set fs then bh_flags b = MF_FREE else 0 \<le> n \<and> n + 8 \<le> bsize (pg_order pd)"
    using b pd(2) by (fastforce simp: headers_ok_def)
  then show ?thesis using pd fs b(2) by (auto simp: MF_FREE_def MF_USED_def split: if_splits)
qed

text \<open>Blocks in use do not overlap.\<close>

definition apart :: "(int \<Rightarrow> int option) \<Rightarrow> bool" where
  "apart m \<longleftrightarrow> (\<forall>p q n k. m p = Some n \<and> m q = Some k \<and> p \<noteq> q \<longrightarrow> {p..<p + n} \<inter> {q..<q + k} = {})"

lemma live_apart:
  assumes "kmem_ok s"
  shows "apart (live s)"
proof -
  have "{p..<p + n} \<inter> {q..<q + k} = {}" if p: "live s p = Some n" and q: "live s q = Some k" and ne: "p \<noteq> q" for p q n k
  proof -
    obtain a pd fs where a: "pages s a = Some pd" "page_ok (blocks s) a pd fs" "a = PAGE_DESC (p - 8)"
      "p - 8 \<in> slots a (pg_order pd)" "n + 8 \<le> bsize (pg_order pd)" using used_slot [OF assms p] by blast
    obtain a' pd' fs' where a': "pages s a' = Some pd'" "page_ok (blocks s) a' pd' fs'" "a' = PAGE_DESC (q - 8)"
      "q - 8 \<in> slots a' (pg_order pd')" "k + 8 \<le> bsize (pg_order pd')" using used_slot [OF assms q] by blast
    note o = a(2)[unfolded page_ok_def] a'(2)[unfolded page_ok_def]
    have "p + n \<le> q \<or> q + k \<le> p"
    proof (cases "a = a'")
      case True
      then show ?thesis using slots_apart [of "p - 8" a "pg_order pd" "q - 8"] a a' ne o by auto
    next
      case False
      have "a mod 4096 = 0" "a' mod 4096 = 0" using o by simp_all
      with False have "a + 4096 \<le> a' \<or> a' + 4096 \<le> a" by (intro pages_apart)
      then show ?thesis using slot_bounds [OF a(4)] slot_bounds [OF a'(4)] a(5) a'(5) o by auto
    qed
    then show ?thesis by auto
  qed
  then show ?thesis unfolding apart_def by blast
qed

section \<open>Changing one page\<close>

lemma one_page_keeps:
  assumes "kmem_ok s" "shape s'" "pages s' = (pages s)(a \<mapsto> pd')" "\<And>x. PAGE_DESC x \<noteq> a \<Longrightarrow> blocks s' x = blocks s x"
    "page_ok (blocks s') a pd' fs'" "\<And>x. PAGE_DESC x = a \<Longrightarrow> blocks s' x \<noteq> None \<Longrightarrow> x \<in> slots a (pg_order pd')"
    "\<And>k. 0 \<le> k \<Longrightarrow> k < 8 \<Longrightarrow> \<exists>ps. list_ok (pages s') k (first_of s' k) ps"
  shows "kmem_ok s'"
proof (rule kmem_okI [OF assms(2) _ _ assms(7)])
  show "blocks_ok s'"
    unfolding blocks_ok_def
  proof (intro allI impI)
    fix x assume x: "blocks s' x \<noteq> None"
    show "\<exists>pd. pages s' (PAGE_DESC x) = Some pd \<and> x \<in> slots (PAGE_DESC x) (pg_order pd)"
    proof (cases "PAGE_DESC x = a")
      case False
      then show ?thesis using kmem_okD(2) [OF assms(1)] x assms(3,4) by (auto simp: blocks_ok_def)
    qed (use x assms(3,6) in auto)
  qed
  show "\<exists>fs. page_ok (blocks s') pg pd fs" if "pages s' pg = Some pd" for pg pd
  proof (cases "pg = a")
    case False
    then have "pages s pg = Some pd" using that assms(3) by simp
    then obtain fs where "page_ok (blocks s) pg pd fs" using kmem_okD(3) [OF assms(1)] by blast
    then show ?thesis using page_ok_cong [of "blocks s" pg pd fs "blocks s'"] assms(4) False by blast
  qed (use that assms(3,5) in auto)
qed

lemma other_list:
  assumes "list_ok h k' f ps" "k' \<noteq> k" "\<And>pd. h a = Some pd \<Longrightarrow> pg_order pd = k" "\<And>pd. v = Some pd \<Longrightarrow> pg_order pd = k"
  shows "list_ok (h(a := v)) k' f ps"
proof (rule list_ok_cong [OF assms(1)])
  show "open_pages (h(a := v)) k' = open_pages h k'" using assms(2-4) by (auto simp: open_pages_def)
  show "map_option pg_next ((h(a := v)) pg) = map_option pg_next (h pg)" if "pg \<in> open_pages h k'" for pg
    using that assms(2,3) by (auto simp: open_pages_def)
qed

lemma one_list:
  assumes "kmem_ok s" "pages s' = (pages s)(a := v)" "\<And>pd. pages s a = Some pd \<Longrightarrow> pg_order pd = k"
    "\<And>pd. v = Some pd \<Longrightarrow> pg_order pd = k" "\<And>k'. 0 \<le> k' \<Longrightarrow> first_of s' k' = (if k' = k then f else first_of s k')"
    "\<exists>ps. list_ok (pages s') k f ps" "0 \<le> k'" "k' < 8"
  shows "\<exists>ps. list_ok (pages s') k' (first_of s' k') ps"
proof (cases "k' = k")
  case True
  then show ?thesis using assms(5) [OF assms(7)] assms(6) by simp
next
  case False
  obtain l where "list_ok (pages s) k' (first_of s k') l" using kmem_okD(4) [OF assms(1,7,8)] by blast
  then have "list_ok ((pages s)(a := v)) k' (first_of s k') l" by (rule other_list [OF _ False]) (use assms(3,4) in auto)
  then show ?thesis using False assms(2) assms(5) [OF assms(7)] by auto
qed

lemma same_list:
  assumes "list_ok h k f ps" "h a = Some pd" "pg_order pd = k" "0 < nfree pd" "pg_order pd' = k" "0 < nfree pd'" "pg_next pd' = pg_next pd"
  shows "list_ok (h(a \<mapsto> pd')) k f ps"
  using assms by (intro list_ok_cong [OF assms(1)]) (auto simp: open_pages_def)

lemma longer_list:
  assumes "list_ok h k f ps" "a \<notin> open_pages h k" "a \<noteq> 0" "pg_order pd' = k" "0 < nfree pd'" "pg_next pd' = f"
  shows "list_ok (h(a \<mapsto> pd')) k a (a # ps)"
proof -
  have "chain (\<lambda>x. map_option pg_next ((h(a \<mapsto> pd')) x)) f ps = chain (\<lambda>x. map_option pg_next (h x)) f ps"
    using assms(1,2) by (intro chain_cong) (auto simp: list_ok_def)
  then show ?thesis using assms by (auto simp: list_ok_def open_pages_def)
qed

lemma shorter_list:
  assumes "list_ok h k a (a # ps)" "h a = Some pd" "\<And>pd'. v = Some pd' \<Longrightarrow> nfree pd' = 0"
  shows "list_ok (h(a := v)) k (pg_next pd) ps"
proof -
  have "chain (\<lambda>x. map_option pg_next ((h(a := v)) x)) (pg_next pd) ps = chain (\<lambda>x. map_option pg_next (h x)) (pg_next pd) ps"
    using assms(1) by (intro chain_cong) (auto simp: list_ok_def)
  moreover have "set ps = open_pages h k - {a}" using assms(1) by (auto simp: list_ok_def)
  moreover have "open_pages (h(a := v)) k = open_pages h k - {a}" using assms(3) by (auto simp: open_pages_def)
  ultimately show ?thesis using assms(1,2) by (auto simp: list_ok_def)
qed

lemma inner_list:
  assumes "list_ok h k f (ys @ b # a # zs)" "h a = Some pd" "h b = Some db"
  shows "list_ok (h(b \<mapsto> db\<lparr>pg_next := pg_next pd\<rparr>, a := None)) k f (ys @ b # zs)"
proof -
  let ?nx = "\<lambda>x. map_option pg_next (h x)" and ?h = "h(b \<mapsto> db\<lparr>pg_next := pg_next pd\<rparr>, a := None)"
  have d: "distinct (ys @ b # a # zs)" "set (ys @ b # a # zs) = open_pages h k" using assms(1) by (simp_all add: list_ok_def)
  have "chain (?nx(b := ?nx a)) f (ys @ b # zs)" using assms(1) by (intro chain_unlink) (simp_all add: list_ok_def)
  moreover have "chain (\<lambda>x. map_option pg_next (?h x)) f (ys @ b # zs) = chain (?nx(b := ?nx a)) f (ys @ b # zs)"
    using assms(2) d(1) by (intro chain_cong) auto
  moreover have "open_pages ?h k = open_pages h k - {a}" using assms(3) by (auto simp: open_pages_def)
  ultimately show ?thesis using d by (auto simp: list_ok_def)
qed

lemma page_geometry: "page_ok h pg pd fs \<Longrightarrow> pg mod 4096 = 0 \<and> 0 < pg \<and> 0 \<le> pg_order pd \<and> pg_order pd < 8"
  by (simp add: page_ok_def)

section \<open>Taking a block\<close>

lemma head_block:
  assumes "kmem_ok s" "0 \<le> k" "k < 8" "first_of s k \<noteq> 0"
  shows "\<exists>ps pd fs b. list_ok (pages s) k (first_of s k) (first_of s k # ps) \<and> pages s (first_of s k) = Some pd \<and> pg_order pd = k
    \<and> page_ok (blocks s) (first_of s k) pd (pg_firstfree pd # fs) \<and> pg_firstfree pd \<noteq> 0
    \<and> blocks s (pg_firstfree pd) = Some b \<and> bh_flags b = MF_FREE"
proof -
  let ?a = "first_of s k"
  obtain l where l: "list_ok (pages s) k ?a l" using kmem_okD(4) [OF assms(1-3)] by blast
  obtain ps where ps: "l = ?a # ps" using chain_nonempty l assms(4) unfolding list_ok_def by blast
  have "?a \<in> open_pages (pages s) k" using l ps by (auto simp: list_ok_def)
  then obtain pd where pd: "pages s ?a = Some pd" "pg_order pd = k" "0 < nfree pd" by (auto simp: open_pages_def)
  obtain gs where gs: "page_ok (blocks s) ?a pd gs" using kmem_okD(3) [OF assms(1) pd(1)] by blast
  then have g: "chain (\<lambda>x. map_option vp (blocks s x)) (pg_firstfree pd) gs" "nfree pd = int (length gs)"
      "set gs \<subseteq> slots ?a k" "headers_ok (blocks s) ?a k gs"
    using pd(2) by (simp_all add: page_ok_def free_ok_def)
  then obtain fs where fs: "gs = pg_firstfree pd # fs" "pg_firstfree pd \<noteq> 0" using pd(3) by (cases gs) auto
  then obtain b where "blocks s (pg_firstfree pd) = Some b" "bh_flags b = MF_FREE"
    using g(3,4) by (fastforce simp: headers_ok_def)
  then show ?thesis using l ps pd gs fs by blast
qed

lemma headers_ok_upd:
  assumes "headers_ok h pg k fs" "\<And>x. x \<noteq> p \<Longrightarrow> x \<in> set fs' \<longleftrightarrow> x \<in> set fs"
    "if p \<in> set fs' then bh_flags v = MF_FREE else bh_flags v = MF_USED \<and> 0 \<le> vp v \<and> vp v + 8 \<le> bsize k"
  shows "headers_ok (h(p \<mapsto> v)) pg k fs'"
  unfolding headers_ok_def
proof
  fix x assume x: "x \<in> slots pg k"
  show "\<exists>b. (h(p \<mapsto> v)) x = Some b \<and>
      (if x \<in> set fs' then bh_flags b = MF_FREE else bh_flags b = MF_USED \<and> 0 \<le> vp b \<and> vp b + 8 \<le> bsize k)"
  proof (cases "x = p")
    case False
    then show ?thesis using assms(1) x assms(2) [OF False] by (simp add: headers_ok_def)
  qed (use assms(3) in simp)
qed

lemma page_take:
  assumes "page_ok h pg pd (p # fs)" "h p = Some b" "0 \<le> n" "n + 8 \<le> bsize (pg_order pd)" "fs = [] \<Longrightarrow> q = 0"
  shows "page_ok (h(p \<mapsto> \<lparr>bh_flags = MF_USED, vp = n\<rparr>)) pg (pd\<lparr>pg_firstfree := vp b, nfree := nfree pd - 1, pg_next := q\<rparr>) fs"
proof -
  have d: "distinct (p # fs)" and ch: "chain (\<lambda>x. map_option vp (h x)) (vp b) fs"
    using assms(1,2) by (auto simp: page_ok_def free_ok_def)
  have "chain (\<lambda>x. map_option vp ((h(p \<mapsto> \<lparr>bh_flags = MF_USED, vp = n\<rparr>)) x)) (vp b) fs"
    using ch d by (subst chain_cong [where nx = "\<lambda>x. map_option vp (h x)"]) auto
  moreover have "headers_ok (h(p \<mapsto> \<lparr>bh_flags = MF_USED, vp = n\<rparr>)) pg (pg_order pd) fs"
    by (rule headers_ok_upd [where fs = "p # fs"]) (use assms d in \<open>auto simp: page_ok_def\<close>)
  ultimately show ?thesis using assms d by (auto simp: page_ok_def free_ok_def)
qed

text \<open>The statistics do not matter.\<close>

lemma first_of_upd: "0 \<le> k \<Longrightarrow> 0 \<le> k' \<Longrightarrow> nat k < length (sizes s) \<Longrightarrow>
  first_of (s\<lparr>sizes := (sizes s)[nat k := d], pages := h, blocks := g\<rparr>) k' = (if k' = k then sz_firstfree d else first_of s k')"
  by (auto simp: first_of_def nth_list_update)

lemma live_upd: "live (s\<lparr>sizes := z, pages := h, blocks := (blocks s)(p \<mapsto> b)\<rparr>) =
  (live s)(p + 8 := (if bh_flags b = MF_USED then Some (vp b) else None))"
  by (auto simp: live_def sizeof_block_header_def fun_eq_iff)

lemma take_keeps:
  assumes "kmem_ok s" "0 \<le> k" "k < 8" "list_ok (pages s) k a (a # ps)" "a = first_of s k" "pages s a = Some pd" "pg_order pd = k"
    "page_ok (blocks s) a pd (pg_firstfree pd # fs)" "blocks s (pg_firstfree pd) = Some b" "kc_order c = k"
    "0 \<le> kc_size c" "kc_size c + 8 \<le> bsize k"
  shows "kmem_ok (take_block s c (sizes s ! nat k) pd b)"
proof -
  let ?p = "pg_firstfree pd" and ?d = "sizes s ! nat k" and ?s = "take_block s c (sizes s ! nat k) pd b"
  define q where "q = (if fs = [] then 0 else pg_next pd)"
  define pd' where "pd' = pd\<lparr>pg_firstfree := vp b, nfree := nfree pd - 1, pg_next := q\<rparr>"
  define d' where "d' = (if fs = [] then ?d\<lparr>sz_firstfree := pg_next pd\<rparr> else ?d)\<lparr>nmallocs := s32 (nmallocs ?d + 1),
     nbytesmalloced := s32 (nbytesmalloced ?d + kc_size c)\<rparr>"
  have n: "nfree pd = int (Suc (length fs))" using assms(8) by (simp add: page_ok_def free_ok_def)
  have a: "sz_firstfree ?d = a" using assms(5) by (simp add: first_of_def)
  have s: "?s = s\<lparr>sizes := (sizes s)[nat k := d'], pages := (pages s)(a \<mapsto> pd'),
      blocks := (blocks s)(?p \<mapsto> \<lparr>bh_flags = MF_USED, vp = kc_size c\<rparr>)\<rparr>"
    using n a assms(10) by (simp add: take_block_def Let_def pd'_def d'_def q_def)
  have page: "page_ok (blocks ?s) a pd' fs"
    unfolding s pd'_def using page_take [OF assms(8,9,11)] assms(7,12) by (simp add: q_def)
  have p: "?p \<in> slots a k" using assms(7,8) by (simp add: page_ok_def free_ok_def)
  have len: "nat k < length (sizes s)" using shape_len [OF kmem_okD(1) [OF assms(1)]] assms(3) by simp
  show ?thesis
  proof (rule one_page_keeps [OF assms(1) _ _ _ page])
    have "shape (s\<lparr>sizes := (sizes s)[nat k := d']\<rparr>)"
      using kmem_okD(1) [OF assms(1)] by (intro shape_upd) (simp_all add: d'_def)
    then show "shape ?s" by (simp add: s shape_def)
    show "pages ?s = (pages s)(a \<mapsto> pd')" by (simp add: s)
    show "blocks ?s x = blocks s x" if "PAGE_DESC x \<noteq> a" for x
      using that slot_page [OF p] page_geometry [OF assms(8)] assms(2,3) by (auto simp: s)
    show "x \<in> slots a (pg_order pd')" if "PAGE_DESC x = a" "blocks ?s x \<noteq> None" for x
      using kmem_okD(2) [OF assms(1)] that p assms(6,7) by (auto simp: s pd'_def blocks_ok_def split: if_splits)
    have "first_of ?s k' = (if k' = k then if fs = [] then pg_next pd else a else first_of s k')" if "0 \<le> k'" for k'
      using first_of_upd [OF assms(2) that len] a by (simp add: s d'_def)
    moreover have "list_ok ((pages s)(a \<mapsto> pd')) k (pg_next pd) ps" if "fs = []"
      by (rule shorter_list [OF assms(4,6)]) (use n that in \<open>simp add: pd'_def\<close>)
    moreover have "list_ok ((pages s)(a \<mapsto> pd')) k a (a # ps)" if "fs \<noteq> []"
      by (rule same_list [OF assms(4,6,7)]) (use n that assms(7) in \<open>simp_all add: pd'_def q_def\<close>)
    ultimately show "\<exists>ps. list_ok (pages ?s) k' (first_of ?s k') ps" if "0 \<le> k'" "k' < 8" for k'
      using that by (intro one_list [OF assms(1), of ?s a "Some pd'" k "if fs = [] then pg_next pd else a"])
        (use assms(6,7) in \<open>auto simp: s pd'_def\<close>)
  qed
qed

text \<open>A call in the loop: its size fits the blocks of its order.\<close>

definition call_ok :: "kcall \<Rightarrow> bool" where
  "call_ok c \<longleftrightarrow> 0 \<le> kc_order c \<and> kc_order c < 8 \<and> 0 \<le> kc_size c \<and> kc_size c + 8 \<le> bsize (kc_order c)"

text \<open>The three ends of a pass of the loop.\<close>

lemma loop_gives_up: "kc_tries c = 0 \<Longrightarrow> kmalloc_loop s c = (s, Ret 0)"
  by (simp add: kmalloc_loop_def)

lemma loop_wants_page:
  assumes "kmem_ok s" "call_ok c" "kc_tries c \<noteq> 0" "first_of s (kc_order c) = 0"
  shows "kmalloc_loop s c = (s, Sleep (GetPage (c\<lparr>kc_tries := kc_tries c - 1\<rparr>)))"
  using assms shape_at(1) [OF kmem_okD(1) [OF assms(1)]] by (simp add: kmalloc_loop_def call_ok_def first_of_def)

lemma loop_takes:
  assumes "kmem_ok s" "call_ok c" "kc_tries c \<noteq> 0" "first_of s (kc_order c) \<noteq> 0"
  shows "\<exists>s' p. kmalloc_loop s c = (s', Ret p) \<and> p \<noteq> 0 \<and> kmem_ok s' \<and> live s p = None \<and>
    live s' = (live s)(p \<mapsto> kc_size c) \<and> dom (pages s') = dom (pages s) \<and> PAGE_DESC (p - 8) = first_of s (kc_order c)"
proof -
  let ?k = "kc_order c" and ?a = "first_of s (kc_order c)" and ?c = "c\<lparr>kc_tries := kc_tries c - 1\<rparr>"
  have k: "0 \<le> ?k" "?k < 8" using assms(2) by (simp_all add: call_ok_def)
  obtain ps pd fs b where h: "list_ok (pages s) ?k ?a (?a # ps)" "pages s ?a = Some pd" "pg_order pd = ?k"
    "page_ok (blocks s) ?a pd (pg_firstfree pd # fs)" "pg_firstfree pd \<noteq> 0"
    "blocks s (pg_firstfree pd) = Some b" "bh_flags b = MF_FREE"
    using head_block [OF assms(1) k assms(4)] by blast
  let ?s = "take_block s ?c (sizes s ! nat ?k) pd b"
  have loop: "kmalloc_loop s c = (?s, Ret (pg_firstfree pd + 8))"
    using assms(3,4) h shape_at(1) [OF kmem_okD(1) [OF assms(1)] k]
    by (simp add: kmalloc_loop_def Let_def first_of_def sizeof_block_header_def)
  have "0 < pg_firstfree pd"
    using slot_bounds [of "pg_firstfree pd" ?a ?k] k h(3,4) by (auto simp: page_ok_def free_ok_def)
  moreover have "PAGE_DESC (pg_firstfree pd) = ?a"
    using slot_page [of "pg_firstfree pd" ?a ?k] k h(3,4) by (simp add: page_ok_def free_ok_def)
  moreover have "kmem_ok ?s"
    by (rule take_keeps [OF assms(1) k h(1) refl h(2,3,4,6)]) (use assms(2) in \<open>simp_all add: call_ok_def\<close>)
  moreover have "live s (pg_firstfree pd + 8) = None"
    using h(6,7) by (simp add: live_def sizeof_block_header_def MF_FREE_def MF_USED_def)
  moreover have "live ?s = (live s)(pg_firstfree pd + 8 \<mapsto> kc_size c)"
    by (simp add: take_block_def Let_def live_upd del: fun_upd_apply)
  moreover have "dom (pages ?s) = dom (pages s)"
    using h(2) by (auto simp: take_block_def Let_def first_of_def split: if_splits)
  ultimately show ?thesis using loop by fastforce
qed

section \<open>Adding a page\<close>

lemma carve_outside: "(\<And>i. i < max 1 n \<Longrightarrow> x \<noteq> p + int i * sz) \<Longrightarrow> carve n p sz h x = h x"
proof (induction n p sz h rule: carve.induct)
  case (3 i p sz h)
  have "x \<noteq> p + sz + int j * sz" if "j < max 1 (Suc i)" for j
    using "3.prems" [of "Suc j"] that by (simp add: algebra_simps)
  then have "carve (Suc i) (p + sz) sz (h(p \<mapsto> \<lparr>bh_flags = MF_FREE, vp = p + sz\<rparr>)) x = (h(p \<mapsto> \<lparr>bh_flags = MF_FREE, vp = p + sz\<rparr>)) x"
    by (rule "3.IH")
  moreover have "x \<noteq> p" using "3.prems" [of 0] by simp
  ultimately show ?case by simp
qed auto

lemma carve_inside:
  "i < n \<Longrightarrow> 0 < sz \<Longrightarrow> \<exists>v. carve n p sz h (p + int i * sz) = Some \<lparr>bh_flags = MF_FREE, vp = v\<rparr>"
proof (induction n p sz h arbitrary: i rule: carve.induct)
  case (3 n p sz h)
  show ?case
  proof (cases i)
    case 0
    have "carve (Suc n) (p + sz) sz g p = g p" for g
    proof (rule carve_outside)
      show "p \<noteq> p + sz + int j * sz" for j using mult_nonneg_nonneg [of "int j" sz] "3.prems"(2) by linarith
    qed
    then show ?thesis using 0 by simp
  next
    case (Suc j)
    then have "p + int i * sz = p + sz + int j * sz" by (simp add: algebra_simps)
    then show ?thesis using "3.IH" [of j] "3.prems" Suc by (simp add: fun_upd_def add.assoc)
  qed
qed auto

lemma carve_chain:
  "0 < n \<Longrightarrow> 0 < p \<Longrightarrow> 0 < sz \<Longrightarrow> chain (\<lambda>x. map_option vp (carve n p sz h x)) p (map (\<lambda>i. p + int i * sz) [0..<n])"
proof (induction n p sz h rule: carve.induct)
  case (3 n p sz h)
  let ?g = "h(p \<mapsto> \<lparr>bh_flags = MF_FREE, vp = p + sz\<rparr>)"
  have "map (\<lambda>i. p + int i * sz) [0..<Suc (Suc n)] = p # map (\<lambda>i. p + sz + int i * sz) [0..<Suc n]"
    by (simp add: map_upt_Suc algebra_simps del: upt_Suc)
  moreover have "carve (Suc n) (p + sz) sz ?g p = ?g p"
  proof (rule carve_outside)
    show "p \<noteq> p + sz + int j * sz" for j using mult_nonneg_nonneg [of "int j" sz] "3.prems"(3) by linarith
  qed
  ultimately show ?case using "3.IH" "3.prems" by (simp add: fun_upd_def del: upt_Suc)
qed auto

definition slot_list :: "int \<Rightarrow> int \<Rightarrow> int list" where
  "slot_list pg k = map (\<lambda>i. pg + 16 + int i * bsize k) [0..<nat (nblk k)]"

lemma slot_list_set: "0 \<le> k \<Longrightarrow> k < 8 \<Longrightarrow> set (slot_list pg k) = slots pg k"
proof -
  assume k: "0 \<le> k" "k < 8"
  have "{0..<nblk k} = int ` {0..<nat (nblk k)}" using class_bounds(2) [OF k] by (simp add: image_int_atLeastLessThan)
  then show ?thesis by (simp add: slot_list_def slots_def image_image)
qed

lemma slot_list_distinct: "0 \<le> k \<Longrightarrow> k < 8 \<Longrightarrow> distinct (slot_list pg k)"
  using class_bounds(1) [of k] by (auto simp: slot_list_def distinct_map inj_on_def)

lemma carved_page:
  assumes k: "0 \<le> k" "k < 8" and pg: "pg mod 4096 = 0" "0 < pg"
  shows "page_ok (carve (nat (nblk k)) (pg + 16) (bsize k) h) pg
    \<lparr>pg_next = q, pg_firstfree = pg + 16, pg_order = k, nfree = nblk k\<rparr> (slot_list pg k)"
proof -
  let ?h = "carve (nat (nblk k)) (pg + 16) (bsize k) h"
  note b = class_bounds [OF k]
  have "chain (\<lambda>x. map_option vp (?h x)) (pg + 16) (slot_list pg k)"
    unfolding slot_list_def by (rule carve_chain) (use b pg in simp_all)
  moreover have "\<exists>v. ?h x = Some \<lparr>bh_flags = MF_FREE, vp = v\<rparr>" if "x \<in> set (slot_list pg k)" for x
    using that carve_inside [of _ "nat (nblk k)" "bsize k" "pg + 16" h] b by (auto simp: slot_list_def)
  ultimately show ?thesis
    using k pg b slot_list_distinct [OF k] slot_list_set [OF k]
    by (fastforce simp: page_ok_def free_ok_def headers_ok_def slot_list_def)
qed

lemma fresh_empty:
  assumes "kmem_ok s" "pages s pg = None" "PAGE_DESC x = pg"
  shows "blocks s x = None"
  using kmem_okD(2) [OF assms(1)] assms(2,3) by (auto simp: blocks_ok_def)

lemma carve_elsewhere:
  assumes "0 \<le> k" "k < 8" "x \<notin> slots pg k"
  shows "carve (nat (nblk k)) (pg + 16) (bsize k) h x = h x"
proof (rule carve_outside)
  fix i assume i: "i < max 1 (nat (nblk k))"
  then have "pg + 16 + int i * bsize k \<in> set (slot_list pg k)" using class_bounds(2) [OF assms(1,2)] by (auto simp: slot_list_def)
  then show "x \<noteq> pg + 16 + int i * bsize k" using assms(3) slot_list_set [OF assms(1,2)] by blast
qed

lemma live_carved:
  assumes "kmem_ok s" "pages s pg = None" "page_ok (blocks s') pg pd fs" "set fs = slots pg (pg_order pd)"
    "\<And>x. x \<notin> slots pg (pg_order pd) \<Longrightarrow> blocks s' x = blocks s x"
  shows "live s' = live s"
proof
  fix x
  show "live s' x = live s x"
  proof (cases "x - 8 \<in> slots pg (pg_order pd)")
    case True
    then have "\<exists>b. blocks s' (x - 8) = Some b \<and> bh_flags b = MF_FREE"
      using assms(3,4) by (fastforce simp: page_ok_def headers_ok_def)
    moreover have "PAGE_DESC (x - 8) = pg" using page_geometry [OF assms(3)] by (intro slot_page [OF True]) simp_all
    ultimately show ?thesis using fresh_empty [OF assms(1,2)]
      by (auto simp: live_def sizeof_block_header_def MF_FREE_def MF_USED_def)
  qed (simp add: live_def assms(5) sizeof_block_header_def)
qed

lemma page_adds:
  assumes "kmem_ok s" "call_ok c" "fresh_page s pg" "pg \<noteq> 0"
  shows "\<exists>s'. kmalloc_page s c pg = (s', Sleep (Again c)) \<and> kmem_ok s' \<and> live s' = live s \<and>
    first_of s' (kc_order c) = pg \<and> dom (pages s') = insert pg (dom (pages s))"
proof -
  define k where "k = kc_order c"
  define d where "d = (sizes s ! nat k)\<lparr>npages := s32 (npages (sizes s ! nat k) + 1), sz_firstfree := pg\<rparr>"
  define pd where "pd = \<lparr>pg_next = first_of s k, pg_firstfree = pg + 16, pg_order = k, nfree = nblk k\<rparr>"
  define h where "h = carve (nat (nblk k)) (pg + 16) (bsize k) (blocks s)"
  define s' where "s' = s\<lparr>sizes := (sizes s)[nat k := d], pages := (pages s)(pg \<mapsto> pd), blocks := h\<rparr>"
  have k: "0 \<le> k" "k < 8" using assms(2) by (simp_all add: call_ok_def k_def)
  have pg: "pg mod 4096 = 0" "0 < pg" "pages s pg = None" using assms(3,4) by (auto simp: fresh_page_def PAGE_SIZE_def)
  note sh = shape_at [OF kmem_okD(1) [OF assms(1)] k]
  have run: "kmalloc_page s c pg = (s', Sleep (Again c))"
    using assms(4) sh by (simp add: kmalloc_page_def Let_def k_def s'_def d_def pd_def h_def first_of_def sizeof_page_descriptor_def)
  have page: "page_ok (blocks s') pg pd (slot_list pg k)" using carved_page [OF k pg(1,2)] by (simp add: s'_def h_def pd_def)
  have out: "blocks s' x = blocks s x" if "x \<notin> slots pg k" for x using carve_elsewhere [OF k that] by (simp add: s'_def h_def)
  have len: "nat k < length (sizes s)" using shape_len [OF kmem_okD(1) [OF assms(1)]] k by simp
  have first: "first_of s' k' = (if k' = k then pg else first_of s k')" if "0 \<le> k'" for k'
    using first_of_upd [OF k(1) that len] by (simp add: s'_def d_def)
  obtain l where l: "list_ok (pages s) k (first_of s k) l" using kmem_okD(4) [OF assms(1) k] by blast
  have list: "list_ok (pages s') k pg (pg # l)"
    unfolding s'_def using longer_list [OF l, of pg pd] pg class_bounds(2) [OF k] by (simp add: open_pages_def pd_def)
  have "kmem_ok s'"
  proof (rule one_page_keeps [OF assms(1) _ _ _ page])
    have "shape (s\<lparr>sizes := (sizes s)[nat k := d]\<rparr>)"
      using kmem_okD(1) [OF assms(1)] by (intro shape_upd) (simp_all add: d_def)
    then show "shape s'" by (simp add: s'_def shape_def)
    show "pages s' = (pages s)(pg \<mapsto> pd)" by (simp add: s'_def)
    show "blocks s' x = blocks s x" if "PAGE_DESC x \<noteq> pg" for x using that slot_page [OF _ pg(1) k] by (intro out) blast
    show "x \<in> slots pg (pg_order pd)" if "PAGE_DESC x = pg" "blocks s' x \<noteq> None" for x
      using that out [of x] fresh_empty [OF assms(1) pg(3) that(1)] by (cases "x \<in> slots pg k") (simp_all add: pd_def)
    show "\<exists>ps. list_ok (pages s') k' (first_of s' k') ps" if "0 \<le> k'" "k' < 8" for k'
      by (rule one_list [OF assms(1) _ _ _ first _ that, of pg "Some pd"]) (use pg list in \<open>auto simp: s'_def pd_def\<close>)
  qed
  moreover have "live s' = live s"
    by (rule live_carved [OF assms(1) pg(3) page, unfolded pd_def])
      (use out slot_list_set [OF k] in \<open>simp_all add: pd_def\<close>)
  ultimately show ?thesis using run first [OF k(1)] by (auto simp: k_def s'_def)
qed

section \<open>Freeing a block\<close>

lemma page_link:
  assumes "page_ok h pg pd fs" "p \<in> slots pg (pg_order pd)" "p \<notin> set fs"
  shows "page_ok (h(p \<mapsto> \<lparr>bh_flags = MF_FREE, vp = pg_firstfree pd\<rparr>)) pg
    (pd\<lparr>pg_firstfree := p, nfree := nfree pd + 1, pg_next := q\<rparr>) (p # fs)"
proof -
  let ?h = "h(p \<mapsto> \<lparr>bh_flags = MF_FREE, vp = pg_firstfree pd\<rparr>)"
  have "chain (\<lambda>x. map_option vp (?h x)) (pg_firstfree pd) fs = chain (\<lambda>x. map_option vp (h x)) (pg_firstfree pd) fs"
    using assms(3) by (intro chain_cong) auto
  moreover have "p \<noteq> 0" using slot_bounds [OF assms(2)] page_geometry [OF assms(1)] by auto
  moreover have "headers_ok ?h pg (pg_order pd) (p # fs)"
    by (rule headers_ok_upd [where fs = fs]) (use assms in \<open>auto simp: page_ok_def\<close>)
  ultimately show ?thesis using assms by (auto simp: page_ok_def free_ok_def)
qed

lemma link_keeps:
  assumes "kmem_ok s" "pages s a = Some pd" "page_ok (blocks s) a pd fs" "p \<in> slots a (pg_order pd)" "p \<notin> set fs"
  defines "s' \<equiv> link_block s a pd (sizes s ! nat (pg_order pd)) p"
  shows "kmem_ok s' \<and> live s' = (live s)(p + 8 := None) \<and> dom (pages s') = dom (pages s) \<and>
    (\<exists>pd'. pages s' a = Some pd' \<and> pg_order pd' = pg_order pd \<and> page_ok (blocks s') a pd' (p # fs))"
proof -
  define k where "k = pg_order pd"
  define q where "q = (if fs = [] then first_of s k else pg_next pd)"
  define pd' where "pd' = pd\<lparr>pg_firstfree := p, nfree := nfree pd + 1, pg_next := q\<rparr>"
  define z where "z = (if fs = [] then (sizes s)[nat k := (sizes s ! nat k)\<lparr>sz_firstfree := a\<rparr>] else sizes s)"
  note g = page_geometry [OF assms(3)]
  have k: "0 \<le> k" "k < 8" using g by (simp_all add: k_def)
  have n: "nfree pd = int (length fs)" "fs = [] \<Longrightarrow> pg_next pd = 0" using assms(3) by (auto simp: page_ok_def free_ok_def)
  have s': "s' = s\<lparr>sizes := z, pages := (pages s)(a \<mapsto> pd'), blocks := (blocks s)(p \<mapsto> \<lparr>bh_flags = MF_FREE, vp = pg_firstfree pd\<rparr>)\<rparr>"
    using n by (simp add: s'_def link_block_def Let_def pd'_def q_def z_def k_def first_of_def)
  have page: "page_ok (blocks s') a pd' (p # fs)" using page_link [OF assms(3-5)] by (simp add: s' pd'_def)
  have len: "nat k < length (sizes s)" using shape_len [OF kmem_okD(1) [OF assms(1)]] k by simp
  have first: "first_of s' k' = (if k' = k then if fs = [] then a else first_of s k else first_of s k')" if "0 \<le> k'" for k'
    using that len k by (auto simp: s' z_def first_of_def nth_list_update)
  obtain l where l: "list_ok (pages s) k (first_of s k) l" using kmem_okD(4) [OF assms(1) k] by blast
  have longer: "list_ok ((pages s)(a \<mapsto> pd')) k a (a # l)" if "fs = []"
    by (rule longer_list [OF l]) (use that n g assms(2) in \<open>auto simp: open_pages_def pd'_def q_def k_def\<close>)
  have same: "list_ok ((pages s)(a \<mapsto> pd')) k (first_of s k) l" if "fs \<noteq> []"
    by (rule same_list [OF l assms(2)]) (use that n in \<open>auto simp: pd'_def q_def k_def\<close>)
  have "kmem_ok s'"
  proof (rule one_page_keeps [OF assms(1) _ _ _ page])
    have "shape (s\<lparr>sizes := z\<rparr>)"
      using kmem_okD(1) [OF assms(1)] shape_upd [of s "(sizes s ! nat k)\<lparr>sz_firstfree := a\<rparr>" "nat k"]
      by (cases "fs = []") (simp_all add: z_def)
    then show "shape s'" by (simp add: s' shape_def)
    show "blocks s' x = blocks s x" if "PAGE_DESC x \<noteq> a" for x using that slot_page [OF assms(4)] g by (auto simp: s')
    show "x \<in> slots a (pg_order pd')" if "PAGE_DESC x = a" "blocks s' x \<noteq> None" for x
      using kmem_okD(2) [OF assms(1)] that assms(2,4) by (auto simp: s' pd'_def blocks_ok_def split: if_splits)
    show "\<exists>ps. list_ok (pages s') k' (first_of s' k') ps" if "0 \<le> k'" "k' < 8" for k'
      by (rule one_list [OF assms(1) _ _ _ first _ that, of a "Some pd'"])
        (use longer same assms(2) in \<open>auto simp: s' pd'_def k_def\<close>)
  qed (simp add: s')
  moreover have "live s' = (live s)(p + 8 := None)" by (simp add: s' live_upd MF_FREE_def MF_USED_def del: fun_upd_apply)
  ultimately show ?thesis using page assms(2) by (auto simp: s' pd'_def)
qed

lemma gone_page_keeps:
  assumes "kmem_ok s" "shape s'" "pages s' a = None" "\<And>x. blocks s' x = (if PAGE_DESC x = a then None else blocks s x)"
    "\<And>pg. pg \<noteq> a \<Longrightarrow> map_option pg_order (pages s' pg) = map_option pg_order (pages s pg)"
    "\<And>pg pd. pages s' pg = Some pd \<Longrightarrow> \<exists>fs. page_ok (blocks s) pg pd fs"
    "\<And>k. 0 \<le> k \<Longrightarrow> k < 8 \<Longrightarrow> \<exists>ps. list_ok (pages s') k (first_of s' k) ps"
  shows "kmem_ok s'"
proof (rule kmem_okI [OF assms(2) _ _ assms(7)])
  show "blocks_ok s'"
    unfolding blocks_ok_def
  proof (intro allI impI)
    fix x assume x: "blocks s' x \<noteq> None"
    then have "PAGE_DESC x \<noteq> a" "blocks s x \<noteq> None" using assms(4) [of x] by (auto split: if_splits)
    then show "\<exists>pd. pages s' (PAGE_DESC x) = Some pd \<and> x \<in> slots (PAGE_DESC x) (pg_order pd)"
      using kmem_okD(2) [OF assms(1)] assms(5) [of "PAGE_DESC x"] by (fastforce simp: blocks_ok_def)
  qed
  show "\<exists>fs. page_ok (blocks s') pg pd fs" if p: "pages s' pg = Some pd" for pg pd
  proof -
    have "pg \<noteq> a" using p assms(3) by auto
    then show ?thesis using assms(6) [OF p] page_ok_cong [of "blocks s" pg pd _ "blocks s'"] assms(4) by auto
  qed
qed

lemma all_free:
  assumes "page_ok h pg pd fs" "nfree pd = nblk (pg_order pd)"
  shows "set fs = slots pg (pg_order pd)"
proof -
  note c = card_slots [of "pg_order pd" pg]
  have "card (set fs) = card (slots pg (pg_order pd))"
    using assms c by (simp add: page_ok_def free_ok_def distinct_card)
  then show ?thesis using assms(1) c by (intro card_subset_eq) (auto simp: page_ok_def free_ok_def)
qed

lemma live_without_page:
  assumes "page_ok (blocks s) a pd fs" "set fs = slots a (pg_order pd)" "blocks_ok s" "pages s a = Some pd"
    "\<And>x. blocks s' x = (if PAGE_DESC x = a then None else blocks s x)"
  shows "live s' = live s"
proof
  fix x
  have "live s x = None" if x: "PAGE_DESC (x - 8) = a"
  proof (cases "blocks s (x - 8)")
    case (Some b)
    then have "x - 8 \<in> slots a (pg_order pd)" using assms(3,4) x by (auto simp: blocks_ok_def)
    then have "bh_flags b = MF_FREE" using assms(1,2) Some by (fastforce simp: page_ok_def headers_ok_def)
    then show ?thesis using Some by (simp add: live_def sizeof_block_header_def MF_FREE_def MF_USED_def)
  qed (simp add: live_def sizeof_block_header_def)
  then show "live s' x = live s x" using assms(5) by (simp add: live_def sizeof_block_header_def)
qed

lemma drop_head_keeps:
  assumes "kmem_ok s" "pages s a = Some pd" "page_ok (blocks s) a pd fs" "first_of s (pg_order pd) = a" "0 < nfree pd"
  defines "k \<equiv> pg_order pd"
  defines "s' \<equiv> give_page a (s\<lparr>sizes := (sizes s)[nat k := (sizes s ! nat k)\<lparr>sz_firstfree := pg_next pd\<rparr>]\<rparr>)"
  shows "kmem_ok s'"
proof -
  note g = page_geometry [OF assms(3)]
  have k: "0 \<le> k" "k < 8" using g by (simp_all add: k_def)
  have len: "nat k < length (sizes s)" using shape_len [OF kmem_okD(1) [OF assms(1)]] k by simp
  have first: "first_of s' k' = (if k' = k then pg_next pd else first_of s k')" if "0 \<le> k'" for k'
    using that len k by (auto simp: s'_def give_page_def first_of_def nth_list_update)
  obtain l where l: "list_ok (pages s) k a l" using kmem_okD(4) [OF assms(1) k] assms(4) by (auto simp: k_def)
  then obtain ps where ps: "l = a # ps" using chain_nonempty g unfolding list_ok_def by (metis less_irrefl)
  have list: "list_ok ((pages s)(a := None)) k (pg_next pd) ps"
    by (rule shorter_list [OF l [unfolded ps] assms(2)]) simp
  show ?thesis
  proof (rule gone_page_keeps [OF assms(1), where a = a])
    show "shape s'"
      using shape_upd [OF kmem_okD(1) [OF assms(1)], of "(sizes s ! nat k)\<lparr>sz_firstfree := pg_next pd\<rparr>" "nat k"]
      by (simp add: s'_def give_page_def shape_def)
    show "\<exists>fs. page_ok (blocks s) pg pd fs" if "pages s' pg = Some pd" for pg pd
      using that kmem_okD(3) [OF assms(1), of pg pd] by (auto simp: s'_def give_page_def split: if_splits)
    show "\<exists>ps. list_ok (pages s') k' (first_of s' k') ps" if "0 \<le> k'" "k' < 8" for k'
      by (rule one_list [OF assms(1) _ _ _ first _ that, of a None])
        (use list assms(2) in \<open>auto simp: s'_def give_page_def k_def\<close>)
  qed (simp_all add: s'_def give_page_def)
qed

lemma drop_inner_keeps:
  assumes "kmem_ok s" "pages s a = Some pd" "page_ok (blocks s) a pd fs" "k = pg_order pd"
    "list_ok (pages s) k (first_of s k) (ys @ b # a # zs)" "pages s b = Some db"
  defines "s' \<equiv> give_page a (s\<lparr>pages := (pages s)(b \<mapsto> db\<lparr>pg_next := pg_next pd\<rparr>)\<rparr>)"
  shows "kmem_ok s'"
proof -
  have "b \<in> open_pages (pages s) k" using assms(5) by (auto simp: list_ok_def)
  then have ab: "b \<noteq> a" "pg_order db = k" "0 < nfree db"
    using assms(5,6) by (auto simp: list_ok_def open_pages_def)
  have pages: "pages s' = (pages s)(b \<mapsto> db\<lparr>pg_next := pg_next pd\<rparr>, a := None)" by (simp add: s'_def give_page_def)
  have first: "first_of s' k' = first_of s k'" for k' by (simp add: s'_def give_page_def first_of_def)
  have list: "list_ok (pages s') k (first_of s k) (ys @ b # zs)" using inner_list [OF assms(5,2,6)] by (simp add: pages)
  show ?thesis
  proof (rule gone_page_keeps [OF assms(1), where a = a])
    show "shape s'" using kmem_okD(1) [OF assms(1)] by (simp add: s'_def give_page_def shape_def)
    show "map_option pg_order (pages s' pg) = map_option pg_order (pages s pg)" if "pg \<noteq> a" for pg
      using that assms(6) by (simp add: pages)
    show "\<exists>fs. page_ok (blocks s) pg pd' fs" if "pages s' pg = Some pd'" for pg pd'
    proof (cases "pg = b")
      case True
      then have "pd' = db\<lparr>pg_next := pg_next pd\<rparr>" using that ab(1) by (simp add: pages)
      then show ?thesis using kmem_okD(3) [OF assms(1,6)] True ab(3) by (auto simp: page_ok_def free_ok_def)
    next
      case False
      then show ?thesis using that kmem_okD(3) [OF assms(1), of pg pd'] by (simp add: pages split: if_splits)
    qed
    show "\<exists>ps. list_ok (pages s') k' (first_of s' k') ps" if k': "0 \<le> k'" "k' < 8" for k'
    proof (cases "k' = k")
      case False
      obtain l where "list_ok (pages s) k' (first_of s k') l" using kmem_okD(4) [OF assms(1) k'] by blast
      then have "list_ok ((pages s)(b \<mapsto> db\<lparr>pg_next := pg_next pd\<rparr>)) k' (first_of s k') l"
        by (rule other_list [OF _ False]) (use ab(2) assms(6) in auto)
      then have "list_ok (pages s') k' (first_of s k') l"
        unfolding pages by (rule other_list [OF _ False]) (use ab(1) assms(2,4) in auto)
      then show ?thesis by (auto simp: first)
    qed (use list in \<open>auto simp: first\<close>)
  qed (simp_all add: s'_def give_page_def)
qed

lemma drop_keeps:
  assumes "kmem_ok s" "pages s a = Some pd" "page_ok (blocks s) a pd fs" "nfree pd = nblk (pg_order pd)"
  shows "\<exists>s'. drop_page s a pd (sizes s ! nat (pg_order pd)) = Some s' \<and> kmem_ok s' \<and> live s' = live s \<and>
    dom (pages s') = dom (pages s) - {a}"
proof -
  define k where "k = pg_order pd"
  note g = page_geometry [OF assms(3)]
  have k: "0 \<le> k" "k < 8" using g by (simp_all add: k_def)
  have pos: "0 < nfree pd" using class_bounds(2) [OF k] assms(4) by (simp add: k_def)
  have live: "live s' = live s" if "\<And>x. blocks s' x = (if PAGE_DESC x = a then None else blocks s x)" for s'
    using live_without_page [OF assms(3) all_free [OF assms(3,4)] kmem_okD(2) [OF assms(1)] assms(2) that] .
  obtain l where l: "list_ok (pages s) k (first_of s k) l" using kmem_okD(4) [OF assms(1) k] by blast
  show ?thesis
  proof (cases "first_of s k = a")
    case True
    define s' where "s' = give_page a (s\<lparr>sizes := (sizes s)[nat k := (sizes s ! nat k)\<lparr>sz_firstfree := pg_next pd\<rparr>]\<rparr>)"
    have "kmem_ok s'" using drop_head_keeps [OF assms(1-3) _ pos] True by (simp add: s'_def k_def)
    moreover have "live s' = live s" by (rule live) (simp add: s'_def give_page_def)
    ultimately show ?thesis using True by (auto simp: drop_page_def first_of_def k_def s'_def give_page_def split: if_splits)
  next
    case False
    have "a \<in> set l" using l assms(2) pos by (auto simp: list_ok_def open_pages_def k_def)
    then obtain ys b zs where b: "l = ys @ b # a # zs" "page_before (pages s) (first_of s k) a = Some b"
      using page_before_finds [of "pages s" "first_of s k" l a] l False by (auto simp: list_ok_def)
    have "b \<in> open_pages (pages s) k" using l b(1) by (auto simp: list_ok_def)
    then obtain db where db: "pages s b = Some db" by (auto simp: open_pages_def)
    have b0: "b \<noteq> 0" using kmem_okD(3) [OF assms(1) db] page_geometry by fastforce
    define s' where "s' = give_page a (s\<lparr>pages := (pages s)(b \<mapsto> db\<lparr>pg_next := pg_next pd\<rparr>)\<rparr>)"
    have "kmem_ok s'" unfolding s'_def by (rule drop_inner_keeps [OF assms(1-3) k_def l [unfolded b(1)] db])
    moreover have "live s' = live s" by (rule live) (simp add: s'_def give_page_def)
    moreover have "drop_page s a pd (sizes s ! nat (pg_order pd)) = Some s'"
      using False b(2) b0 db by (simp add: drop_page_def first_of_def k_def s'_def)
    ultimately show ?thesis using db by (auto simp: s'_def give_page_def split: if_splits)
  qed
qed

lemma count_free_keeps:
  assumes "kmem_ok s"
  shows "kmem_ok (count_free s k n) \<and> live (count_free s k n) = live s \<and> pages (count_free s k n) = pages s"
proof -
  let ?s = "count_free s k n"
  have "first_of ?s k' = first_of s k'" for k'
    by (cases "nat k < length (sizes s)") (auto simp: count_free_def first_of_def nth_list_update list_update_beyond not_less)
  moreover have "shape ?s" unfolding count_free_def using kmem_okD(1) [OF assms] by (intro shape_upd) simp_all
  moreover have same: "pages ?s = pages s" "blocks ?s = blocks s" by (simp_all add: count_free_def)
  moreover have "live ?s = live s" by (rule ext) (simp add: live_def same)
  ultimately show ?thesis using assms by (simp add: kmem_ok_def blocks_ok_def)
qed

lemma next_aligned:
  assumes "kmem_ok s" "pages s a = Some pd" "page_ok (blocks s) a pd fs"
  shows "pg_next pd mod 4096 = 0"
proof (cases "nfree pd = 0")
  case True
  then show ?thesis using assms(3) by (simp add: page_ok_def)
next
  case False
  have g: "0 \<le> pg_order pd" "pg_order pd < 8" "0 < nfree pd"
    using False assms(3) by (auto simp: page_ok_def free_ok_def)
  obtain l where l: "list_ok (pages s) (pg_order pd) (first_of s (pg_order pd)) l" using kmem_okD(4) [OF assms(1) g(1,2)] by blast
  have "a \<in> set l" using l assms(2) g(3) by (auto simp: list_ok_def open_pages_def)
  then have "pg_next pd = 0 \<or> pg_next pd \<in> open_pages (pages s) (pg_order pd)"
    using chain_next [of "\<lambda>x. map_option pg_next (pages s x)" "first_of s (pg_order pd)" l a] l assms(2) by (auto simp: list_ok_def)
  then show ?thesis
  proof
    assume "pg_next pd \<in> open_pages (pages s) (pg_order pd)"
    then obtain pd' where "pages s (pg_next pd) = Some pd'" by (auto simp: open_pages_def)
    then show ?thesis using kmem_okD(3) [OF assms(1)] page_geometry by blast
  qed simp
qed

text \<open>A page with a block in use.\<close>

definition busy :: "kmem \<Rightarrow> int \<Rightarrow> bool" where
  "busy s a \<longleftrightarrow> (\<exists>q. live s q \<noteq> None \<and> PAGE_DESC (q - 8) = a)"

lemma unowned_not_busy:
  assumes "kmem_ok s" "pages s a = None"
  shows "\<not> busy s a"
proof
  assume "busy s a"
  then obtain q n where "live s q = Some n" "PAGE_DESC (q - 8) = a" by (auto simp: busy_def)
  then show False using used_slot [OF assms(1)] assms(2) by fastforce
qed

lemma busy_iff:
  assumes "kmem_ok s" "pages s a = Some pd" "page_ok (blocks s) a pd fs"
  shows "busy s a \<longleftrightarrow> nfree pd \<noteq> nblk (pg_order pd)"
proof -
  note g = page_geometry [OF assms(3)]
  have h: "\<exists>b. blocks s x = Some b \<and> (x \<in> set fs \<longleftrightarrow> bh_flags b \<noteq> MF_USED)" if "x \<in> slots a (pg_order pd)" for x
    using that assms(3) by (auto simp: page_ok_def headers_ok_def MF_FREE_def MF_USED_def split: if_splits)
  have "busy s a \<longleftrightarrow> \<not> slots a (pg_order pd) \<subseteq> set fs"
  proof
    assume "busy s a"
    then obtain q where q: "live s q \<noteq> None" "PAGE_DESC (q - 8) = a" by (auto simp: busy_def)
    then obtain b where b: "blocks s (q - 8) = Some b" "bh_flags b = MF_USED"
      by (auto simp: live_def sizeof_block_header_def split: option.splits if_splits)
    then have "q - 8 \<in> slots a (pg_order pd)" using kmem_okD(2) [OF assms(1)] q(2) assms(2) by (auto simp: blocks_ok_def)
    then show "\<not> slots a (pg_order pd) \<subseteq> set fs" using h b by fastforce
  next
    assume "\<not> slots a (pg_order pd) \<subseteq> set fs"
    then obtain x where x: "x \<in> slots a (pg_order pd)" "x \<notin> set fs" by blast
    moreover have "PAGE_DESC x = a" using g by (intro slot_page [OF x(1)]) simp_all
    ultimately show "busy s a" using h [OF x(1)] unfolding busy_def
      by (intro exI [of _ "x + 8"]) (auto simp: live_def sizeof_block_header_def)
  qed
  also have "\<dots> \<longleftrightarrow> set fs \<noteq> slots a (pg_order pd)" using assms(3) by (auto simp: page_ok_def free_ok_def)
  also have "\<dots> \<longleftrightarrow> nfree pd \<noteq> nblk (pg_order pd)"
    using all_free [OF assms(3)] card_slots [of "pg_order pd" a] g class_bounds(2) [of "pg_order pd"] assms(3)
    by (auto simp: page_ok_def free_ok_def dest: distinct_card)
  finally show ?thesis .
qed

lemma free_block_effect:
  assumes "kmem_ok s" "pages s a = Some pd" "page_ok (blocks s) a pd fs" "p \<in> slots a (pg_order pd)" "p \<notin> set fs"
  shows "\<exists>s'. free_block s a pd p n = (s', Ret 0) \<and> kmem_ok s' \<and> live s' = (live s)(p + 8 := None) \<and>
    dom (pages s') = dom (pages s) - (if busy s' a then {} else {a})"
proof -
  note g = page_geometry [OF assms(3)]
  define s1 where "s1 = link_block s a pd (sizes s ! nat (pg_order pd)) p"
  obtain pd1 where s1: "kmem_ok s1" "live s1 = (live s)(p + 8 := None)" "dom (pages s1) = dom (pages s)"
    "pages s1 a = Some pd1" "pg_order pd1 = pg_order pd" "page_ok (blocks s1) a pd1 (p # fs)"
    using link_keeps [OF assms(1-5)] unfolding s1_def by blast
  note sh = shape_at [OF kmem_okD(1) [OF assms(1)], of "pg_order pd"] shape_at [OF kmem_okD(1) [OF s1(1)], of "pg_order pd"]
  show ?thesis
  proof (cases "nfree pd1 = nblk (pg_order pd)")
    case True
    obtain s2 where s2: "drop_page s1 a pd1 (sizes s1 ! nat (pg_order pd)) = Some s2" "kmem_ok s2" "live s2 = live s1"
      "dom (pages s2) = dom (pages s1) - {a}" using drop_keeps [OF s1(1,4,6)] True s1(5) by auto
    have "free_block s a pd p n = (count_free s2 (pg_order pd) n, Ret 0)"
      using sh g True s1(4,5) s2(1) by (simp add: free_block_def s1_def [symmetric])
    moreover have "\<not> busy (count_free s2 (pg_order pd) n) a"
      using busy_iff [OF s1(1,4,6)] True s1(5) s2(3) count_free_keeps [OF s2(2)] by (simp add: busy_def)
    ultimately show ?thesis using count_free_keeps [OF s2(2)] s1 s2 by simp
  next
    case False
    have "free_block s a pd p n = (count_free s1 (pg_order pd) n, Ret 0)"
      using sh g False s1(4,5) by (simp add: free_block_def s1_def [symmetric])
    moreover have "busy (count_free s1 (pg_order pd) n) a"
      using busy_iff [OF s1(1,4,6)] False s1(5) count_free_keeps [OF s1(1)] by (simp add: busy_def)
    ultimately show ?thesis using count_free_keeps [OF s1(1)] s1 by simp
  qed
qed

lemma kfree_effect:
  assumes "kmem_ok s" "live s ptr = Some n"
  shows "if sz = 0 \<or> u32 sz = n
    then \<exists>s'. kfree_s s ptr sz = (s', Ret 0) \<and> kmem_ok s' \<and> live s' = (live s)(ptr := None) \<and>
      dom (pages s') = dom (pages s) - (if busy s' (PAGE_DESC (ptr - 8)) then {} else {PAGE_DESC (ptr - 8)})
    else kfree_s s ptr sz = (s, Ret 0)"
proof -
  obtain a pd fs where a: "pages s a = Some pd" "page_ok (blocks s) a pd fs" "a = PAGE_DESC (ptr - 8)"
    "ptr - 8 \<in> slots a (pg_order pd)" "ptr - 8 \<notin> set fs" using used_slot [OF assms] by blast
  obtain b where b: "blocks s (ptr - 8) = Some b" "bh_flags b = MF_USED" "vp b = n"
    using assms(2) by (auto simp: live_def sizeof_block_header_def split: option.splits if_splits)
  have eq: "kfree_s s ptr sz = (if sz \<noteq> 0 \<and> u32 sz \<noteq> n then (s, Ret 0) else free_block s a pd (ptr - 8) (s32 n))"
    using a(1) b page_geometry [OF a(2)] next_aligned [OF assms(1) a(1,2)]
    by (simp add: kfree_s_def Let_def sizeof_block_header_def PAGE_SIZE_def a(3) [symmetric])
  show ?thesis
  proof (cases "sz = 0 \<or> u32 sz = n")
    case True
    then have "kfree_s s ptr sz = free_block s a pd (ptr - 8) (s32 n)" using eq by auto
    then show ?thesis
      unfolding if_P [OF True] a(3) [symmetric] using free_block_effect [OF assms(1) a(1,2,4,5), of "s32 n"]
      by (simp split del: if_split)
  qed (use eq in simp)
qed

section \<open>The system\<close>

fun call_of :: "kwait \<Rightarrow> kcall" where
  "call_of (GetPage c) = c"
| "call_of (Again c) = c"

definition km_inv :: "kmem \<Rightarrow> kwait multiset \<Rightarrow> bool" where
  "km_inv s W \<longleftrightarrow> kmem_ok s \<and> (\<forall>w \<in># W. call_ok (call_of w))"

text \<open>The allocator a client sees: it hands out a block apart from all in use, or takes one back.\<close>

inductive heap_step :: "(int \<Rightarrow> int option) \<Rightarrow> (int \<Rightarrow> int option) \<Rightarrow> bool" where
  heap_alloc: "m p = None \<Longrightarrow> 0 \<le> n \<Longrightarrow> apart (m(p \<mapsto> n)) \<Longrightarrow> heap_step m (m(p \<mapsto> n))"
| heap_free: "m p \<noteq> None \<Longrightarrow> heap_step m (m(p := None))"

definition run_ok :: "kmem \<Rightarrow> krun \<Rightarrow> bool" where
  "run_ok s r \<longleftrightarrow> snd r \<noteq> Fault \<and> (live (fst r) = live s \<or> heap_step (live s) (live (fst r))) \<and>
     (\<forall>p. snd r = Ret p \<and> p \<noteq> 0 \<longrightarrow> live s p = None \<and> live (fst r) p \<noteq> None)"

lemma order_from_cong: "map sz_size ds = map sz_size ds' \<Longrightarrow> order_from ds n k = order_from ds' n k"
proof (induction ds arbitrary: ds' k)
  case (Cons d ds)
  then obtain e es where e: "ds' = e # es" "sz_size d = sz_size e" "map sz_size ds = map sz_size es" by auto
  have "order_from ds n (k + 1) = order_from es n (k + 1)" by (rule Cons.IH [OF e(3)])
  then show ?case by (simp add: e(1,2))
qed simp

lemma get_order_fits:
  assumes "kmem_ok s" "0 \<le> sz" "sz \<le> 4096"
  shows "get_order s sz = -1 \<and> 4072 < sz \<or> 0 \<le> get_order s sz \<and> get_order s sz < 8 \<and> sz + 8 \<le> bsize (get_order s sz)"
proof -
  have "map sz_size (sizes s) = map sz_size (map size_class size_classes)"
    using arg_cong [OF kmem_okD(1) [OF assms(1), unfolded shape_def], of "map fst"] by (simp add: size_class_def comp_def)
  then have "get_order s sz = order_from (map size_class size_classes) (sz + 8) 0"
    using assms(2,3) order_from_cong by (simp add: get_order_def sizeof_block_header_def s32_id)
  then show ?thesis by (simp add: size_classes_def size_class_def bsize_def)
qed

lemma loop_ok:
  assumes "kmem_ok s" "call_ok c"
  shows "run_ok s (kmalloc_loop s c) \<and> km_inv (fst (kmalloc_loop s c)) (asleep (snd (kmalloc_loop s c)))"
proof -
  consider "kc_tries c = 0" | "kc_tries c \<noteq> 0" "first_of s (kc_order c) = 0" | "kc_tries c \<noteq> 0" "first_of s (kc_order c) \<noteq> 0" by blast
  then show ?thesis
  proof cases
    case 1
    then show ?thesis using assms by (simp add: loop_gives_up run_ok_def km_inv_def)
  next
    case 2
    then show ?thesis using assms loop_wants_page [OF assms 2] by (simp add: run_ok_def km_inv_def call_ok_def)
  next
    case 3
    obtain s' p where r: "kmalloc_loop s c = (s', Ret p)" "kmem_ok s'" "live s p = None" "live s' = (live s)(p \<mapsto> kc_size c)"
      using loop_takes [OF assms 3] by blast
    have "heap_step (live s) (live s')"
      unfolding r(4) using r(3) assms(2) live_apart [OF r(2)] by (intro heap_alloc) (simp_all add: r(4) call_ok_def)
    then show ?thesis using r by (simp add: run_ok_def km_inv_def)
  qed
qed

lemma kmalloc_starts:
  assumes "kmem_ok s" "0 \<le> sz"
  shows "kmalloc intr s sz priority = (s, Ret 0) \<and> 4072 < sz \<or>
    (\<exists>c. call_ok c \<and> kc_size c = sz \<and> kc_tries c = 4 \<and> kmalloc intr s sz priority = kmalloc_loop s c)"
proof (cases "sz \<le> 4096")
  case True
  define c where "c = \<lparr>kc_size = sz, kc_order = get_order s sz, kc_tries = MAX_GET_FREE_PAGE_TRIES,
    kc_prio = (if intr \<and> priority \<noteq> GFP_ATOMIC then GFP_ATOMIC else priority)\<rparr>"
  have "kmalloc intr s sz priority = (if get_order s sz < 0 then (s, Ret 0) else kmalloc_loop s c)"
    using True by (simp add: kmalloc_def Let_def MAX_KMALLOC_K_def c_def)
  moreover have "kc_size c = sz" "kc_tries c = 4" by (simp_all add: c_def MAX_GET_FREE_PAGE_TRIES_def)
  moreover have "call_ok c" if "0 \<le> get_order s sz"
    using get_order_fits [OF assms True] that assms(2) by (simp add: call_ok_def c_def)
  ultimately show ?thesis using get_order_fits [OF assms True] by (cases "get_order s sz < 0") auto
qed (simp add: kmalloc_def Let_def MAX_KMALLOC_K_def)

lemma enters_ok:
  assumes "kmem_ok s" "km_enters s r"
  shows "run_ok s r \<and> km_inv (fst r) (asleep (snd r))"
  using assms(2)
proof cases
  case (1 sz intr priority)
  then consider "r = (s, Ret 0)" | c where "call_ok c" "r = kmalloc_loop s c"
    using kmalloc_starts [OF assms(1), of sz intr priority] by metis
  then show ?thesis
    by cases (use assms(1) loop_ok [OF assms(1)] in \<open>simp_all add: run_ok_def km_inv_def\<close>)
next
  case (2 ptr sz)
  then obtain n where n: "live s ptr = Some n" by blast
  have "live s' = (live s)(ptr := None) \<Longrightarrow> heap_step (live s) (live s')" for s' using heap_free [of "live s" ptr] n by simp
  then show ?thesis
    using kfree_effect [OF assms(1) n, of sz] 2 assms(1) by (auto simp: run_ok_def km_inv_def split: if_splits)
qed

lemma resumes_ok:
  assumes "kmem_ok s" "call_ok (call_of w)" "km_resumes s w r"
  shows "run_ok s r \<and> km_inv (fst r) (asleep (snd r))"
  using assms(3)
proof cases
  case (1 page c)
  then show ?thesis
    using assms(1,2) page_adds [OF assms(1), of c page]
    by (cases "page = 0") (auto simp: kmalloc_page_def run_ok_def km_inv_def)
next
  case (2 c)
  then show ?thesis using assms loop_ok by simp
qed

lemma km_inv_join: "km_inv t A \<Longrightarrow> km_inv s W \<Longrightarrow> km_inv t (A + W)"
  by (auto simp: km_inv_def)

interpretation kmalloc_system: run_system km_enters km_resumes km_inv
proof unfold_locales
  show "km_inv (fst r) (asleep (snd r) + W)" if "km_inv s W" "km_enters s r" for s W r
    using enters_ok [of s r] that by (intro km_inv_join [OF _ that(1)]) (simp add: km_inv_def)
  show "km_inv (fst r) (asleep (snd r) + W)" if "km_inv s (add_mset p W)" "km_resumes s p r" for s p W r
    using resumes_ok [of s p r] that by (intro km_inv_join [of _ _ s]) (simp_all add: km_inv_def)
qed

lemma km_start_inv: "km_inv (kern km_start) (sleepers km_start)"
proof -
  have "shape kmem0" by (simp add: shape_def kmem0_def size_class_def comp_def)
  moreover have "\<exists>ps. list_ok (pages kmem0) k (first_of kmem0 k) ps" if k: "0 \<le> k" "k < 8" for k
  proof -
    have "nat k < length size_classes" using k by (simp add: size_classes_def)
    then have "list_ok (pages kmem0) k (first_of kmem0 k) []"
      by (simp add: list_ok_def open_pages_def first_of_def kmem0_def size_class_def)
    then show ?thesis ..
  qed
  ultimately have "kmem_ok kmem0" by (intro kmem_okI) (simp_all add: kmem0_def blocks_ok_def)
  then show ?thesis by (simp add: km_inv_def km_start_def)
qed

lemma km_reachable_inv: "km_step\<^sup>*\<^sup>* km_start w \<Longrightarrow> km_inv (kern w) (sleepers w)"
  by (rule kmalloc_system.reachable_keeps [OF _ km_start_inv])

text \<open>The run of a call to its end when nothing comes between, with the answer of \<open>__get_free_page\<close>.\<close>

definition kmalloc_alone :: "bool \<Rightarrow> kmem \<Rightarrow> int \<Rightarrow> int \<Rightarrow> int \<Rightarrow> krun" where
  "kmalloc_alone intr s sz priority page =
     (case kmalloc intr s sz priority of
        (s, Sleep (GetPage c)) \<Rightarrow>
          (case kmalloc_page s c page of (s, Sleep (Again c)) \<Rightarrow> kmalloc_loop s c | r \<Rightarrow> r)
      | r \<Rightarrow> r)"

lemma alone_takes:
  assumes "kmem_ok s" "0 \<le> sz" "sz \<le> 4072" "fresh_page s page" "page \<noteq> 0"
  shows "\<exists>s' p. kmalloc_alone intr s sz priority page = (s', Ret p) \<and> p \<noteq> 0 \<and> kmem_ok s' \<and> live s p = None \<and>
    live s' = (live s)(p \<mapsto> sz) \<and> (dom (pages s') = dom (pages s) \<or> dom (pages s') = insert page (dom (pages s)) \<and> PAGE_DESC (p - 8) = page)"
proof -
  obtain c where c: "call_ok c" "kc_size c = sz" "kc_tries c = 4" "kmalloc intr s sz priority = kmalloc_loop s c"
    using kmalloc_starts [OF assms(1,2)] assms(3) by force
  show ?thesis
  proof (cases "first_of s (kc_order c) = 0")
    case False
    then obtain s' p where "kmalloc_loop s c = (s', Ret p)" "p \<noteq> 0" "kmem_ok s'" "live s p = None"
      "live s' = (live s)(p \<mapsto> sz)" "dom (pages s') = dom (pages s)"
      using loop_takes [OF assms(1) c(1)] c(2,3) by auto
    then show ?thesis by (auto simp: kmalloc_alone_def c(4))
  next
    case True
    let ?c = "c\<lparr>kc_tries := 3\<rparr>"
    have wants: "kmalloc_loop s c = (s, Sleep (GetPage ?c))" using loop_wants_page [OF assms(1) c(1) _ True] c(3) by simp
    have ok: "call_ok ?c" using c(1) by (simp add: call_ok_def)
    obtain s1 where s1: "kmalloc_page s ?c page = (s1, Sleep (Again ?c))" "kmem_ok s1" "live s1 = live s"
      "first_of s1 (kc_order c) = page" "dom (pages s1) = insert page (dom (pages s))"
      using page_adds [OF assms(1) ok assms(4,5)] by auto
    then obtain s' p where "kmalloc_loop s1 ?c = (s', Ret p)" "p \<noteq> 0" "kmem_ok s'" "live s p = None"
      "live s' = (live s)(p \<mapsto> sz)" "dom (pages s') = insert page (dom (pages s))" "PAGE_DESC (p - 8) = page"
      using loop_takes [OF s1(2) ok] assms(5) c(2) by auto
    then show ?thesis by (auto simp: kmalloc_alone_def c(4) wants s1(1))
  qed
qed


lemma fresh_start: "fresh_page (kern km_start) 4096"
  by (simp add: fresh_page_def km_start_def kmem0_def PAGE_SIZE_def)


text \<open>
  C15: In every state that can be reached a request of up to 4072 bytes that nothing comes between gets a block of that length
  when a page is to be had, and freeing that block leaves the blocks in use as they were and no page more than before.
\<close>

theorem kmalloc_serves_and_gives_back:
  assumes "km_step\<^sup>*\<^sup>* km_start w" "0 \<le> sz" "sz \<le> 4072" "fresh_page (kern w) page" "page \<noteq> 0"
  shows "\<exists>s p. kmalloc_alone intr (kern w) sz priority page = (s, Ret p) \<and> p \<noteq> 0 \<and> live (kern w) p = None \<and>
    live s = (live (kern w))(p \<mapsto> sz) \<and> live (fst (kfree_s s p 0)) = live (kern w) \<and>
    dom (pages (fst (kfree_s s p 0))) \<subseteq> dom (pages (kern w))"
proof -
  let ?s = "kern w"
  have ok: "kmem_ok ?s" using km_reachable_inv [OF assms(1)] by (simp add: km_inv_def)
  obtain s p where s: "kmalloc_alone intr ?s sz priority page = (s, Ret p)" "p \<noteq> 0" "kmem_ok s" "live ?s p = None"
      "live s = (live ?s)(p \<mapsto> sz)"
      "dom (pages s) = dom (pages ?s) \<or> dom (pages s) = insert page (dom (pages ?s)) \<and> PAGE_DESC (p - 8) = page"
    using alone_takes [OF ok assms(2-5)] by blast
  obtain t where t: "kfree_s s p 0 = (t, Ret 0)" "kmem_ok t" "live t = (live s)(p := None)"
      "dom (pages t) = dom (pages s) - (if busy t (PAGE_DESC (p - 8)) then {} else {PAGE_DESC (p - 8)})"
    using kfree_effect [OF s(3), of p sz 0] s(5) by auto
  have live: "live t = live ?s" using t(3) s(4,5) by (simp add: fun_upd_idem)
  have "pages ?s page = None" using assms(4,5) by (simp add: fresh_page_def)
  then have "\<not> busy t page" using unowned_not_busy [OF ok] live by (simp add: busy_def)
  then have "dom (pages t) \<subseteq> dom (pages ?s)" using s(6) t(4) by (auto split: if_splits)
  then show ?thesis using s t(1) live by auto
qed

theorem kmalloc_serves_and_gives_back_witness:
  "\<exists>s p. kmalloc_alone False (kern km_start) 100 GFP_ATOMIC 4096 = (s, Ret p) \<and> p \<noteq> 0 \<and> live (kern km_start) p = None \<and>
    live s = (live (kern km_start))(p \<mapsto> 100) \<and> live (fst (kfree_s s p 0)) = live (kern km_start) \<and>
    dom (pages (fst (kfree_s s p 0))) \<subseteq> dom (pages (kern km_start))"
  by (rule kmalloc_serves_and_gives_back [OF rtranclp.rtrancl_refl _ _ fresh_start]) simp_all

end
