(* ===== verification/Spec2Isabelle.thy ===== *)
theory Spec2Isabelle
  imports Ioport Locks_Props Fifo_Props Msg_Props Sem_Props Sys_Props Vsprintf_Props Timers_Props Signals_Props
    Sched_Props Clock Kmalloc_Props
begin

text \<open>
  Verification of parts of a Linux 1.0 kernel.

  \<^bold>\<open>The program.\<close> The source tree is a complete kernel for the 80386: boot code and decompressor
  (boot, zBoot), start-up (init), processes, signals and time (kernel), memory (mm), the file system layer
  and a dozen file systems (fs), System V communication (ipc), drivers and the network. A process enters
  it by a system call and runs in it alone until it sleeps or returns; interrupts run in between. This
  library models the parts whose behaviour is decided by their own data: record locks, the table of open
  files, pipes and named pipes, message queues and semaphores, identities and limits, formatting,
  timers, signals, the scheduler, the clock, the allocator and the I/O port maps.

  \<^bold>\<open>Conventions.\<close> A C structure is a record with the fields its functions use, a C integer an \<open>int\<close> with its
  wrap-around written out (\<open>u16\<close>, \<open>s16\<close>, \<open>u32\<close>, \<open>s32\<close>) where the code computes and a machine word where it works
  on bits. A system call returns an \<open>outcome\<close>: a value, an error number, a sleep with all the call needs to go
  on, or \<open>Fault\<close>, the use of memory that is not there. A call that sleeps is several definitions, one per run
  from a sleep to the next, in which the code has the machine to itself. Pointers are indices or addresses
  into an explicit heap where objects are shared or freed, and lists where the code only walks a chain. The
  answers of \<open>verify_area\<close>, \<open>kmalloc\<close> and of the copies from user space, the present time and the reading of
  the timer chip are arguments, quantified over in the theorems.

  \<^bold>\<open>Theories.\<close>
  \<^item> KPrelude: errors, outcomes, wrap-around arithmetic, array access that can fail, \<open>suser\<close> and
    \<open>in_group_p\<close> of kernel/sys.c, and the contracts \<open>pool\<close> (a source of unused objects) and \<open>bounded_fifo\<close>.
  \<^item> Ioport: kernel/ioport.c. The word-wise \<open>set_bitmap\<close> and \<open>check_bitmap\<close> against a map of single
    bits (locale \<open>range_map\<close>, interpretation \<open>iomap\<close>).
  \<^item> Locks, Locks_Scan, Locks_Props: fs/locks.c. \<open>lock_it\<close> with its scan, its splits and merges, sets
    exactly the requested range and keeps the list well formed; conflicting locks never coexist; what F_GETLK
    answers agrees with F_SETLK; closing releases exactly the locks of the descriptor.
  \<^item> File_Table: fs/file_table.c, the ring of \<open>struct file\<close>; \<open>get_empty_filp\<close> implements \<open>pool\<close>.
  \<^item> Pipe, Pipe_Props: fs/pipe.c and the pipe inode. The ring buffer implements \<open>bounded_fifo\<close>; any
    sequence of runs of readers and writers delivers the bytes in order; small writes are atomic;
    \<open>sys_pipe\<close> has its whole effect or none.
  \<^item> Fifo, Fifo_Props: fs/fifo.c. The step relation \<open>fifo_step\<close> interleaves the runs of all openers and closers; the
    four counts of the inode are the numbers of its users, and an opener that waits for a partner gets on.
  \<^item> Runs: the relation \<open>run_step\<close> of interleaved calls and the locale \<open>run_system\<close>, which takes an invariant from
    single runs to all reachable states; interpreted for message queues and for the allocator.
  \<^item> Kmalloc, Kmalloc_Props: mm/kmalloc.c. Free lists in and of pages, under any interleaving of calls and
    interrupts, implement an allocator whose blocks never overlap; a page without used blocks is given back.
  \<^item> Ipc_Util: ipc/util.c and what the System V mechanisms share: permissions, search by key, identifiers, and
    the specification \<open>id_step\<close> of identifiers with the locale \<open>ident_table\<close>.
  \<^item> Msg, Msg_Queue, Msg_Inv, Msg_Props: ipc/msg.c. Messages are a linked list on a heap; the invariant of the
    system of all calls gives that no call touches freed memory, the exception excluded by hypothesis
    and exhibited by a trace; removed identifiers stay dead; a receive takes the message its type asks for.
  \<^item> Sem, Sem_Props: ipc/sem.c. A call on different semaphores is done as a whole or not at all.
  \<^item> Sys, Sys_Props: kernel/sys.c. Identities, groups, sessions, limits, the break and machine names.
  \<^item> Vsprintf, Vsprintf_Props: kernel/vsprintf.c with the table of lib/ctype.c. Printing and reading numbers
    are inverse; \<open>number\<close> returns with the width asked for.
  \<^item> Timers, Timers_Props: the timers of kernel/sched.c. The list of relative times implements a list of
    absolute times and the locale \<open>timer_service\<close>: a timer goes off on exactly its tick.
  \<^item> Signals, Signals_Props: kernel/signal.c and the sending half of kernel/exit.c. SIGKILL always gets
    through. Processes are those of Sys.
  \<^item> Sched, Sched_Props: kernel/sched.c and kernel/itimer.c. \<open>schedule\<close> returns and chooses a best
    runnable process; the alarm it raises is that of \<open>send_sig\<close> in Signals.
  \<^item> Clock: kernel/mktime.c, kernel/time.c and the clock part of the timer interrupt. \<open>kernel_mktime\<close>
    counts the calendar.

  The model of a component and the lemmas about it are in separate theories, except where they are short.
  Properties carry a number C and a statement in words; those with hypotheses are followed by an instance.

  \<^bold>\<open>Loops.\<close> There is no fuel. A loop over a list or a table is structural; a loop that could run forever is a
  partial function into \<open>option\<close> whose value is \<open>None\<close> when it does not end, and its return is proved: the
  copy loops of pipes by the bytes left, the walks along message links and page lists by the list they follow, the
  digits of \<open>number\<close> by 32 bits, the reload of an interval timer by the positive interval, the bottom half
  of timers by the length of the list when the functions leave it alone. The bounds in statements are those of the code: 4096 bytes in a
  pipe, 128 identifiers, 32 semaphores in a set, the range of a C type, and the years to 2037, the last that
  a signed 32-bit time holds whole.

  \<^bold>\<open>Not modelled.\<close>
  \<^item> Boot, decompressor, start-up, traps, interrupt entry, fork, ptrace, exec and the context switch: their
    effect is in registers, descriptor and page tables, which C does not describe.
  \<^item> mm except kmalloc.c, and shared memory: page tables are shared with the processor; a model needs its side of the contract.
    \<open>sys_brk\<close> reports the mappings it makes and removes as operations.
  \<^item> Buffer cache, inodes, name lookup, the file systems, block and character drivers, network: they make
    progress through interrupts and devices, and their calls go through operation tables to one another, so
    that no part stands alone; the allocation code of a file system is about blocks that the cache holds.
  \<^item> In the parts that are modelled: functions that only print (\<open>dump_io_bitmap\<close>, \<open>show_state\<close>), the frame of a
    signal handler on the user stack, \<open>sys_sigsuspend\<close>, \<open>do_exit\<close>, \<open>sys_wait4\<close>, \<open>sleep_on\<close>, virtual
    8086 mode in sys.c, and the CMOS clock. Waking a queue is modelled in Sched; in the models of sleeping
    calls a sleeper may go on at any time, which includes every order of waking.

  \<^bold>\<open>Defects that modelling showed\<close> and a property states: an open named pipe whose page cannot be had leaks its
  count (Fifo_Props), a sender that waits for memory uses a queue that has been freed (Msg_Props), setsid can split
  a process group (Sys_Props), a width of \<open>*\<close> is printed (Vsprintf_Props), and semop accepts a semaphore
  past the end and operations that together leave the range (Sem_Props).
\<close>

end
